(* ===== verification/BTree_Map.thy ===== *)
theory BTree_Map
  imports Once_Prelude
begin

text \<open>
  \<open>std::collections::BTreeMap\<close> as an association list in strictly ascending key
  order, which is also the order of its iterators. The locale \<open>ordered_map\<close> is the
  contract the components rely on; it is interpreted on these definitions.
\<close>

type_synonym ('k, 'v) bmap = "('k \<times> 'v) list"

definition bm_ok :: "('k :: linorder, 'v) bmap \<Rightarrow> bool" where
  "bm_ok m \<longleftrightarrow> sorted_wrt (<) (map fst m)"

definition bm_get :: "('k, 'v) bmap \<Rightarrow> 'k \<Rightarrow> 'v option" where
  "bm_get m k = map_of m k"

fun bm_insert :: "'k :: linorder \<Rightarrow> 'v \<Rightarrow> ('k, 'v) bmap \<Rightarrow> ('k, 'v) bmap" where
  "bm_insert k v [] = [(k, v)]"
| "bm_insert k v ((a, b) # m) =
     (if k < a then (k, v) # (a, b) # m
      else if k = a then (k, v) # m
      else (a, b) # bm_insert k v m)"

fun bm_remove :: "'k :: linorder \<Rightarrow> ('k, 'v) bmap \<Rightarrow> ('k, 'v) bmap" where
  "bm_remove k [] = []"
| "bm_remove k ((a, b) # m) = (if k = a then m else (a, b) # bm_remove k m)"

lemma bm_ok_Nil [simp]: "bm_ok []"
  by (simp add: bm_ok_def)

lemma bm_ok_Cons [simp]: "bm_ok ((a, b) # m) \<longleftrightarrow> (\<forall>k\<in>fst ` set m. a < k) \<and> bm_ok m"
  by (auto simp: bm_ok_def)

lemma bm_get_Nil [simp]: "bm_get [] k = None"
  by (simp add: bm_get_def)

lemma bm_get_Cons [simp]: "bm_get ((a, b) # m) k = (if k = a then Some b else bm_get m k)"
  by (simp add: bm_get_def)

lemma bm_get_None_iff: "bm_get m k = None \<longleftrightarrow> k \<notin> fst ` set m"
  by (simp add: bm_get_def map_of_eq_None_iff)

lemma bm_get_Some_in: "bm_get m k = Some v \<Longrightarrow> (k, v) \<in> set m"
  by (simp add: bm_get_def map_of_SomeD)

lemma bm_ok_distinct: "bm_ok m \<Longrightarrow> distinct (map fst m)"
  by (simp add: bm_ok_def sorted_wrt_less_distinct)

lemma bm_get_in_iff: "bm_ok m \<Longrightarrow> bm_get m k = Some v \<longleftrightarrow> (k, v) \<in> set m"
  by (simp add: bm_get_def bm_ok_distinct)

lemma set_bm_insert: "fst ` set (bm_insert k v m) = insert k (fst ` set m)"
  by (induction k v m rule: bm_insert.induct) auto

lemma bm_insert_entries: "set (bm_insert k v m) \<subseteq> insert (k, v) (set m)"
  by (induction m rule: bm_insert.induct) auto

lemma set_bm_remove: "fst ` set (bm_remove k m) \<subseteq> fst ` set m"
  by (induction k m rule: bm_remove.induct) auto

lemma bm_get_insert: "bm_get (bm_insert k v m) = (bm_get m)(k \<mapsto> v)"
  by (induction k v m rule: bm_insert.induct) auto

lemma bm_get_remove: "bm_ok m \<Longrightarrow> bm_get (bm_remove k m) = (bm_get m)(k := None)"
proof (induction k m rule: bm_remove.induct)
  case (2 k a b m)
  then show ?case
    by (force simp: fun_eq_iff bm_get_None_iff)
qed (simp add: fun_eq_iff)

lemma bm_ok_insert: "bm_ok m \<Longrightarrow> bm_ok (bm_insert k v m)"
  by (induction k v m rule: bm_insert.induct) (auto simp: set_bm_insert intro: less_trans)

lemma bm_ok_remove: "bm_ok m \<Longrightarrow> bm_ok (bm_remove k m)"
  by (induction k m rule: bm_remove.induct) (use set_bm_remove in fastforce)+

lemma bm_ext: "bm_ok m \<Longrightarrow> bm_ok n \<Longrightarrow> bm_get m = bm_get n \<Longrightarrow> m = n"
proof (induction m arbitrary: n)
  case Nil
  then show ?case
    by (cases n) (auto simp: fun_eq_iff, metis option.distinct(1))
next
  case (Cons p m)
  obtain a b where p: "p = (a, b)" by force
  have na: "\<And>k. bm_get n k = (if k = a then Some b else bm_get m k)"
    using fun_cong [OF Cons.prems(3)] p by (metis bm_get_Cons)
  then have "bm_get n a = Some b" by simp
  then obtain c d n' where n: "n = (c, d) # n'"
    by (cases n) auto
  have "a = c"
  proof (rule ccontr)
    assume "a \<noteq> c"
    have "(a, b) \<in> set n" using na bm_get_Some_in [of n a b] by simp
    with \<open>a \<noteq> c\<close> n Cons.prems(2) have "c < a" by force
    have "bm_get m c = Some d" using na [of c] \<open>a \<noteq> c\<close> n by (simp split: if_splits)
    then have "a < c" using Cons.prems(1) p bm_get_Some_in by force
    with \<open>c < a\<close> show False by simp
  qed
  have tl: "bm_get m k = bm_get n' k" for k
  proof (cases "k = a")
    case True
    have "a \<notin> fst ` set m" and "c \<notin> fst ` set n'" using Cons.prems(1,2) p n by force+
    then show ?thesis using True \<open>a = c\<close> by (simp add: bm_get_None_iff [symmetric])
  next
    case False
    then show ?thesis using na [of k] n \<open>a = c\<close> by simp
  qed
  then have "m = n'"
    using Cons.IH [of n'] Cons.prems(1,2) p n by (auto simp: fun_eq_iff)
  moreover have "b = d" using na [of a] n \<open>a = c\<close> by simp
  ultimately show ?case using p n \<open>a = c\<close> by simp
qed

section \<open>The contract of an ordered map\<close>

locale ordered_map =
  fixes get :: "'m \<Rightarrow> 'k :: linorder \<Rightarrow> 'v option"
    and ins :: "'k \<Rightarrow> 'v \<Rightarrow> 'm \<Rightarrow> 'm"
    and del :: "'k \<Rightarrow> 'm \<Rightarrow> 'm"
    and ok :: "'m \<Rightarrow> bool"
  assumes get_ins: "get (ins k v m) = (get m)(k \<mapsto> v)"
    and get_del: "ok m \<Longrightarrow> get (del k m) = (get m)(k := None)"
    and ok_ins: "ok m \<Longrightarrow> ok (ins k v m)"
    and ok_del: "ok m \<Longrightarrow> ok (del k m)"
begin

text \<open>
  Updating every key of a list once, as the loops \<open>for (k, c) in kvs\<close> over another map
  do: writing through the entry (created when missing), or only where there is one.
\<close>

lemma get_fold_entry:
  assumes "distinct (map fst kvs)"
  shows "get (fold (\<lambda>(k, c) m. ins k (g (get m k) c) m) kvs m) x =
    (case map_of kvs x of None \<Rightarrow> get m x | Some c \<Rightarrow> Some (g (get m x) c))"
  using assms
proof (induction kvs arbitrary: m)
  case (Cons p kvs)
  obtain k c where p: "p = (k, c)" by force
  have "map_of kvs k = None"
    using Cons.prems p by (simp add: map_of_eq_None_iff)
  then show ?case
    using Cons.IH [of "ins k (g (get m k) c) m"] Cons.prems p
    by (auto simp: get_ins split: option.split)
qed simp

lemma get_fold_present:
  assumes "distinct (map fst kvs)"
  shows "get (fold (\<lambda>(k, c) m. case get m k of None \<Rightarrow> m | Some n \<Rightarrow> ins k (g n c) m) kvs m) x =
    (case map_of kvs x of None \<Rightarrow> get m x | Some c \<Rightarrow> map_option (\<lambda>n. g n c) (get m x))"
  using assms
proof (induction kvs arbitrary: m)
  case (Cons p kvs)
  obtain k c where p: "p = (k, c)" by force
  let ?m = "case get m k of None \<Rightarrow> m | Some n \<Rightarrow> ins k (g n c) m"
  have "map_of kvs k = None"
    using Cons.prems p by (simp add: map_of_eq_None_iff)
  moreover have "get ?m x = (if x = k then map_option (\<lambda>n. g n c) (get m x) else get m x)"
    by (auto simp: get_ins split: option.split)
  ultimately show ?case
    using Cons.IH [of ?m] Cons.prems p by (auto split: option.split)
qed simp

lemma ok_fold_ins: "ok m \<Longrightarrow> ok (fold (\<lambda>(k, c) m. ins k (g m k c) m) kvs m)"
  by (induction kvs arbitrary: m) (auto simp: ok_ins)

end

interpretation bm: ordered_map bm_get bm_insert bm_remove bm_ok
  by unfold_locales (simp_all add: bm_get_insert bm_get_remove bm_ok_insert bm_ok_remove)

end
