(* ===== verification/Resource_Request.thy ===== *)
theory Resource_Request
  imports BTree_Map
begin

text \<open>
  The budget an action is admitted against and what one action asks of it:
  \<open>crates/once-core/src/resources/limits.rs\<close> and \<open>request.rs\<close>. A request is read
  per axis (CPU slots, memory, one axis per named slot); \<open>request_within\<close> says that it
  fits an empty pool on every axis.
\<close>

section \<open>Data\<close>

definition DEFAULT_ACTION_MEMORY_BYTES :: nat where
  "DEFAULT_ACTION_MEMORY_BYTES = 250 * 1024 * 1024"

record resource_limits =
  lim_cpu_slots :: nat
  lim_memory_bytes :: nat
  default_action_memory_bytes :: nat
  slot_limits :: "(string, nat) bmap"

record resource_request =
  req_cpu_slots :: nat
  req_memory_bytes :: nat
  req_slots :: "(string, nat) bmap"

text \<open>\<open>Error::ResourceRequirementUnsatisfied { resource, requested, capacity }\<close>\<close>

datatype resource_error = ResourceRequirementUnsatisfied string nat nat

section \<open>\<open>ResourceLimits\<close>\<close>

definition limits_new :: "nat \<Rightarrow> nat \<Rightarrow> resource_limits" where
  "limits_new cpu_slots memory_bytes =
     \<lparr>lim_cpu_slots = (if cpu_slots = 0 then 1 else cpu_slots),
      lim_memory_bytes = memory_bytes,
      default_action_memory_bytes =
        (if memory_bytes = 0 then 0 else min DEFAULT_ACTION_MEMORY_BYTES memory_bytes),
      slot_limits = []\<rparr>"

definition with_memory_bytes :: "resource_limits \<Rightarrow> nat \<Rightarrow> resource_limits" where
  "with_memory_bytes l memory_bytes =
     l\<lparr>lim_memory_bytes := memory_bytes,
       default_action_memory_bytes :=
         (if memory_bytes = 0 then 0 else min DEFAULT_ACTION_MEMORY_BYTES memory_bytes)\<rparr>"

definition with_default_action_memory_bytes :: "resource_limits \<Rightarrow> nat \<Rightarrow> resource_limits" where
  "with_default_action_memory_bytes l memory_bytes =
     l\<lparr>default_action_memory_bytes :=
         (if lim_memory_bytes l = 0 then memory_bytes else min memory_bytes (lim_memory_bytes l))\<rparr>"

definition with_slot_limit :: "resource_limits \<Rightarrow> string \<Rightarrow> nat \<Rightarrow> resource_limits" where
  "with_slot_limit l name count =
     l\<lparr>slot_limits := bm_insert name (if count = 0 then 1 else count) (slot_limits l)\<rparr>"

definition slot_limit :: "resource_limits \<Rightarrow> string \<Rightarrow> nat \<Rightarrow> nat" where
  "slot_limit l name default_value =
     (case bm_get (slot_limits l) name of None \<Rightarrow> default_value | Some n \<Rightarrow> n)"

definition slot_capacity :: "resource_limits \<Rightarrow> string \<Rightarrow> nat" where
  "slot_capacity l name = max (slot_limit l name 1) 1"

definition undeclared_memory_bytes :: "resource_limits \<Rightarrow> nat" where
  "undeclared_memory_bytes l =
     (let configured = (if default_action_memory_bytes l = 0 then DEFAULT_ACTION_MEMORY_BYTES
                        else default_action_memory_bytes l)
      in if lim_memory_bytes l = 0 then configured else min configured (lim_memory_bytes l))"

definition max_parallel_actions :: "resource_limits \<Rightarrow> nat" where
  "max_parallel_actions l =
     (if lim_memory_bytes l = 0 then lim_cpu_slots l
      else let memory_slots = lim_memory_bytes l div undeclared_memory_bytes l
           in max (min (lim_cpu_slots l)
                       (if memory_slots \<le> u64_max then memory_slots else u64_max)) 1)"

text \<open>
  The host facts come from the operating system: \<open>host\<close> is \<open>None\<close> when the system
  cannot be inspected, \<open>cgroup\<close> the control group's limit when there is one.
\<close>

definition detected_memory_bytes :: "nat option \<Rightarrow> nat option \<Rightarrow> nat option" where
  "detected_memory_bytes host cgroup =
     (case host of
        None \<Rightarrow> None
      | Some total_memory \<Rightarrow>
          (let positive = (\<lambda>m. case m of None \<Rightarrow> [] | Some b \<Rightarrow> if 0 < b then [b] else []);
               found = positive (Some total_memory) @ positive cgroup
           in case found of [] \<Rightarrow> None | b # bs \<Rightarrow> Some (fold min bs b)))"

definition limits_default :: "nat option \<Rightarrow> nat option \<Rightarrow> nat option \<Rightarrow> resource_limits" where
  "limits_default parallelism host cgroup =
     (let cpu_slots = (case parallelism of None \<Rightarrow> 8 | Some n \<Rightarrow> n);
          memory = (case detected_memory_bytes host cgroup of
                      None \<Rightarrow> 1024 * 1024 * 1024 | Some b \<Rightarrow> b)
      in limits_new cpu_slots (sat_mul memory 2 div 3))"

section \<open>\<open>ResourceRequest\<close>\<close>

definition request_new :: "nat \<Rightarrow> nat \<Rightarrow> resource_request" where
  "request_new cpu_slots memory_bytes =
     \<lparr>req_cpu_slots = (if cpu_slots = 0 then 1 else cpu_slots),
      req_memory_bytes = memory_bytes, req_slots = []\<rparr>"

definition request_default :: resource_request where
  "request_default = \<lparr>req_cpu_slots = 1, req_memory_bytes = 0, req_slots = []\<rparr>"

definition with_slot :: "resource_request \<Rightarrow> string \<Rightarrow> nat \<Rightarrow> resource_request" where
  "with_slot r name count =
     (if count = 0 then r\<lparr>req_slots := bm_remove name (req_slots r)\<rparr>
      else r\<lparr>req_slots := bm_insert name count (req_slots r)\<rparr>)"

definition is_default :: "resource_request \<Rightarrow> bool" where
  "is_default r \<longleftrightarrow> r = request_default"

definition estimated_memory :: "resource_limits \<Rightarrow> resource_request \<Rightarrow> nat" where
  "estimated_memory l r =
     (if req_memory_bytes r = 0 then undeclared_memory_bytes l else req_memory_bytes r)"

text \<open>
  \<open>bounded_by\<close> clamps every axis. \<open>clamp\<close> panics on crossed bounds, hence the option;
  \<open>ResourcePool::new\<close> makes the CPU bound at least one.
\<close>

fun clamp_slots :: "resource_limits \<Rightarrow> (string, nat) bmap \<Rightarrow> (string, nat) bmap option" where
  "clamp_slots l [] = Some []"
| "clamp_slots l ((name, requested) # rest) =
     (case clamp 1 (slot_capacity l name) requested of
        None \<Rightarrow> None
      | Some c \<Rightarrow> map_option (Cons (name, c)) (clamp_slots l rest))"

definition bounded_by :: "resource_limits \<Rightarrow> resource_request \<Rightarrow> resource_request option" where
  "bounded_by l r =
     (case clamp 1 (lim_cpu_slots l) (req_cpu_slots r) of
        None \<Rightarrow> None
      | Some cpu_slots \<Rightarrow>
          (let requested = estimated_memory l r;
               memory_bytes = (if lim_memory_bytes l = 0 then requested
                               else min requested (lim_memory_bytes l))
           in map_option
                (\<lambda>slots. \<lparr>req_cpu_slots = cpu_slots, req_memory_bytes = memory_bytes,
                          req_slots = slots\<rparr>)
                (clamp_slots l (req_slots r))))"

fun require_slots :: "resource_limits \<Rightarrow> (string, nat) bmap \<Rightarrow> resource_error + unit" where
  "require_slots l [] = Inr ()"
| "require_slots l ((name, requested) # rest) =
     (let capacity = slot_capacity l name
      in if capacity < requested
         then Inl (ResourceRequirementUnsatisfied (''slot `'' @ name @ ''`'') requested capacity)
         else require_slots l rest)"

definition required_within ::
  "resource_limits \<Rightarrow> resource_request \<Rightarrow> resource_error + resource_request" where
  "required_within l r =
     (let cpu_slots = max (req_cpu_slots r) 1; memory_bytes = estimated_memory l r
      in if lim_cpu_slots l < cpu_slots
         then Inl (ResourceRequirementUnsatisfied ''cpu slots'' cpu_slots (lim_cpu_slots l))
         else if lim_memory_bytes l \<noteq> 0 \<and> lim_memory_bytes l < memory_bytes
         then Inl (ResourceRequirementUnsatisfied ''memory bytes'' memory_bytes (lim_memory_bytes l))
         else rbind (require_slots l (req_slots r))
                (\<lambda>_. Inr \<lparr>req_cpu_slots = cpu_slots, req_memory_bytes = memory_bytes,
                          req_slots = req_slots r\<rparr>))"

section \<open>Axes\<close>

text \<open>
  The admission code treats every axis alike. \<open>limit_amount\<close> is \<open>None\<close> on a disabled
  axis (a memory budget of zero), where nothing is bounded.
\<close>

datatype axis = Cpu | Mem | Slot string

fun req_amount :: "resource_request \<Rightarrow> axis \<Rightarrow> nat" where
  "req_amount r Cpu = req_cpu_slots r"
| "req_amount r Mem = req_memory_bytes r"
| "req_amount r (Slot n) = (case bm_get (req_slots r) n of None \<Rightarrow> 0 | Some c \<Rightarrow> c)"

fun limit_amount :: "resource_limits \<Rightarrow> axis \<Rightarrow> nat option" where
  "limit_amount l Cpu = Some (lim_cpu_slots l)"
| "limit_amount l Mem = (if lim_memory_bytes l = 0 then None else Some (lim_memory_bytes l))"
| "limit_amount l (Slot n) = Some (slot_capacity l n)"

definition within_opt :: "nat \<Rightarrow> nat option \<Rightarrow> bool" where
  "within_opt n c \<longleftrightarrow> (case c of None \<Rightarrow> True | Some m \<Rightarrow> n \<le> m)"

lemma within_opt_simps [simp]: "within_opt n None" "within_opt n (Some m) \<longleftrightarrow> n \<le> m"
  by (simp_all add: within_opt_def)

definition request_within :: "resource_limits \<Rightarrow> resource_request \<Rightarrow> bool" where
  "request_within l r \<longleftrightarrow> (\<forall>a. within_opt (req_amount r a) (limit_amount l a))"

definition request_ok :: "resource_request \<Rightarrow> bool" where
  "request_ok r \<longleftrightarrow> bm_ok (req_slots r)"

text \<open>Every bound of the budget is representable in the machine's 64 bits.\<close>

definition limits_ok :: "resource_limits \<Rightarrow> bool" where
  "limits_ok l \<longleftrightarrow> 1 \<le> lim_cpu_slots l \<and> (\<forall>a. within_opt (case limit_amount l a of None \<Rightarrow> 0 | Some c \<Rightarrow> c) (Some u64_max))"

section \<open>Lemmas\<close>

lemma slot_capacity_pos [simp]: "0 < slot_capacity l n" "Suc 0 \<le> slot_capacity l n"
  by (simp_all add: slot_capacity_def)

lemma undeclared_memory_pos: "0 < undeclared_memory_bytes l"
  by (auto simp: undeclared_memory_bytes_def Let_def DEFAULT_ACTION_MEMORY_BYTES_def)

lemma undeclared_memory_le:
  "lim_memory_bytes l \<noteq> 0 \<Longrightarrow> undeclared_memory_bytes l \<le> lim_memory_bytes l"
  by (simp add: undeclared_memory_bytes_def Let_def)

lemma clamp_slots_eq:
  "clamp_slots l slots = Some (map (\<lambda>(n, c). (n, max 1 (min (slot_capacity l n) c))) slots)"
  by (induction l slots rule: clamp_slots.induct) (auto simp: clamp_def)

lemma require_slots_Inr:
  "require_slots l slots = Inr u \<longleftrightarrow> (\<forall>(n, c)\<in>set slots. c \<le> slot_capacity l n)"
  by (induction l slots rule: require_slots.induct) (auto simp: Let_def)

lemma require_slots_Inl:
  "require_slots l slots = Inl e \<Longrightarrow>
   \<exists>n c. (n, c) \<in> set slots \<and> slot_capacity l n < c \<and>
     e = ResourceRequirementUnsatisfied (''slot `'' @ n @ ''`'') c (slot_capacity l n)"
proof (induction l slots rule: require_slots.induct)
  case (2 l name requested rest)
  then show ?case by (auto simp: Let_def split: if_splits)
qed simp

lemma bm_get_map_snd: "bm_get (map (\<lambda>(n, c). (n, f n c)) m) k = map_option (f k) (bm_get m k)"
  by (induction m) auto

lemma bm_ok_map_snd [simp]: "bm_ok (map (\<lambda>(n, c). (n, f n c)) m) = bm_ok m"
  by (simp add: bm_ok_def comp_def case_prod_unfold)

lemma slots_within_iff:
  fixes cap :: "string \<Rightarrow> nat"
  assumes "bm_ok m"
  shows "(\<forall>(n, c)\<in>set m. c \<le> cap n) \<longleftrightarrow>
     (\<forall>n. (case bm_get m n of None \<Rightarrow> 0 | Some c \<Rightarrow> c) \<le> cap n)"
proof
  assume "\<forall>(n, c)\<in>set m. c \<le> cap n"
  then show "\<forall>n. (case bm_get m n of None \<Rightarrow> 0 | Some c \<Rightarrow> c) \<le> cap n"
    by (auto dest: bm_get_Some_in split: option.split)
next
  assume le: "\<forall>n. (case bm_get m n of None \<Rightarrow> 0 | Some c \<Rightarrow> c) \<le> cap n"
  have "c \<le> cap n" if "(n, c) \<in> set m" for n c
    using le [rule_format, of n] that assms by (simp add: bm_get_in_iff [symmetric])
  then show "\<forall>(n, c)\<in>set m. c \<le> cap n" by blast
qed

lemma request_within_iff:
  "request_within l r \<longleftrightarrow> req_cpu_slots r \<le> lim_cpu_slots l
     \<and> (lim_memory_bytes l \<noteq> 0 \<longrightarrow> req_memory_bytes r \<le> lim_memory_bytes l)
     \<and> (\<forall>n. req_amount r (Slot n) \<le> slot_capacity l n)"
proof -
  have "request_within l r \<longleftrightarrow> within_opt (req_amount r Cpu) (limit_amount l Cpu)
      \<and> within_opt (req_amount r Mem) (limit_amount l Mem)
      \<and> (\<forall>n. within_opt (req_amount r (Slot n)) (limit_amount l (Slot n)))"
    unfolding request_within_def by (metis axis.exhaust)
  then show ?thesis by simp
qed

lemma bounded_by_eq:
  assumes "1 \<le> lim_cpu_slots l"
  shows "bounded_by l r = Some
    \<lparr>req_cpu_slots = max 1 (min (lim_cpu_slots l) (req_cpu_slots r)),
     req_memory_bytes = (if lim_memory_bytes l = 0 then estimated_memory l r
                         else min (estimated_memory l r) (lim_memory_bytes l)),
     req_slots = map (\<lambda>(n, c). (n, max 1 (min (slot_capacity l n) c))) (req_slots r)\<rparr>"
  using assms by (simp add: bounded_by_def clamp_def clamp_slots_eq Let_def)

lemma bounded_by_within:
  assumes "1 \<le> lim_cpu_slots l" and "bounded_by l r = Some r'"
  shows "request_within l r'"
  using assms by (auto simp: bounded_by_eq request_within_iff bm_get_map_snd split: option.split)

lemma bounded_by_ok:
  "1 \<le> lim_cpu_slots l \<Longrightarrow> request_ok r \<Longrightarrow> bounded_by l r = Some r' \<Longrightarrow> request_ok r'"
  by (auto simp: bounded_by_eq request_ok_def)

lemma required_within_Inr:
  assumes "request_ok r"
  shows "required_within l r = Inr r' \<longleftrightarrow>
     r' = r\<lparr>req_cpu_slots := max (req_cpu_slots r) 1, req_memory_bytes := estimated_memory l r\<rparr>
     \<and> request_within l r'"
  using slots_within_iff [of "req_slots r" "slot_capacity l"] assms
  by (auto simp: required_within_def Let_def result_simps require_slots_Inr request_within_iff
      request_ok_def)

end
