(* ===== verification/Resource_Queue.thy ===== *)
theory Resource_Queue
  imports Resource_Request
begin

text \<open>
  FIFO admission with reservations: \<open>crates/once-core/src/resources/queue.rs\<close>. The
  definitions follow \<open>Usage\<close>, \<open>Queue\<close> and \<open>Free\<close>, with the lazily filled slot table of
  a dispatch pass kept as the code has it; the lemmas read them axis by axis and relate
  a pass to the specification \<open>reserve_pass\<close>, which knows only amounts per axis.
\<close>

section \<open>Usage\<close>

record usage =
  used_cpu :: nat
  used_mem :: nat
  used_slots :: "(string, nat) bmap"

definition usage_empty :: usage where
  "usage_empty = \<lparr>used_cpu = 0, used_mem = 0, used_slots = []\<rparr>"

definition usage_add :: "usage \<Rightarrow> resource_request \<Rightarrow> usage" where
  "usage_add u r =
     \<lparr>used_cpu = wrap_add (used_cpu u) (req_cpu_slots r),
      used_mem = sat_add (used_mem u) (req_memory_bytes r),
      used_slots = fold (\<lambda>(name, count) m.
          bm_insert name (wrap_add (case bm_get m name of None \<Rightarrow> 0 | Some n \<Rightarrow> n) count) m)
        (req_slots r) (used_slots u)\<rparr>"

definition usage_remove :: "usage \<Rightarrow> resource_request \<Rightarrow> usage" where
  "usage_remove u r =
     \<lparr>used_cpu = sat_sub (used_cpu u) (req_cpu_slots r),
      used_mem = sat_sub (used_mem u) (req_memory_bytes r),
      used_slots = fold (\<lambda>(name, count) m.
          case bm_get m name of None \<Rightarrow> m | Some n \<Rightarrow> bm_insert name (sat_sub n count) m)
        (req_slots r) (used_slots u)\<rparr>"

section \<open>The queue\<close>

text \<open>A waker is the task it wakes; \<open>will_wake\<close> compares tasks.\<close>

type_synonym waker = nat

record waiter =
  wid :: nat
  request :: resource_request
  granted :: bool
  waker :: "waker option"

record queue =
  used :: usage
  waiters :: "waiter list"
  next_id :: nat

datatype poll = Ready | Pending

definition queue_default :: queue where
  "queue_default = \<lparr>used = usage_empty, waiters = [], next_id = 0\<rparr>"

definition enqueue :: "queue \<Rightarrow> resource_request \<Rightarrow> queue \<times> nat" where
  "enqueue q r =
     (let i = next_id q
      in (q\<lparr>next_id := wrap_add (next_id q) 1,
            waiters := waiters q @ [\<lparr>wid = i, request = r, granted = False, waker = None\<rparr>]\<rparr>, i))"

fun position :: "waiter list \<Rightarrow> nat \<Rightarrow> nat option" where
  "position [] i = None"
| "position (w # ws) i = (if wid w = i then Some 0 else map_option Suc (position ws i))"

definition remove_at :: "nat \<Rightarrow> 'a list \<Rightarrow> 'a list" where
  "remove_at k xs = take k xs @ drop (Suc k) xs"

text \<open>Polling a waiter that has left the queue is \<open>unreachable!\<close>: \<open>None\<close>.\<close>

definition queue_poll :: "queue \<Rightarrow> nat \<Rightarrow> waker \<Rightarrow> (queue \<times> poll) option" where
  "queue_poll q i k =
     (case position (waiters q) i of
        None \<Rightarrow> None
      | Some index \<Rightarrow>
          (let w = waiters q ! index
           in if granted w then Some (q\<lparr>waiters := remove_at index (waiters q)\<rparr>, Ready)
              else let w' = (if waker w = Some k then w else w\<lparr>waker := Some k\<rparr>)
                   in Some (q\<lparr>waiters := (waiters q)[index := w']\<rparr>, Pending)))"

definition cancel :: "queue \<Rightarrow> nat \<Rightarrow> queue \<times> bool" where
  "cancel q i =
     (case position (waiters q) i of
        None \<Rightarrow> (q, False)
      | Some index \<Rightarrow>
          (let w = waiters q ! index;
               q' = q\<lparr>waiters := remove_at index (waiters q)\<rparr>
           in (if granted w then q'\<lparr>used := usage_remove (used q') (request w)\<rparr> else q', True)))"

definition queue_release :: "queue \<Rightarrow> resource_request \<Rightarrow> queue" where
  "queue_release q r = q\<lparr>used := usage_remove (used q) r\<rparr>"

definition waiting :: "queue \<Rightarrow> nat" where
  "waiting q = length (filter (\<lambda>w. \<not> granted w) (waiters q))"

section \<open>One dispatch pass\<close>

record free =
  free_cpu :: nat
  free_mem :: "nat option"
  free_slots :: "(string, nat) bmap"

definition free_new :: "resource_limits \<Rightarrow> usage \<Rightarrow> free" where
  "free_new l u =
     \<lparr>free_cpu = sat_sub (lim_cpu_slots l) (used_cpu u),
      free_mem = (if lim_memory_bytes l \<noteq> 0 then Some (sat_sub (lim_memory_bytes l) (used_mem u))
                  else None),
      free_slots = []\<rparr>"

definition free_slot :: "resource_limits \<Rightarrow> usage \<Rightarrow> free \<Rightarrow> string \<Rightarrow> free \<times> nat" where
  "free_slot l u fr name =
     (case bm_get (free_slots fr) name of
        Some n \<Rightarrow> (fr, n)
      | None \<Rightarrow>
          (let n = (case bm_get (used_slots u) name of None \<Rightarrow> 0 | Some n \<Rightarrow> n);
               available = sat_sub (slot_capacity l name) n
           in (fr\<lparr>free_slots := bm_insert name available (free_slots fr)\<rparr>, available)))"

fun fits_slots :: "resource_limits \<Rightarrow> usage \<Rightarrow> free \<Rightarrow> (string, nat) bmap \<Rightarrow> free \<times> bool" where
  "fits_slots l u fr [] = (fr, True)"
| "fits_slots l u fr ((name, count) # rest) =
     (case free_slot l u fr name of
        (fr', n) \<Rightarrow> if count \<le> n then fits_slots l u fr' rest else (fr', False))"

definition fits :: "resource_limits \<Rightarrow> usage \<Rightarrow> free \<Rightarrow> resource_request \<Rightarrow> free \<times> bool" where
  "fits l u fr r =
     (if req_cpu_slots r \<le> free_cpu fr
         \<and> (case free_mem fr of None \<Rightarrow> True | Some m \<Rightarrow> req_memory_bytes r \<le> m)
      then fits_slots l u fr (req_slots r) else (fr, False))"

fun take_slots :: "resource_limits \<Rightarrow> usage \<Rightarrow> free \<Rightarrow> (string, nat) bmap \<Rightarrow> free" where
  "take_slots l u fr [] = fr"
| "take_slots l u fr ((name, count) # rest) =
     (case free_slot l u fr name of
        (fr', n) \<Rightarrow>
          take_slots l u (fr'\<lparr>free_slots := bm_insert name (sat_sub n count) (free_slots fr')\<rparr>) rest)"

definition take_request :: "resource_limits \<Rightarrow> usage \<Rightarrow> free \<Rightarrow> resource_request \<Rightarrow> free" where
  "take_request l u fr r =
     take_slots l u
       (fr\<lparr>free_cpu := sat_sub (free_cpu fr) (req_cpu_slots r),
           free_mem := map_option (\<lambda>m. sat_sub m (req_memory_bytes r)) (free_mem fr)\<rparr>)
       (req_slots r)"

text \<open>
  The loop over the waiters: the waiters with their new flags, the requests granted in
  order, and the wakers to call.
\<close>

fun dispatch_scan ::
  "resource_limits \<Rightarrow> usage \<Rightarrow> free \<Rightarrow> waiter list \<Rightarrow>
   waiter list \<times> resource_request list \<times> waker list" where
  "dispatch_scan l u fr [] = ([], [], [])"
| "dispatch_scan l u fr (w # ws) =
     (if granted w then
        (case dispatch_scan l u fr ws of (ws', gs, ks) \<Rightarrow> (w # ws', gs, ks))
      else
        (case fits l u fr (request w) of (fr1, ok) \<Rightarrow>
           (case dispatch_scan l u (take_request l u fr1 (request w)) ws of (ws', gs, ks) \<Rightarrow>
              if ok
              then (w\<lparr>granted := True, waker := None\<rparr> # ws', request w # gs,
                    (case waker w of None \<Rightarrow> ks | Some k \<Rightarrow> k # ks))
              else (w # ws', gs, ks))))"

definition dispatch :: "resource_limits \<Rightarrow> queue \<Rightarrow> queue \<times> waker list" where
  "dispatch l q =
     (case dispatch_scan l (used q) (free_new l (used q)) (waiters q) of
        (ws, gs, ks) \<Rightarrow>
          (q\<lparr>waiters := ws, used := fold (\<lambda>r u. usage_add u r) gs (used q)\<rparr>, ks))"

section \<open>Amounts per axis\<close>

fun use_amount :: "usage \<Rightarrow> axis \<Rightarrow> nat" where
  "use_amount u Cpu = used_cpu u"
| "use_amount u Mem = used_mem u"
| "use_amount u (Slot n) = (case bm_get (used_slots u) n of None \<Rightarrow> 0 | Some c \<Rightarrow> c)"

definition spare :: "resource_limits \<Rightarrow> usage \<Rightarrow> axis \<Rightarrow> nat option" where
  "spare l u a = map_option (\<lambda>c. c - use_amount u a) (limit_amount l a)"

fun free_amount :: "resource_limits \<Rightarrow> usage \<Rightarrow> free \<Rightarrow> axis \<Rightarrow> nat option" where
  "free_amount l u fr Cpu = Some (free_cpu fr)"
| "free_amount l u fr Mem = free_mem fr"
| "free_amount l u fr (Slot n) =
     (case bm_get (free_slots fr) n of None \<Rightarrow> spare l u (Slot n) | Some f \<Rightarrow> Some f)"

definition less_request :: "(axis \<Rightarrow> nat option) \<Rightarrow> resource_request \<Rightarrow> axis \<Rightarrow> nat option" where
  "less_request f r a = map_option (\<lambda>n. n - req_amount r a) (f a)"

definition fits_amounts :: "(axis \<Rightarrow> nat option) \<Rightarrow> resource_request \<Rightarrow> bool" where
  "fits_amounts f r \<longleftrightarrow> (\<forall>a. within_opt (req_amount r a) (f a))"

lemma use_amount_empty [simp]: "use_amount usage_empty a = 0"
  by (cases a) (simp_all add: usage_empty_def)

lemma use_amount_add:
  assumes "request_ok r" and "use_amount u a + req_amount r a \<le> u64_max"
  shows "use_amount (usage_add u r) a = use_amount u a + req_amount r a"
proof (cases a)
  case (Slot n)
  have "bm_get (used_slots (usage_add u r)) n =
      (case map_of (req_slots r) n of
         None \<Rightarrow> bm_get (used_slots u) n
       | Some c \<Rightarrow> Some (wrap_add (use_amount u a) c))"
    using Slot assms(1)
      bm.get_fold_entry [of "req_slots r" "\<lambda>old. wrap_add (case old of None \<Rightarrow> 0 | Some n \<Rightarrow> n)"
        "used_slots u" n]
    by (simp add: usage_add_def request_ok_def bm_ok_distinct split: option.split)
  with Slot assms(2) show ?thesis
    by (auto simp: bm_get_def [of "req_slots r"] wrap_add_id split: option.splits)
qed (use assms in \<open>simp_all add: usage_add_def wrap_add_id sat_add_id\<close>)

lemma use_amount_remove:
  assumes "request_ok r"
  shows "use_amount (usage_remove u r) a = use_amount u a - req_amount r a"
proof (cases a)
  case (Slot n)
  have "bm_get (used_slots (usage_remove u r)) n =
      (case map_of (req_slots r) n of
         None \<Rightarrow> bm_get (used_slots u) n
       | Some c \<Rightarrow> map_option (\<lambda>n. sat_sub n c) (bm_get (used_slots u) n))"
    using bm.get_fold_present [of "req_slots r" sat_sub "used_slots u" n] assms
    by (simp add: usage_remove_def request_ok_def bm_ok_distinct)
  with Slot show ?thesis
    by (auto simp: bm_get_def [of "req_slots r"] sat_sub_def split: option.splits)
qed (simp_all add: usage_remove_def sat_sub_def)

lemma free_amount_new: "free_amount l u (free_new l u) = spare l u"
proof
  fix a
  show "free_amount l u (free_new l u) a = spare l u a"
    by (cases a) (simp_all add: free_new_def spare_def sat_sub_def)
qed

lemma free_slot_amount:
  assumes "free_slot l u fr n = (fr', v)"
  shows "free_amount l u fr' = free_amount l u fr" and "free_amount l u fr (Slot n) = Some v"
    and "bm_get (free_slots fr') n = Some v" and "free_cpu fr' = free_cpu fr"
    and "free_mem fr' = free_mem fr"
proof -
  have "free_amount l u fr' a = free_amount l u fr a" for a
    using assms by (cases a) (auto simp: free_slot_def Let_def bm_get_insert spare_def sat_sub_def
        split: option.splits if_splits)
  then show "free_amount l u fr' = free_amount l u fr" by blast
qed (use assms in \<open>auto simp: free_slot_def Let_def bm_get_insert spare_def sat_sub_def
    split: option.splits\<close>)

lemma fits_slots_amount:
  assumes "fits_slots l u fr slots = (fr', b)"
  shows "free_amount l u fr' = free_amount l u fr"
    and "b \<longleftrightarrow> (\<forall>(n, c)\<in>set slots. within_opt c (free_amount l u fr (Slot n)))"
proof -
  have "free_amount l u fr' = free_amount l u fr \<and>
      (b \<longleftrightarrow> (\<forall>(n, c)\<in>set slots. within_opt c (free_amount l u fr (Slot n))))"
    using assms
  proof (induction l u fr slots rule: fits_slots.induct)
    case (2 l u fr name count rest)
    obtain fr1 v where fs: "free_slot l u fr name = (fr1, v)" by force
    note am = free_slot_amount [OF fs]
    show ?case
    proof (cases "count \<le> v")
      case True
      then have "fits_slots l u fr1 rest = (fr', b)"
        using "2.prems" fs by simp
      with "2.IH" [OF fs [symmetric] True] show ?thesis
        unfolding am(1) using am(2) True by (auto simp del: free_amount.simps)
    next
      case False
      with "2.prems" fs am show ?thesis by (auto simp del: free_amount.simps)
    qed
  qed simp
  then show "free_amount l u fr' = free_amount l u fr"
    and "b \<longleftrightarrow> (\<forall>(n, c)\<in>set slots. within_opt c (free_amount l u fr (Slot n)))" by auto
qed

lemma free_amount_slot_Some: "free_amount l u fr (Slot n) = Some (the (free_amount l u fr (Slot n)))"
  by (simp add: spare_def split: option.split)

lemma fits_amounts_iff:
  "fits_amounts f r \<longleftrightarrow> within_opt (req_amount r Cpu) (f Cpu) \<and> within_opt (req_amount r Mem) (f Mem)
     \<and> (\<forall>n. within_opt (req_amount r (Slot n)) (f (Slot n)))"
  unfolding fits_amounts_def by (metis axis.exhaust)

lemma fits_amount:
  assumes "fits l u fr r = (fr', b)" and "request_ok r"
  shows "free_amount l u fr' = free_amount l u fr" and "b \<longleftrightarrow> fits_amounts (free_amount l u fr) r"
proof -
  let ?head = "req_cpu_slots r \<le> free_cpu fr
    \<and> (case free_mem fr of None \<Rightarrow> True | Some m \<Rightarrow> req_memory_bytes r \<le> m)"
  define cap where "cap n = the (free_amount l u fr (Slot n))" for n
  have cap: "free_amount l u fr (Slot n) = Some (cap n)" for n
    unfolding cap_def by (rule free_amount_slot_Some)
  have slots: "(\<forall>(n, c)\<in>set (req_slots r). within_opt c (free_amount l u fr (Slot n))) \<longleftrightarrow>
      (\<forall>n. within_opt (req_amount r (Slot n)) (free_amount l u fr (Slot n)))"
    using slots_within_iff [of "req_slots r" cap] assms(2)
    by (simp add: cap request_ok_def del: free_amount.simps)
  show "free_amount l u fr' = free_amount l u fr"
    using assms fits_slots_amount(1) [of l u fr "req_slots r" fr' b]
    by (auto simp: fits_def split: if_splits)
  show "b \<longleftrightarrow> fits_amounts (free_amount l u fr) r"
  proof (cases ?head)
    case True
    with assms have "fits_slots l u fr (req_slots r) = (fr', b)" by (simp add: fits_def)
    then show ?thesis
      using fits_slots_amount(2) slots True unfolding fits_amounts_iff
      by (auto simp: within_opt_def simp del: free_amount.simps(3))
  next
    case False
    then show ?thesis using assms
      unfolding fits_amounts_iff by (auto simp: fits_def within_opt_def simp del: free_amount.simps(3))
  qed
qed

lemma take_slots_amount:
  assumes "distinct (map fst slots)"
  shows "free_amount l u (take_slots l u fr slots) a =
    (case a of
       Slot n \<Rightarrow> (case bm_get slots n of None \<Rightarrow> free_amount l u fr a
                 | Some c \<Rightarrow> map_option (\<lambda>f. f - c) (free_amount l u fr a))
     | _ \<Rightarrow> free_amount l u fr a)"
  using assms
proof (induction l u fr slots rule: take_slots.induct)
  case (2 l u fr name count rest)
  obtain fr1 v where fs: "free_slot l u fr name = (fr1, v)" by force
  note am = free_slot_amount [OF fs]
  let ?fr2 = "fr1\<lparr>free_slots := bm_insert name (sat_sub v count) (free_slots fr1)\<rparr>"
  have fr2: "free_amount l u ?fr2 b =
      (if b = Slot name then Some (v - count) else free_amount l u fr b)" for b
    using fun_cong [OF am(1), of b] by (cases b) (auto simp: bm_get_insert sat_sub_def)
  have nin: "bm_get rest name = None"
    using "2.prems" by (simp add: bm_get_None_iff)
  show ?case
    using "2.IH" [OF fs [symmetric]] "2.prems" fs fr2 nin am(2)
    by (auto split: axis.splits option.splits simp del: free_amount.simps)
qed (simp split: axis.split)

lemma take_request_amount:
  assumes "request_ok r"
  shows "free_amount l u (take_request l u fr r) = less_request (free_amount l u fr) r"
proof
  fix a
  let ?fr = "fr\<lparr>free_cpu := sat_sub (free_cpu fr) (req_cpu_slots r),
      free_mem := map_option (\<lambda>m. sat_sub m (req_memory_bytes r)) (free_mem fr)\<rparr>"
  have "free_amount l u (take_request l u fr r) a =
      (case a of
         Slot n \<Rightarrow> (case bm_get (req_slots r) n of None \<Rightarrow> free_amount l u ?fr a
                   | Some c \<Rightarrow> map_option (\<lambda>f. f - c) (free_amount l u ?fr a))
       | _ \<Rightarrow> free_amount l u ?fr a)"
    unfolding take_request_def
    using assms by (intro take_slots_amount) (simp add: request_ok_def bm_ok_distinct)
  then show "free_amount l u (take_request l u fr r) a = less_request (free_amount l u fr) r a"
    by (cases a) (simp_all add: less_request_def sat_sub_def option.map_ident split: option.split)
qed

section \<open>The pass as a specification\<close>

text \<open>
  Waiters are considered in order; each ungranted one is granted when it fits what is
  left, and its share leaves what is left either way: taken, or reserved for it.
\<close>

fun reserve_pass :: "(axis \<Rightarrow> nat option) \<Rightarrow> waiter list \<Rightarrow> waiter list" where
  "reserve_pass f [] = []"
| "reserve_pass f (w # ws) =
     (if granted w then w # reserve_pass f ws
      else (if fits_amounts f (request w) then w\<lparr>granted := True, waker := None\<rparr> else w)
           # reserve_pass (less_request f (request w)) ws)"

definition granted_amount :: "waiter list \<Rightarrow> axis \<Rightarrow> nat" where
  "granted_amount ws a = (\<Sum>w\<leftarrow>filter granted ws. req_amount (request w) a)"

definition requests_ok :: "waiter list \<Rightarrow> bool" where
  "requests_ok ws \<longleftrightarrow> (\<forall>w\<in>set ws. request_ok (request w))"

lemma granted_amount_simps [simp]:
  "granted_amount [] a = 0"
  "granted_amount (w # ws) a =
     (if granted w then req_amount (request w) a else 0) + granted_amount ws a"
  "granted_amount (xs @ ys) a = granted_amount xs a + granted_amount ys a"
  by (simp_all add: granted_amount_def)

lemma requests_ok_simps [simp]:
  "requests_ok []"
  "requests_ok (w # ws) \<longleftrightarrow> request_ok (request w) \<and> requests_ok ws"
  "requests_ok (xs @ ys) \<longleftrightarrow> requests_ok xs \<and> requests_ok ys"
  by (auto simp: requests_ok_def)

lemma dispatch_scan_refines:
  assumes "requests_ok ws"
  shows "fst (dispatch_scan l u fr ws) = reserve_pass (free_amount l u fr) ws"
  using assms
proof (induction l u fr ws rule: dispatch_scan.induct)
  case (2 l u fr w ws)
  show ?case
  proof (cases "granted w")
    case True
    with 2 show ?thesis by (cases "dispatch_scan l u fr ws") simp
  next
    case False
    obtain fr1 ok where ft: "fits l u fr (request w) = (fr1, ok)" by force
    have ok: "request_ok (request w)" using "2.prems" by simp
    have "fst (dispatch_scan l u (take_request l u fr1 (request w)) ws) =
        reserve_pass (less_request (free_amount l u fr) (request w)) ws"
      using "2.IH"(2) [OF False ft [symmetric]] "2.prems" fits_amount(1) [OF ft ok]
      by (simp add: take_request_amount ok)
    with False ft fits_amount(2) [OF ft ok] show ?thesis
      by (auto split: prod.splits)
  qed
qed simp

text \<open>The requests a pass grants account for the change of the flags, and fit what was free.\<close>

lemma dispatch_scan_amounts:
  assumes "dispatch_scan l u fr ws = (ws', gs, ks)" and "requests_ok ws"
  shows "granted_amount ws' a = granted_amount ws a + (\<Sum>r\<leftarrow>gs. req_amount r a)"
    and "free_amount l u fr a = Some f \<Longrightarrow> (\<Sum>r\<leftarrow>gs. req_amount r a) \<le> f"
    and "\<forall>r\<in>set gs. request_ok r"
proof -
  have "granted_amount ws' a = granted_amount ws a + (\<Sum>r\<leftarrow>gs. req_amount r a)
    \<and> (free_amount l u fr a = Some f \<longrightarrow> (\<Sum>r\<leftarrow>gs. req_amount r a) \<le> f)
    \<and> (\<forall>r\<in>set gs. request_ok r)"
    using assms
  proof (induction l u fr ws arbitrary: ws' gs ks f rule: dispatch_scan.induct)
    case (2 l u fr w ws)
    show ?case
    proof (cases "granted w")
      case True
      obtain vs hs js where rec: "dispatch_scan l u fr ws = (vs, hs, js)" by (cases "dispatch_scan l u fr ws")
      with "2.IH"(1) [OF True rec] "2.prems" True show ?thesis by auto
    next
      case False
      obtain fr1 ok where ft: "fits l u fr (request w) = (fr1, ok)" by force
      obtain vs hs js where rec:
        "dispatch_scan l u (take_request l u fr1 (request w)) ws = (vs, hs, js)"
        by (cases "dispatch_scan l u (take_request l u fr1 (request w)) ws")
      have rok: "request_ok (request w)" using "2.prems" by simp
      have fr1: "free_amount l u (take_request l u fr1 (request w)) a =
          map_option (\<lambda>n. n - req_amount (request w) a) (free_amount l u fr a)"
        using take_request_amount [OF rok, of l u fr1] fits_amount(1) [OF ft rok]
        by (simp add: less_request_def)
      have IH: "granted_amount vs a = granted_amount ws a + (\<Sum>r\<leftarrow>hs. req_amount r a)"
          "free_amount l u fr a = Some f \<Longrightarrow>
             (\<Sum>r\<leftarrow>hs. req_amount r a) \<le> f - req_amount (request w) a"
          "\<forall>r\<in>set hs. request_ok r"
        using "2.IH"(2) [OF False ft [symmetric] rec] "2.prems" fr1 by auto
      have fit: "ok \<Longrightarrow> free_amount l u fr a = Some f \<Longrightarrow> req_amount (request w) a \<le> f"
        using fits_amount(2) [OF ft rok] by (auto simp: fits_amounts_def dest: spec [of _ a])
      show ?thesis
        using "2.prems" False ft rec IH fit rok by (auto split: if_splits)
    qed
  qed simp
  then show "granted_amount ws' a = granted_amount ws a + (\<Sum>r\<leftarrow>gs. req_amount r a)"
    and "free_amount l u fr a = Some f \<Longrightarrow> (\<Sum>r\<leftarrow>gs. req_amount r a) \<le> f"
    and "\<forall>r\<in>set gs. request_ok r" by auto
qed

lemma use_amount_add_all:
  assumes "\<forall>r\<in>set gs. request_ok r" and "use_amount u a + (\<Sum>r\<leftarrow>gs. req_amount r a) \<le> u64_max"
  shows "use_amount (fold (\<lambda>r u. usage_add u r) gs u) a = use_amount u a + (\<Sum>r\<leftarrow>gs. req_amount r a)"
  using assms
proof (induction gs arbitrary: u)
  case (Cons r gs)
  then have "use_amount (usage_add u r) a = use_amount u a + req_amount r a"
    by (intro use_amount_add) auto
  with Cons show ?case by (simp add: add.assoc)
qed simp

section \<open>Order and reservations\<close>

definition reserved_amount :: "waiter list \<Rightarrow> axis \<Rightarrow> nat" where
  "reserved_amount ws a = (\<Sum>w\<leftarrow>filter (\<lambda>w. \<not> granted w) ws. req_amount (request w) a)"

definition after_reservations :: "(axis \<Rightarrow> nat option) \<Rightarrow> waiter list \<Rightarrow> axis \<Rightarrow> nat option" where
  "after_reservations f ws a = map_option (\<lambda>n. n - reserved_amount ws a) (f a)"

lemma after_reservations_simps [simp]:
  "after_reservations f [] = f"
  "granted w \<Longrightarrow> after_reservations f (w # ws) = after_reservations f ws"
  "\<not> granted w \<Longrightarrow> after_reservations f (w # ws) = after_reservations (less_request f (request w)) ws"
  by (auto simp: fun_eq_iff after_reservations_def reserved_amount_def less_request_def
      option.map_comp comp_def option.map_ident)

lemma reserve_pass_append:
  "reserve_pass f (xs @ ys) = reserve_pass f xs @ reserve_pass (after_reservations f xs) ys"
  by (induction f xs rule: reserve_pass.induct) auto

lemma length_reserve_pass [simp]: "length (reserve_pass f ws) = length ws"
  by (induction f ws rule: reserve_pass.induct) auto

lemma map_wid_reserve_pass [simp]: "map wid (reserve_pass f ws) = map wid ws"
  by (induction f ws rule: reserve_pass.induct) auto

lemma map_request_reserve_pass [simp]: "map request (reserve_pass f ws) = map request ws"
  by (induction f ws rule: reserve_pass.induct) auto

lemma reserve_pass_keeps_granted:
  "i < length ws \<Longrightarrow> granted (ws ! i) \<Longrightarrow> reserve_pass f ws ! i = ws ! i"
proof (induction f ws arbitrary: i rule: reserve_pass.induct)
  case (2 f w ws)
  then show ?case by (cases i) auto
qed simp

section \<open>The invariant of the queue\<close>

text \<open>
  \<open>held\<close> are the requests whose permits are out. On every enabled axis the recorded use
  is what the granted waiters and the permits hold, and within the capacity.
\<close>

definition accounts :: "resource_limits \<Rightarrow> queue \<Rightarrow> resource_request list \<Rightarrow> bool" where
  "accounts l q held \<longleftrightarrow>
     (\<forall>a c. limit_amount l a = Some c \<longrightarrow>
        use_amount (used q) a = granted_amount (waiters q) a + (\<Sum>r\<leftarrow>held. req_amount r a)
        \<and> use_amount (used q) a \<le> c)"

definition queue_ok :: "resource_limits \<Rightarrow> queue \<Rightarrow> resource_request list \<Rightarrow> bool" where
  "queue_ok l q held \<longleftrightarrow> accounts l q held
     \<and> distinct (map wid (waiters q)) \<and> (\<forall>w\<in>set (waiters q). wid w < next_id q)
     \<and> requests_ok (waiters q) \<and> (\<forall>w\<in>set (waiters q). request_within l (request w))
     \<and> (\<forall>r\<in>set held. request_ok r)"

lemmas queue_okD = queue_ok_def [THEN iffD1]

lemma accountsD:
  "accounts l q held \<Longrightarrow> limit_amount l a = Some c \<Longrightarrow>
     use_amount (used q) a = granted_amount (waiters q) a + (\<Sum>r\<leftarrow>held. req_amount r a)"
  "accounts l q held \<Longrightarrow> limit_amount l a = Some c \<Longrightarrow> use_amount (used q) a \<le> c"
  unfolding accounts_def by blast+

lemma accounts_same:
  assumes "accounts l q held" and "used q' = used q"
    and "\<And>a. granted_amount (waiters q') a + (\<Sum>r\<leftarrow>held'. req_amount r a) =
      granted_amount (waiters q) a + (\<Sum>r\<leftarrow>held. req_amount r a)"
  shows "accounts l q' held'"
  using accountsD [OF assms(1)] unfolding accounts_def assms(2,3) by blast

lemma accounts_removed:
  assumes "accounts l q held" and "request_ok r" and "used q' = usage_remove (used q) r"
    and "\<And>a. granted_amount (waiters q') a + (\<Sum>r\<leftarrow>held'. req_amount r a) + req_amount r a =
      granted_amount (waiters q) a + (\<Sum>r\<leftarrow>held. req_amount r a)"
  shows "accounts l q' held'"
  unfolding accounts_def
proof (intro allI impI)
  fix a c
  assume "limit_amount l a = Some c"
  from accountsD [OF assms(1) this] assms(4) [of a]
  show "use_amount (used q') a = granted_amount (waiters q') a + (\<Sum>r\<leftarrow>held'. req_amount r a)
      \<and> use_amount (used q') a \<le> c"
    unfolding assms(3) use_amount_remove [OF assms(2)] by linarith
qed

lemma position_split:
  "position ws i = Some k \<Longrightarrow>
   \<exists>xs w ys. ws = xs @ w # ys \<and> k = length xs \<and> wid w = i \<and> i \<notin> wid ` set xs"
proof (induction ws i arbitrary: k rule: position.induct)
  case (2 w ws i)
  show ?case
  proof (cases "wid w = i")
    case True
    with "2.prems" show ?thesis by (intro exI [of _ "[]"]) auto
  next
    case False
    with "2.prems" obtain j where j: "position ws i = Some j" "k = Suc j" by auto
    with "2.IH" [OF False j(1)] obtain xs v ys where
      "ws = xs @ v # ys" "j = length xs" "wid v = i" "i \<notin> wid ` set xs" by blast
    with False j show ?thesis by (intro exI [of _ "w # xs"]) auto
  qed
qed simp

lemma position_None_iff: "position ws i = None \<longleftrightarrow> i \<notin> wid ` set ws"
  by (induction ws i rule: position.induct) auto

lemma remove_at_mid [simp]: "remove_at (length xs) (xs @ w # ys) = xs @ ys"
  by (simp add: remove_at_def)

lemma queue_ok_default: "queue_ok l queue_default []"
  by (simp add: queue_ok_def accounts_def queue_default_def)

lemma queue_ok_enqueue:
  assumes "queue_ok l q held" and "request_ok r" and "request_within l r" and "next_id q < u64_max"
  shows "queue_ok l (fst (enqueue q r)) held"
proof -
  have wrap: "wrap_add (next_id q) 1 = Suc (next_id q)"
    using assms(4) wrap_add_id [of "next_id q" 1] by simp
  have acc: "accounts l q held" using assms(1) by (simp add: queue_ok_def)
  have "accounts l (fst (enqueue q r)) held"
    by (intro accounts_same [OF acc]) (simp_all add: enqueue_def Let_def)
  with assms(1-3) show ?thesis
    unfolding queue_ok_def by (auto simp: enqueue_def Let_def wrap simp del: One_nat_def)
qed

lemma queue_ok_poll_ready:
  assumes "queue_ok l q held" and "queue_poll q i k = Some (q', Ready)"
  shows "\<exists>w\<in>set (waiters q). wid w = i \<and> granted w \<and> queue_ok l q' (request w # held)
    \<and> set (waiters q') = set (waiters q) - {w} \<and> next_id q' = next_id q"
proof -
  obtain n where n: "position (waiters q) i = Some n"
    using assms(2) by (auto simp: queue_poll_def split: option.splits)
  obtain xs w ys where ws: "waiters q = xs @ w # ys" "n = length xs" "wid w = i"
    using position_split [OF n] by blast
  have q': "granted w" "q' = q\<lparr>waiters := xs @ ys\<rparr>"
    using assms(2) n ws by (auto simp: queue_poll_def Let_def split: if_splits)
  have acc: "accounts l q held" using assms(1) by (simp add: queue_ok_def)
  have "accounts l q' (request w # held)"
    using ws q' by (intro accounts_same [OF acc]) simp_all
  then have "queue_ok l q' (request w # held)"
    using assms(1) ws q' by (auto simp: queue_ok_def)
  moreover have "set (xs @ ys) = set (waiters q) - {w}"
    using assms(1) ws by (auto simp: queue_ok_def distinct_map)
  ultimately show ?thesis using ws q' by (intro bexI [of _ w]) auto
qed

lemma queue_ok_poll_pending:
  assumes "queue_ok l q held" and "queue_poll q i k = Some (q', Pending)"
  shows "queue_ok l q' held" and "map wid (waiters q') = map wid (waiters q)"
    and "map request (waiters q') = map request (waiters q)" and "next_id q' = next_id q"
proof -
  obtain n where n: "position (waiters q) i = Some n"
    using assms(2) by (auto simp: queue_poll_def split: option.splits)
  obtain xs w ys where ws: "waiters q = xs @ w # ys" "n = length xs" "wid w = i"
    using position_split [OF n] by blast
  obtain w' where q': "\<not> granted w" "q' = q\<lparr>waiters := xs @ w' # ys\<rparr>"
    and w': "wid w' = wid w" "request w' = request w" "granted w' = granted w"
    using assms(2) n ws by (auto simp: queue_poll_def Let_def split: if_splits)
  have acc: "accounts l q held" using assms(1) by (simp add: queue_ok_def)
  have "accounts l q' held"
    using ws q' w' by (intro accounts_same [OF acc]) simp_all
  then show "queue_ok l q' held"
    using assms(1) ws q' w' by (auto simp: queue_ok_def)
  show "map wid (waiters q') = map wid (waiters q)"
    and "map request (waiters q') = map request (waiters q)" and "next_id q' = next_id q"
    using ws q' w' by auto
qed

lemma queue_ok_cancel:
  assumes "queue_ok l q held"
  shows "queue_ok l (fst (cancel q i)) held"
proof (cases "position (waiters q) i")
  case None
  with assms show ?thesis by (simp add: cancel_def)
next
  case (Some n)
  obtain xs w ys where ws: "waiters q = xs @ w # ys" "n = length xs" "wid w = i"
    using position_split [OF Some] by blast
  have rok: "request_ok (request w)" using assms ws by (simp add: queue_ok_def)
  have q': "fst (cancel q i) = (if granted w then
      q\<lparr>waiters := xs @ ys, used := usage_remove (used q) (request w)\<rparr>
      else q\<lparr>waiters := xs @ ys\<rparr>)"
    using Some ws by (simp add: cancel_def Let_def)
  have acc: "accounts l q held" using assms by (simp add: queue_ok_def)
  have "accounts l (fst (cancel q i)) held"
  proof (cases "granted w")
    case True
    then show ?thesis unfolding q'
      using ws by (simp, intro accounts_removed [OF acc rok]) simp_all
  next
    case False
    then show ?thesis unfolding q'
      using ws by (simp, intro accounts_same [OF acc]) simp_all
  qed
  then show ?thesis using assms ws unfolding queue_ok_def q' by simp
qed

lemma queue_ok_release:
  assumes "queue_ok l q held" and "r \<in> set held"
  shows "queue_ok l (queue_release q r) (remove1 r held)"
proof -
  have rok: "request_ok r" using assms by (auto simp: queue_ok_def)
  have acc: "accounts l q held" using assms by (simp add: queue_ok_def)
  have "accounts l (queue_release q r) (remove1 r held)"
    using assms(2) by (intro accounts_removed [OF acc rok])
      (simp_all add: queue_release_def sum_list_map_remove1 [of r held])
  then show ?thesis
    using assms(1) by (auto simp: queue_ok_def queue_release_def dest: notin_set_remove1)
qed

lemma waiters_dispatch:
  "requests_ok (waiters q) \<Longrightarrow>
   waiters (fst (dispatch l q)) = reserve_pass (spare l (used q)) (waiters q)"
  using dispatch_scan_refines [of "waiters q" l "used q" "free_new l (used q)"]
  by (cases "dispatch_scan l (used q) (free_new l (used q)) (waiters q)")
    (simp add: dispatch_def free_amount_new)

lemma next_id_dispatch [simp]: "next_id (fst (dispatch l q)) = next_id q"
  by (simp add: dispatch_def split: prod.split)

lemma accounts_dispatch:
  assumes "limits_ok l" and "accounts l q held" and "requests_ok (waiters q)"
  shows "accounts l (fst (dispatch l q)) held"
  unfolding accounts_def
proof (intro allI impI)
  fix a c
  assume c: "limit_amount l a = Some c"
  obtain ws gs ks where sc:
    "dispatch_scan l (used q) (free_new l (used q)) (waiters q) = (ws, gs, ks)"
    by (cases "dispatch_scan l (used q) (free_new l (used q)) (waiters q)")
  note am = dispatch_scan_amounts [OF sc assms(3)]
  have "(\<Sum>r\<leftarrow>gs. req_amount r a) \<le> c - use_amount (used q) a"
    using am(2) [of a "c - use_amount (used q) a"] c by (simp add: free_amount_new spare_def)
  moreover have "c \<le> u64_max"
    using assms(1) c unfolding limits_ok_def by (auto dest: spec [of _ a])
  ultimately have le: "use_amount (used q) a + (\<Sum>r\<leftarrow>gs. req_amount r a) \<le> c"
      "use_amount (used q) a + (\<Sum>r\<leftarrow>gs. req_amount r a) \<le> u64_max"
    using accountsD(2) [OF assms(2) c] by linarith+
  have "used (fst (dispatch l q)) = fold (\<lambda>r u. usage_add u r) gs (used q)"
      "waiters (fst (dispatch l q)) = ws"
    using sc by (simp_all add: dispatch_def)
  then show "use_amount (used (fst (dispatch l q))) a =
      granted_amount (waiters (fst (dispatch l q))) a + (\<Sum>r\<leftarrow>held. req_amount r a)
      \<and> use_amount (used (fst (dispatch l q))) a \<le> c"
    using use_amount_add_all [OF am(3) le(2)] am(1) [of a] accountsD(1) [OF assms(2) c] le(1) by simp
qed

lemma queue_ok_dispatch:
  assumes "limits_ok l" and "queue_ok l q held"
  shows "queue_ok l (fst (dispatch l q)) held"
proof -
  have rok: "requests_ok (waiters q)" using assms(2) by (simp add: queue_ok_def)
  let ?ws = "waiters (fst (dispatch l q))"
  have eq: "map wid ?ws = map wid (waiters q)" "map request ?ws = map request (waiters q)"
    by (simp_all add: waiters_dispatch [OF rok])
  have im: "wid ` set ?ws = wid ` set (waiters q)" "request ` set ?ws = request ` set (waiters q)"
    using arg_cong [OF eq(1), of set] arg_cong [OF eq(2), of set] by simp_all
  have "\<forall>i\<in>wid ` set ?ws. i < next_id q" "\<forall>r\<in>request ` set ?ws. request_ok r"
      "\<forall>r\<in>request ` set ?ws. request_within l r"
    unfolding im using assms(2) by (auto simp: queue_ok_def requests_ok_def)
  moreover have "accounts l (fst (dispatch l q)) held"
    using assms rok by (intro accounts_dispatch) (simp_all add: queue_ok_def)
  ultimately show ?thesis
    using assms(2) eq by (simp add: queue_ok_def requests_ok_def)
qed

section \<open>Properties\<close>

lemma reserve_pass_grants:
  "granted_amount (reserve_pass f ws) a - granted_amount ws a \<le> m"
  if "f a = Some m"
proof -
  have "granted_amount (reserve_pass f ws) a \<le> granted_amount ws a + m"
    using that
  proof (induction f ws arbitrary: m rule: reserve_pass.induct)
    case (2 f w ws)
    show ?case
    proof (cases "granted w")
      case True
      with 2 show ?thesis by simp
    next
      case False
      have "less_request f (request w) a = Some (m - req_amount (request w) a)"
        using "2.prems" by (simp add: less_request_def)
      from "2.IH"(2) [OF False this]
      have "granted_amount (reserve_pass (less_request f (request w)) ws) a
          \<le> granted_amount ws a + (m - req_amount (request w) a)" .
      moreover have "fits_amounts f (request w) \<Longrightarrow> req_amount (request w) a \<le> m"
        using "2.prems" by (auto simp: fits_amounts_def dest: spec [of _ a])
      ultimately show ?thesis using False by auto
    qed
  qed simp
  then show ?thesis by simp
qed

text \<open>C20. \<open>dispatch\<close> implements the reservation pass: going through the waiters in arrival order, each
  ungranted waiter is granted exactly when its request fits, on every axis at once, what is spare
  after every earlier ungranted request is set aside, granted or not; ids, requests, order and
  granted waiters are kept.\<close>

theorem dispatch_refines_reservation:
  assumes "requests_ok (waiters q)"
  shows "waiters (fst (dispatch l q)) = reserve_pass (spare l (used q)) (waiters q)
    \<and> map wid (waiters (fst (dispatch l q))) = map wid (waiters q)
    \<and> map request (waiters (fst (dispatch l q))) = map request (waiters q)
    \<and> next_id (fst (dispatch l q)) = next_id q"
  by (simp add: waiters_dispatch [OF assms])

definition demo_queue :: queue where
  "demo_queue = fst (enqueue (fst (enqueue (fst (enqueue queue_default
     (request_new 3 0))) (request_new 2 0))) (request_new 1 0))"

lemmas demo_queue_eval = demo_queue_def enqueue_def queue_default_def request_new_def wrap_add_def
  u64_max_def Let_def

lemma demo_queue_ok: "requests_ok (waiters demo_queue)"
  by (simp add: demo_queue_eval request_ok_def)

theorem dispatch_refines_reservation_witness:
  "map wid (waiters (fst (dispatch (limits_new 4 0) demo_queue))) = [0, 1, 2]"
  using dispatch_refines_reservation [OF demo_queue_ok, of "limits_new 4 0"]
  by (simp add: demo_queue_eval)

text \<open>Bypassing never starves an earlier waiter: what one \<open>dispatch\<close> newly grants on an axis to the
  waiters behind a prefix of the queue is at most what would be spare had every ungranted request
  of that prefix been granted, and what it grants inside the prefix does not depend on the
  waiters behind it.\<close>

theorem later_grants_leave_reservations:
  assumes "waiters q = xs @ ys" and "requests_ok (waiters q)" and "limit_amount l a = Some c"
  shows "\<exists>xs' ys'. waiters (fst (dispatch l q)) = xs' @ ys' \<and> length xs' = length xs
    \<and> xs' = waiters (fst (dispatch l (q\<lparr>waiters := xs\<rparr>)))
    \<and> granted_amount ys' a - granted_amount ys a \<le> c - use_amount (used q) a - reserved_amount xs a"
proof -
  let ?f = "spare l (used q)"
  have "requests_ok xs" using assms(1,2) by simp
  then have xs: "waiters (fst (dispatch l (q\<lparr>waiters := xs\<rparr>))) = reserve_pass ?f xs"
    using waiters_dispatch [of "q\<lparr>waiters := xs\<rparr>" l] by simp
  have "after_reservations ?f xs a = Some (c - use_amount (used q) a - reserved_amount xs a)"
    using assms(3) by (simp add: after_reservations_def spare_def)
  from reserve_pass_grants [of "after_reservations ?f xs" a, OF this, of ys]
  show ?thesis
    using waiters_dispatch [OF assms(2), of l] assms(1)
    by (intro exI [of _ "reserve_pass ?f xs"] exI [of _ "reserve_pass (after_reservations ?f xs) ys"])
      (simp add: reserve_pass_append xs)
qed

theorem later_grants_leave_reservations_witness:
  "\<exists>xs' ys'. waiters (fst (dispatch (limits_new 4 0) demo_queue)) = xs' @ ys' \<and> length xs' = 2
     \<and> granted_amount ys' Cpu = 0"
  using later_grants_leave_reservations [of demo_queue "take 2 (waiters demo_queue)"
      "drop 2 (waiters demo_queue)" "limits_new 4 0" Cpu 4] demo_queue_ok
  by (auto simp: demo_queue_eval reserved_amount_def limits_new_def numeral_2_eq_2)

end
