(* ===== verification/Resource_Pool.thy ===== *)
theory Resource_Pool
  imports Resource_Queue
begin

text \<open>
  The admission pool over the queue: \<open>crates/once-core/src/resources/pool.rs\<close>. Every
  operation holds the pool's mutex for one queue operation followed by a dispatch, so an
  execution is a sequence of the atomic steps of \<open>pool_step\<close>, in any interleaving of
  callers: admitting a request, polling its ticket, dropping the ticket early, and
  dropping the last clone of a permit.
\<close>

section \<open>What the pool relies on\<close>

text \<open>
  \<open>inv q held\<close> is the provider's invariant while the requests \<open>held\<close> are out;
  \<open>live q\<close> the queued tickets with their requests.
\<close>

locale admission_queue =
  fixes enq :: "'q \<Rightarrow> 'r \<Rightarrow> 'q \<times> nat"
    and pol :: "'q \<Rightarrow> nat \<Rightarrow> 'k \<Rightarrow> ('q \<times> poll) option"
    and cnc :: "'q \<Rightarrow> nat \<Rightarrow> 'q \<times> bool"
    and rel :: "'q \<Rightarrow> 'r \<Rightarrow> 'q"
    and dsp :: "'q \<Rightarrow> 'q \<times> 'k list"
    and room :: "'q \<Rightarrow> bool"
    and good :: "'r \<Rightarrow> bool"
    and live :: "'q \<Rightarrow> (nat \<times> 'r) set"
    and inv :: "'q \<Rightarrow> 'r list \<Rightarrow> bool"
  assumes inv_enq: "inv q held \<Longrightarrow> good r \<Longrightarrow> room q \<Longrightarrow> inv (fst (enq q r)) held"
    and live_enq: "live (fst (enq q r)) = insert (snd (enq q r), r) (live q)"
    and fresh_enq: "inv q held \<Longrightarrow> (snd (enq q r), r') \<notin> live q"
    and live_unique: "inv q held \<Longrightarrow> (i, r) \<in> live q \<Longrightarrow> (i, r') \<in> live q \<Longrightarrow> r = r'"
    and pol_defined: "inv q held \<Longrightarrow> (i, r) \<in> live q \<Longrightarrow> pol q i k \<noteq> None"
    and inv_ready: "inv q held \<Longrightarrow> (i, r) \<in> live q \<Longrightarrow> pol q i k = Some (q', Ready) \<Longrightarrow>
      inv q' (r # held) \<and> live q' = live q - {(i, r)}"
    and inv_pending: "inv q held \<Longrightarrow> pol q i k = Some (q', Pending) \<Longrightarrow>
      inv q' held \<and> live q' = live q"
    and inv_cnc: "inv q held \<Longrightarrow> inv (fst (cnc q i)) held"
    and live_cnc: "inv q held \<Longrightarrow> (i, r) \<in> live q \<Longrightarrow>
      snd (cnc q i) \<and> live (fst (cnc q i)) = live q - {(i, r)}"
    and inv_rel: "inv q held \<Longrightarrow> r \<in> set held \<Longrightarrow> inv (rel q r) (remove1 r held)"
    and live_rel: "live (rel q r) = live q"
    and inv_dsp: "inv q held \<Longrightarrow> inv (fst (dsp q)) held"
    and live_dsp: "inv q held \<Longrightarrow> live (fst (dsp q)) = live q"
begin

lemma admit_ok:
  assumes "inv q held" and "good r" and "room q"
  shows "inv (fst (dsp (fst (enq q r)))) held"
    and "live (fst (dsp (fst (enq q r)))) = insert (snd (enq q r), r) (live q)"
  using inv_enq [OF assms] by (simp_all add: inv_dsp live_dsp live_enq)

lemma withdraw_ok:
  assumes "inv q held" and "(i, r) \<in> live q"
  shows "inv (fst (dsp (fst (cnc q i)))) held"
    and "live (fst (dsp (fst (cnc q i)))) = live q - {(i, r)}"
  using inv_cnc [OF assms(1), of i] live_cnc [OF assms] by (simp_all add: inv_dsp live_dsp)

lemma release_ok:
  assumes "inv q held" and "r \<in> set held"
  shows "inv (fst (dsp (rel q r))) (remove1 r held)" and "live (fst (dsp (rel q r))) = live q"
  using inv_rel [OF assms] by (simp_all add: inv_dsp live_dsp live_rel)

end

definition live_tickets :: "queue \<Rightarrow> (nat \<times> resource_request) set" where
  "live_tickets q = (\<lambda>w. (wid w, request w)) ` set (waiters q)"

lemma live_tickets_cong:
  assumes "map wid ws = map wid (waiters q)" and "map request ws = map request (waiters q)"
  shows "(\<lambda>w. (wid w, request w)) ` set ws = live_tickets q"
proof -
  have "map (\<lambda>w. (wid w, request w)) ws = zip (map wid ws) (map request ws)"
    by (simp add: zip_map_map zip_same_conv_map comp_def)
  also have "\<dots> = map (\<lambda>w. (wid w, request w)) (waiters q)"
    by (simp add: assms zip_map_map zip_same_conv_map comp_def)
  finally show ?thesis
    unfolding live_tickets_def by (metis list.set_map)
qed

lemma live_tickets_dispatch:
  assumes "requests_ok (waiters q)"
  shows "live_tickets (fst (dispatch l q)) = live_tickets q"
  using live_tickets_cong [of "waiters (fst (dispatch l q))" q]
  by (simp add: waiters_dispatch [OF assms] live_tickets_def)

lemma wid_unique:
  assumes "queue_ok l q held" and "v \<in> set (waiters q)" and "w \<in> set (waiters q)" and "wid v = wid w"
  shows "v = w"
proof -
  have "distinct (map wid (waiters q))" using assms(1) by (simp add: queue_ok_def)
  then show ?thesis using assms(2-4) by (rule distinct_find_unique)
qed

lemma live_tickets_unique:
  assumes "queue_ok l q held" and "(i, r) \<in> live_tickets q" and "(i, r') \<in> live_tickets q"
  shows "r = r'"
proof -
  obtain v where v: "v \<in> set (waiters q)" "wid v = i" "request v = r"
    using assms(2) by (auto simp: live_tickets_def)
  obtain w where w: "w \<in> set (waiters q)" "wid w = i" "request w = r'"
    using assms(3) by (auto simp: live_tickets_def)
  have "v = w" using wid_unique [OF assms(1) v(1) w(1)] v(2) w(2) by simp
  with v w show ?thesis by simp
qed

lemma live_tickets_minus:
  assumes "queue_ok l q held" and "w \<in> set (waiters q)"
  shows "(\<lambda>w. (wid w, request w)) ` (set (waiters q) - {w}) = live_tickets q - {(wid w, request w)}"
proof -
  have "inj_on (\<lambda>w. (wid w, request w)) (set (waiters q))"
    using wid_unique [OF assms(1)] by (intro inj_onI) blast
  then show ?thesis
    using assms(2) by (simp add: inj_on_image_set_diff [where C = "set (waiters q)"] live_tickets_def)
qed

interpretation aq: admission_queue enqueue queue_poll cancel queue_release "dispatch l"
  "\<lambda>q. next_id q < u64_max" "\<lambda>r. request_ok r \<and> request_within l r" live_tickets
  "\<lambda>q held. limits_ok l \<and> queue_ok l q held" for l
proof (unfold_locales, goal_cases)
  case (1 q held r)
  then show ?case by (simp add: queue_ok_enqueue)
next
  case (2 q r)
  show ?case by (auto simp: live_tickets_def enqueue_def Let_def)
next
  case (3 q held r r')
  then show ?case by (auto simp: live_tickets_def enqueue_def queue_ok_def Let_def)
next
  case (4 q held i r r')
  then show ?case using live_tickets_unique by blast
next
  case (5 q held i r k)
  then show ?case
    by (auto simp: live_tickets_def queue_poll_def Let_def position_None_iff split: option.split)
next
  case (6 q held i r k q')
  from 6 obtain w where w: "w \<in> set (waiters q)" "wid w = i" "queue_ok l q' (request w # held)"
      "set (waiters q') = set (waiters q) - {w}"
    using queue_ok_poll_ready [of l q held i k q'] by blast
  have "(i, request w) \<in> live_tickets q" using w(1,2) by (force simp: live_tickets_def)
  then have "request w = r" using 6(1,2) live_tickets_unique by blast
  with 6(1) w live_tickets_minus [of l q held w] show ?case by (simp add: live_tickets_def)
next
  case (7 q held i k q')
  have ok: "queue_ok l q' held" and eq: "map wid (waiters q') = map wid (waiters q)"
      "map request (waiters q') = map request (waiters q)"
    using 7 queue_ok_poll_pending [of l q held i k q'] by blast+
  show ?case
    using 7(1) ok live_tickets_cong [OF eq] by (simp add: live_tickets_def)
next
  case (8 q held i)
  then show ?case by (simp add: queue_ok_cancel)
next
  case (9 q held i r)
  then obtain n where n: "position (waiters q) i = Some n"
    by (cases "position (waiters q) i") (force simp: position_None_iff live_tickets_def)+
  obtain xs w ys where ws: "waiters q = xs @ w # ys" "n = length xs" "wid w = i"
    using position_split [OF n] by blast
  have "snd (cancel q i)" "waiters (fst (cancel q i)) = xs @ ys"
    using n ws by (simp_all add: cancel_def Let_def)
  moreover have "set (xs @ ys) = set (waiters q) - {w}"
    using 9(1) ws by (auto simp: queue_ok_def distinct_map)
  moreover have "request w = r"
    using 9 ws live_tickets_unique [of l q held i "request w" r] by (force simp: live_tickets_def)
  ultimately show ?case
    using 9(1) ws live_tickets_minus [of l q held w] by (simp add: live_tickets_def)
next
  case (10 q held r)
  then show ?case by (simp add: queue_ok_release)
next
  case (11 q r)
  show ?case by (simp add: live_tickets_def queue_release_def)
next
  case (12 q held)
  then show ?case by (simp add: queue_ok_dispatch)
next
  case (13 q held)
  then show ?case by (simp add: queue_ok_def live_tickets_dispatch)
qed

section \<open>Pool operations\<close>

record pool =
  limits :: resource_limits
  pqueue :: queue

definition pool_new :: "resource_limits \<Rightarrow> pool" where
  "pool_new l = \<lparr>limits = l\<lparr>lim_cpu_slots := max (lim_cpu_slots l) 1\<rparr>, pqueue = queue_default\<rparr>"

text \<open>The synchronous part of \<open>admit\<close>: the ticket's id and the wakers called after unlocking.\<close>

definition pool_admit :: "pool \<Rightarrow> resource_request \<Rightarrow> pool \<times> nat \<times> waker list" where
  "pool_admit p r =
     (case enqueue (pqueue p) r of (q, i) \<Rightarrow>
        (case dispatch (limits p) q of (q', ks) \<Rightarrow> (p\<lparr>pqueue := q'\<rparr>, i, ks)))"

definition acquire :: "pool \<Rightarrow> resource_request \<Rightarrow> (resource_request \<times> pool \<times> nat \<times> waker list) option" where
  "acquire p r = map_option (\<lambda>r'. (r', pool_admit p r')) (bounded_by (limits p) r)"

definition acquire_required ::
  "pool \<Rightarrow> resource_request \<Rightarrow> resource_error + (resource_request \<times> pool \<times> nat \<times> waker list)" where
  "acquire_required p r =
     rbind (required_within (limits p) r) (\<lambda>r'. Inr (r', pool_admit p r'))"

definition acquire_client ::
  "pool \<Rightarrow> nat \<Rightarrow> (string, nat) bmap \<Rightarrow> (resource_request \<times> pool \<times> nat \<times> waker list) option" where
  "acquire_client p memory_bytes slots =
     map_option (\<lambda>r. (r\<lparr>req_cpu_slots := 0\<rparr>, pool_admit p (r\<lparr>req_cpu_slots := 0\<rparr>)))
       (bounded_by (limits p)
          \<lparr>req_cpu_slots = 0, req_memory_bytes = memory_bytes, req_slots = slots\<rparr>)"

definition ticket_poll :: "pool \<Rightarrow> nat \<Rightarrow> waker \<Rightarrow> (pool \<times> poll) option" where
  "ticket_poll p i k = map_option (\<lambda>(q, r). (p\<lparr>pqueue := q\<rparr>, r)) (queue_poll (pqueue p) i k)"

text \<open>\<open>Drop for Ticket\<close>: an admitted ticket (no id) leaves the pool alone.\<close>

definition ticket_drop :: "pool \<Rightarrow> nat option \<Rightarrow> pool \<times> waker list" where
  "ticket_drop p i =
     (case i of
        None \<Rightarrow> (p, [])
      | Some i \<Rightarrow>
          (case cancel (pqueue p) i of (q, changed) \<Rightarrow>
             if \<not> changed then (p\<lparr>pqueue := q\<rparr>, [])
             else (case dispatch (limits p) q of (q', ks) \<Rightarrow> (p\<lparr>pqueue := q'\<rparr>, ks))))"

definition pool_release :: "pool \<Rightarrow> resource_request \<Rightarrow> pool \<times> waker list" where
  "pool_release p r =
     (case dispatch (limits p) (queue_release (pqueue p) r) of (q, ks) \<Rightarrow> (p\<lparr>pqueue := q\<rparr>, ks))"

text \<open>
  \<open>try_additional_default\<close> polls the acquisition once; when it is not ready the future is
  dropped, and its ticket with it.
\<close>

definition try_additional_default :: "pool \<Rightarrow> waker \<Rightarrow> (pool \<times> resource_request option) option" where
  "try_additional_default p k =
     (case acquire p request_default of
        None \<Rightarrow> None
      | Some (r, p1, i, ks) \<Rightarrow>
          (case ticket_poll p1 i k of
             None \<Rightarrow> None
           | Some (p2, Ready) \<Rightarrow> Some (p2, Some r)
           | Some (p2, Pending) \<Rightarrow> Some (fst (ticket_drop p2 (Some i)), None)))"

section \<open>Executions\<close>

text \<open>
  The pool with the tickets still waiting (id and bounded request) and the reservations
  whose permits are out. The \<open>u64\<close> ticket counter bounds a run to fewer than \<open>2\<^sup>6\<^sup>4\<close>
  admissions, the guard of the admitting steps.
\<close>

record pool_sys =
  pool_of :: pool
  tickets :: "(nat \<times> resource_request) list"
  permits :: "resource_request list"

definition sys_init :: "resource_limits \<Rightarrow> pool_sys" where
  "sys_init l = \<lparr>pool_of = pool_new l, tickets = [], permits = []\<rparr>"

inductive pool_step :: "pool_sys \<Rightarrow> pool_sys \<Rightarrow> bool" where
  acquire_step:
    "request_ok r \<Longrightarrow> next_id (pqueue (pool_of s)) < u64_max \<Longrightarrow>
     acquire (pool_of s) r = Some (r', p, i, ks) \<Longrightarrow>
     pool_step s (s\<lparr>pool_of := p, tickets := (i, r') # tickets s\<rparr>)"
| acquire_required_step:
    "request_ok r \<Longrightarrow> next_id (pqueue (pool_of s)) < u64_max \<Longrightarrow>
     acquire_required (pool_of s) r = Inr (r', p, i, ks) \<Longrightarrow>
     pool_step s (s\<lparr>pool_of := p, tickets := (i, r') # tickets s\<rparr>)"
| acquire_client_step:
    "bm_ok slots \<Longrightarrow> next_id (pqueue (pool_of s)) < u64_max \<Longrightarrow>
     acquire_client (pool_of s) memory_bytes slots = Some (r', p, i, ks) \<Longrightarrow>
     pool_step s (s\<lparr>pool_of := p, tickets := (i, r') # tickets s\<rparr>)"
| ready_step:
    "(i, r) \<in> set (tickets s) \<Longrightarrow> ticket_poll (pool_of s) i k = Some (p, Ready) \<Longrightarrow>
     pool_step s (s\<lparr>pool_of := p, tickets := remove1 (i, r) (tickets s), permits := r # permits s\<rparr>)"
| pending_step:
    "(i, r) \<in> set (tickets s) \<Longrightarrow> ticket_poll (pool_of s) i k = Some (p, Pending) \<Longrightarrow>
     pool_step s (s\<lparr>pool_of := p\<rparr>)"
| withdraw_step:
    "(i, r) \<in> set (tickets s) \<Longrightarrow> ticket_drop (pool_of s) (Some i) = (p, ks) \<Longrightarrow>
     pool_step s (s\<lparr>pool_of := p, tickets := remove1 (i, r) (tickets s)\<rparr>)"
| release_step:
    "r \<in> set (permits s) \<Longrightarrow> pool_release (pool_of s) r = (p, ks) \<Longrightarrow>
     pool_step s (s\<lparr>pool_of := p, permits := remove1 r (permits s)\<rparr>)"

inductive pool_reach :: "resource_limits \<Rightarrow> pool_sys \<Rightarrow> bool" for l where
  reach_init: "pool_reach l (sys_init l)"
| reach_step: "pool_reach l s \<Longrightarrow> pool_step s t \<Longrightarrow> pool_reach l t"

section \<open>The invariant of an execution\<close>

text \<open>
  \<open>settled\<close>: every operation ends with a dispatch, so the oldest ungranted waiter does not
  fit what is spare.
\<close>

definition settled :: "resource_limits \<Rightarrow> queue \<Rightarrow> bool" where
  "settled l q \<longleftrightarrow>
     (\<forall>w ws. filter (\<lambda>w. \<not> granted w) (waiters q) = w # ws \<longrightarrow>
        \<not> fits_amounts (spare l (used q)) (request w))"

definition sys_ok :: "pool_sys \<Rightarrow> bool" where
  "sys_ok s \<longleftrightarrow> limits_ok (limits (pool_of s))
     \<and> queue_ok (limits (pool_of s)) (pqueue (pool_of s)) (permits s)
     \<and> live_tickets (pqueue (pool_of s)) = set (tickets s) \<and> distinct (tickets s)
     \<and> settled (limits (pool_of s)) (pqueue (pool_of s))"

text \<open>
  The oldest waiter a pass leaves ungranted did not fit after the grants before it, all of
  which the new use includes.
\<close>

lemma reserve_pass_oldest:
  assumes "filter (\<lambda>w. \<not> granted w) (reserve_pass f ws) = w # vs"
  shows "\<exists>xs. \<not> fits_amounts (after_reservations f xs) (request w)
    \<and> (\<forall>a. granted_amount ws a + reserved_amount xs a \<le> granted_amount (reserve_pass f ws) a)"
  using assms
proof (induction f ws rule: reserve_pass.induct)
  case (1 f)
  then show ?case by simp
next
  case (2 f v ws)
  show ?case
  proof (cases "granted v")
    case True
    then obtain xs where "\<not> fits_amounts (after_reservations f xs) (request w)"
      "\<forall>a. granted_amount ws a + reserved_amount xs a \<le> granted_amount (reserve_pass f ws) a"
      using 2 by auto
    with True show ?thesis by (intro exI [of _ xs]) auto
  next
    case False
    show ?thesis
    proof (cases "fits_amounts f (request v)")
      case True
      then obtain xs where "\<not> fits_amounts (after_reservations (less_request f (request v)) xs) (request w)"
        "\<forall>a. granted_amount ws a + reserved_amount xs a
            \<le> granted_amount (reserve_pass (less_request f (request v)) ws) a"
        using 2 False by auto
      with True False show ?thesis
        by (intro exI [of _ "v # xs"]) (auto simp: reserved_amount_def)
    next
      case no: False
      then have "w = v" using "2.prems" False by simp
      moreover have "granted_amount ws a \<le> granted_amount (reserve_pass g ws) a" for g a
        by (induction g ws rule: reserve_pass.induct) (auto intro: le_SucI add_le_mono trans_le_add2)
      ultimately show ?thesis
        using no False by (intro exI [of _ "[]"]) (auto simp: reserved_amount_def)
    qed
  qed
qed

lemma settled_dispatch:
  assumes "limits_ok l" and "queue_ok l q held"
  shows "settled l (fst (dispatch l q))"
  unfolding settled_def
proof (intro allI impI notI)
  fix w vs
  let ?q = "fst (dispatch l q)"
  assume h: "filter (\<lambda>w. \<not> granted w) (waiters ?q) = w # vs"
    and fits: "fits_amounts (spare l (used ?q)) (request w)"
  have rok: "requests_ok (waiters q)" and acc: "accounts l q held"
    using assms(2) by (simp_all add: queue_ok_def)
  have acc': "accounts l ?q held" using accounts_dispatch [OF assms(1) acc rok] .
  obtain xs where nofit: "\<not> fits_amounts (after_reservations (spare l (used q)) xs) (request w)"
    and le: "\<And>a. granted_amount (waiters q) a + reserved_amount xs a \<le> granted_amount (waiters ?q) a"
    using reserve_pass_oldest h unfolding waiters_dispatch [OF rok] by blast
  have "within_opt (req_amount (request w) a) (after_reservations (spare l (used q)) xs a)" for a
  proof (cases "limit_amount l a")
    case (Some c)
    have "req_amount (request w) a \<le> c - use_amount (used ?q) a"
      using fits Some by (auto simp: fits_amounts_def spare_def dest: spec [of _ a])
    with accountsD(1) [OF acc Some] accountsD(1) [OF acc' Some] le [of a] Some
    show ?thesis by (simp add: after_reservations_def spare_def)
  qed (simp add: after_reservations_def spare_def)
  with nofit show False by (simp add: fits_amounts_def)
qed

lemma settled_same:
  assumes "settled l q" and "used q' = used q"
    and "map request (filter (\<lambda>w. \<not> granted w) (waiters q')) =
      map request (filter (\<lambda>w. \<not> granted w) (waiters q))"
  shows "settled l q'"
  unfolding settled_def
proof (intro allI impI)
  fix w ws
  assume "filter (\<lambda>w. \<not> granted w) (waiters q') = w # ws"
  with assms(3) obtain v vs where "filter (\<lambda>w. \<not> granted w) (waiters q) = v # vs" "request v = request w"
    by (metis list.simps(9) map_eq_Cons_D)
  with assms(1,2) show "\<not> fits_amounts (spare l (used q')) (request w)"
    by (auto simp: settled_def)
qed

lemma queue_poll_ungranted:
  assumes "queue_poll q i k = Some (q', r)"
  shows "used q' = used q" and "map request (filter (\<lambda>w. \<not> granted w) (waiters q')) =
      map request (filter (\<lambda>w. \<not> granted w) (waiters q))"
proof -
  obtain n where n: "position (waiters q) i = Some n"
    using assms by (auto simp: queue_poll_def split: option.splits)
  obtain xs w ys where ws: "waiters q = xs @ w # ys" "n = length xs"
    using position_split [OF n] by blast
  show "used q' = used q" "map request (filter (\<lambda>w. \<not> granted w) (waiters q')) =
      map request (filter (\<lambda>w. \<not> granted w) (waiters q))"
    using assms n ws by (auto simp: queue_poll_def Let_def list_update_append split: if_splits)
qed

lemmas pool_ops_defs = pool_admit_def acquire_def acquire_required_def acquire_client_def
  ticket_poll_def ticket_drop_def pool_release_def

lemma limits_ops [simp]:
  "limits (fst (pool_admit p r)) = limits p"
  "limits (fst (pool_release p r)) = limits p"
  "limits (fst (ticket_drop p i)) = limits p"
  by (auto simp: pool_ops_defs split: prod.splits option.splits)

lemma ticket_poll_Some:
  assumes "ticket_poll p i k = Some (p', x)"
  shows "\<exists>q. queue_poll (pqueue p) i k = Some (q, x) \<and> p' = p\<lparr>pqueue := q\<rparr>"
  using assms by (cases "queue_poll (pqueue p) i k") (auto simp: ticket_poll_def)

lemma pqueue_admit:
  "pqueue (fst (pool_admit p r)) = fst (dispatch (limits p) (fst (enqueue (pqueue p) r)))"
  "fst (snd (pool_admit p r)) = snd (enqueue (pqueue p) r)"
  by (simp_all add: pool_admit_def split: prod.split)

lemma sys_okD:
  assumes "sys_ok s"
  shows "limits_ok (limits (pool_of s)) \<and> queue_ok (limits (pool_of s)) (pqueue (pool_of s)) (permits s)"
    and "live_tickets (pqueue (pool_of s)) = set (tickets s)" and "distinct (tickets s)"
    and "settled (limits (pool_of s)) (pqueue (pool_of s))"
  using assms by (simp_all add: sys_ok_def)

lemma sys_ok_admit:
  assumes "sys_ok s" and "request_ok r" and "request_within (limits (pool_of s)) r"
    and "next_id (pqueue (pool_of s)) < u64_max" and "pool_admit (pool_of s) r = (p, i, ks)"
  shows "sys_ok (s\<lparr>pool_of := p, tickets := (i, r) # tickets s\<rparr>)"
proof -
  let ?l = "limits (pool_of s)" and ?q = "pqueue (pool_of s)"
  have p: "limits p = ?l" "pqueue p = fst (dispatch ?l (fst (enqueue ?q r)))" "i = snd (enqueue ?q r)"
    using assms(5) limits_ops(1) [of "pool_of s" r] pqueue_admit [of "pool_of s" r] by simp_all
  note ok = sys_okD [OF assms(1)]
  note adm = aq.admit_ok [OF ok(1) conjI [OF assms(2,3)] assms(4)]
  have "(i, r) \<notin> set (tickets s)"
    using aq.fresh_enq [OF ok(1)] ok(2) p(3) by metis
  moreover have "settled ?l (pqueue p)"
    unfolding p(2) using ok(1) queue_ok_enqueue [OF _ assms(2,3,4)] settled_dispatch by blast
  ultimately show ?thesis using adm ok(2,3) by (simp add: sys_ok_def p)
qed

lemma bounded_by_good:
  assumes "bounded_by l r = Some r'" and "request_ok r" and "limits_ok l"
  shows "request_ok r'" and "request_within l r'"
  using assms bounded_by_ok [of l r r'] bounded_by_within [of l r r'] by (simp_all add: limits_ok_def)

lemma acquire_total:
  assumes "limits_ok (limits p)"
  shows "\<exists>r' p' i ks. acquire p r = Some (r', p', i, ks)"
proof -
  have "1 \<le> lim_cpu_slots (limits p)" using assms by (simp add: limits_ok_def)
  then obtain r' where "bounded_by (limits p) r = Some r'" by (simp add: bounded_by_eq)
  then show ?thesis by (cases "pool_admit p r'") (simp add: acquire_def)
qed

lemma client_good:
  assumes "bounded_by l \<lparr>req_cpu_slots = 0, req_memory_bytes = m, req_slots = slots\<rparr> = Some r"
    and "bm_ok slots" and "limits_ok l"
  shows "request_ok (r\<lparr>req_cpu_slots := 0\<rparr>)" and "request_within l (r\<lparr>req_cpu_slots := 0\<rparr>)"
proof -
  have r: "request_ok r" "request_within l r"
    using bounded_by_good [OF assms(1) _ assms(3)] assms(2) by (simp_all add: request_ok_def)
  then show "request_ok (r\<lparr>req_cpu_slots := 0\<rparr>)" by (simp add: request_ok_def)
  have "req_amount (r\<lparr>req_cpu_slots := 0\<rparr>) a \<le> req_amount r a" for a by (cases a) simp_all
  then show "request_within l (r\<lparr>req_cpu_slots := 0\<rparr>)"
    using r(2) by (auto simp: request_within_def within_opt_def intro: le_trans split: option.splits)
qed

lemma sys_ok_init: "limits_ok (limits (pool_new l)) \<Longrightarrow> sys_ok (sys_init l)"
  using queue_ok_default
  by (simp add: sys_ok_def sys_init_def pool_new_def live_tickets_def settled_def queue_default_def)

lemma sys_ok_step:
  assumes "pool_step s t" and "sys_ok s"
  shows "sys_ok t"
  using assms
proof (cases rule: pool_step.cases)
  case (acquire_step r r' p i ks)
  then have "bounded_by (limits (pool_of s)) r = Some r'" "pool_admit (pool_of s) r' = (p, i, ks)"
    by (auto simp: acquire_def)
  with acquire_step show ?thesis
    using bounded_by_good [of _ r r'] sys_ok_admit [OF assms(2), of r' p i ks] sys_okD(1) [OF assms(2)]
    by simp
next
  case (acquire_required_step r r' p i ks)
  then have r: "required_within (limits (pool_of s)) r = Inr r'" and "pool_admit (pool_of s) r' = (p, i, ks)"
    by (auto simp: acquire_required_def rbind_def split: sum.splits)
  moreover have "request_ok r'" "request_within (limits (pool_of s)) r'"
    using r acquire_required_step(2) by (auto simp: required_within_Inr request_ok_def)
  ultimately show ?thesis
    using acquire_required_step(1,3) sys_ok_admit [OF assms(2), of r' p i ks] by simp
next
  case (acquire_client_step slots memory_bytes r' p i ks)
  then obtain r where b: "bounded_by (limits (pool_of s))
        \<lparr>req_cpu_slots = 0, req_memory_bytes = memory_bytes, req_slots = slots\<rparr> = Some r"
      and r': "r' = r\<lparr>req_cpu_slots := 0\<rparr>" and adm: "pool_admit (pool_of s) r' = (p, i, ks)"
    by (auto simp: acquire_client_def)
  have lok: "limits_ok (limits (pool_of s))" using sys_okD(1) [OF assms(2)] by simp
  note good = client_good [OF b acquire_client_step(2) lok, folded r']
  show ?thesis
    unfolding acquire_client_step(1) by (rule sys_ok_admit [OF assms(2) good acquire_client_step(3) adm])
next
  case (ready_step i r k p)
  then obtain q where q: "queue_poll (pqueue (pool_of s)) i k = Some (q, Ready)" "p = (pool_of s)\<lparr>pqueue := q\<rparr>"
    using ticket_poll_Some by blast
  have live: "(i, r) \<in> live_tickets (pqueue (pool_of s))"
    using ready_step(2) sys_okD(2) [OF assms(2)] by simp
  show ?thesis
    using aq.inv_ready [OF sys_okD(1) [OF assms(2)] live q(1)] sys_okD(2-4) [OF assms(2)]
      settled_same [OF _ queue_poll_ungranted [OF q(1)]] q(2) ready_step(1)
    by (simp add: sys_ok_def)
next
  case (pending_step i r k p)
  then obtain q where q: "queue_poll (pqueue (pool_of s)) i k = Some (q, Pending)" "p = (pool_of s)\<lparr>pqueue := q\<rparr>"
    using ticket_poll_Some by blast
  then show ?thesis
    using aq.inv_pending [OF sys_okD(1) [OF assms(2)] q(1)] sys_okD(2-4) [OF assms(2)]
      settled_same [OF _ queue_poll_ungranted [OF q(1)]] pending_step(1)
    by (simp add: sys_ok_def)
next
  case (withdraw_step i r p ks)
  have live: "(i, r) \<in> live_tickets (pqueue (pool_of s))"
    using withdraw_step(2) sys_okD(2) [OF assms(2)] by simp
  let ?q = "fst (cancel (pqueue (pool_of s)) i)"
  have p: "p = (pool_of s)\<lparr>pqueue := fst (dispatch (limits (pool_of s)) ?q)\<rparr>"
    using aq.live_cnc [OF sys_okD(1) [OF assms(2)] live] withdraw_step(3)
    by (auto simp: ticket_drop_def split: prod.splits)
  show ?thesis
    using aq.withdraw_ok [OF sys_okD(1) [OF assms(2)] live] sys_okD(2-4) [OF assms(2)]
      settled_dispatch [of "limits (pool_of s)" ?q "permits s"]
      aq.inv_cnc [OF sys_okD(1) [OF assms(2)], of i] p withdraw_step(1)
    by (simp add: sys_ok_def)
next
  case (release_step r p ks)
  let ?q = "queue_release (pqueue (pool_of s)) r"
  have p: "p = (pool_of s)\<lparr>pqueue := fst (dispatch (limits (pool_of s)) ?q)\<rparr>"
    using release_step(3) by (auto simp: pool_release_def split: prod.splits)
  show ?thesis
    using aq.release_ok [OF sys_okD(1) [OF assms(2)] release_step(2)] sys_okD(2-4) [OF assms(2)]
      settled_dispatch [of "limits (pool_of s)" ?q "remove1 r (permits s)"]
      aq.inv_rel [OF sys_okD(1) [OF assms(2)] release_step(2)] p release_step(1)
    by (simp add: sys_ok_def)
qed

lemma sys_ok_reach:
  assumes "pool_reach l s" and "limits_ok (limits (pool_new l))"
  shows "sys_ok s"
  using assms by induction (auto intro: sys_ok_init sys_ok_step)

lemma limits_of_op:
  "pool_admit p r = (p', i, ks) \<Longrightarrow> limits p' = limits p"
  "pool_release p r = (p', ks) \<Longrightarrow> limits p' = limits p"
  "ticket_drop p j = (p', ks) \<Longrightarrow> limits p' = limits p"
  "ticket_poll p i k = Some (p', x) \<Longrightarrow> limits p' = limits p"
  using limits_ops [of p] ticket_poll_Some [of p i k p' x] by (metis fst_conv, metis fst_conv, metis fst_conv, auto)

lemma limits_step: "pool_step s t \<Longrightarrow> limits (pool_of t) = limits (pool_of s)"
  by (cases rule: pool_step.cases, assumption)
    (auto simp: acquire_def acquire_required_def acquire_client_def rbind_def
      split: sum.splits dest: limits_of_op)

lemma limits_reach: "pool_reach l s \<Longrightarrow> limits (pool_of s) = limits (pool_new l)"
  by (induction rule: pool_reach.induct) (simp_all add: sys_init_def limits_step)

section \<open>Progress\<close>

text \<open>
  Steps that neither bring new work nor merely record a waker; the weight counts how many of
  them a state can still take.
\<close>

inductive pool_service :: "pool_sys \<Rightarrow> pool_sys \<Rightarrow> bool" where
  serve:
    "(i, r) \<in> set (tickets s) \<Longrightarrow> ticket_poll (pool_of s) i k = Some (p, Ready) \<Longrightarrow>
     pool_service s (s\<lparr>pool_of := p, tickets := remove1 (i, r) (tickets s), permits := r # permits s\<rparr>)"
| finish:
    "r \<in> set (permits s) \<Longrightarrow> pool_release (pool_of s) r = (p, ks) \<Longrightarrow>
     pool_service s (s\<lparr>pool_of := p, permits := remove1 r (permits s)\<rparr>)"

definition pool_weight :: "pool_sys \<Rightarrow> nat" where
  "pool_weight s = 2 * length (tickets s) + length (permits s)"

lemma service_is_step: "pool_service s t \<Longrightarrow> pool_step s t"
  by (cases rule: pool_service.cases, assumption) (auto intro: pool_step.intros)

lemma service_weight:
  assumes "pool_service s t"
  shows "pool_weight t < pool_weight s"
  using assms
proof (cases rule: pool_service.cases)
  case (serve i r k p)
  then show ?thesis using length_remove1_less [of "(i, r)" "tickets s"] by (simp add: pool_weight_def)
next
  case (finish r p ks)
  then show ?thesis using length_remove1_less [of r "permits s"] by (simp add: pool_weight_def)
qed

lemma queue_poll_granted:
  assumes "queue_ok l q held" and "w \<in> set (waiters q)" and "granted w"
  shows "\<exists>q'. queue_poll q (wid w) k = Some (q', Ready)"
proof -
  obtain n where n: "position (waiters q) (wid w) = Some n"
    using assms(2) position_None_iff [of "waiters q" "wid w"] by fastforce
  obtain xs v ys where ws: "waiters q = xs @ v # ys" "n = length xs" "wid v = wid w"
    using position_split [OF n] by blast
  have "v = w" using wid_unique [OF assms(1) _ assms(2) ws(3)] ws(1) by simp
  with n ws assms(3) show ?thesis by (simp add: queue_poll_def Let_def)
qed

lemma waiting_head_blocked:
  assumes "sys_ok s" and "permits s = []" and "tickets s \<noteq> []"
  shows "\<exists>w\<in>set (waiters (pqueue (pool_of s))). granted w"
proof (rule ccontr)
  let ?q = "pqueue (pool_of s)" and ?l = "limits (pool_of s)"
  assume none: "\<not> ?thesis"
  then have all: "filter (\<lambda>w. \<not> granted w) (waiters ?q) = waiters ?q"
    by (auto intro: filter_True)
  obtain w ws where w: "waiters ?q = w # ws"
    using sys_okD(2) [OF assms(1)] assms(3) by (cases "waiters ?q") (auto simp: live_tickets_def)
  have qok: "queue_ok ?l ?q []" using sys_okD(1) [OF assms(1)] assms(2) by simp
  then have acc: "accounts ?l ?q []" and win: "request_within ?l (request w)"
    using w by (simp_all add: queue_ok_def)
  have "granted_amount (waiters ?q) a = 0" for a
    using none by (simp add: granted_amount_def filter_empty_conv)
  then have "spare ?l (used ?q) a = limit_amount ?l a" for a
    using accountsD(1) [OF acc, of a] by (cases "limit_amount ?l a") (simp_all add: spare_def)
  then have "fits_amounts (spare ?l (used ?q)) (request w)"
    using win by (simp add: fits_amounts_def request_within_def)
  with sys_okD(4) [OF assms(1)] all w show False by (auto simp: settled_def)
qed

lemma service_enabled:
  assumes "sys_ok s" and "tickets s \<noteq> [] \<or> permits s \<noteq> []"
  shows "\<exists>t. pool_service s t"
proof (cases "permits s")
  case (Cons r rs)
  then show ?thesis using finish [of r s] by (metis list.set_intros(1) surj_pair)
next
  case Nil
  then obtain w where w: "w \<in> set (waiters (pqueue (pool_of s)))" "granted w"
    using waiting_head_blocked assms by blast
  then have "(wid w, request w) \<in> set (tickets s)"
    using sys_okD(2) [OF assms(1)] by (auto simp: live_tickets_def)
  moreover obtain q where "queue_poll (pqueue (pool_of s)) (wid w) 0 = Some (q, Ready)"
    using queue_poll_granted sys_okD(1) [OF assms(1)] w by blast
  ultimately show ?thesis by (auto simp: ticket_poll_def intro!: exI serve)
qed

section \<open>A concrete execution\<close>

text \<open>Two actions of three cpu slots on a four-slot host: the first runs, the second waits.\<close>

definition demo_limits :: resource_limits where
  "demo_limits = with_slot_limit (limits_new 4 1000) ''net'' 2"

definition demo_request :: resource_request where
  "demo_request = with_slot (request_new 3 600) ''net'' 1"

definition demo_sys :: pool_sys where
  "demo_sys =
     \<lparr>pool_of = \<lparr>limits = demo_limits,
        pqueue = \<lparr>used = usage_add usage_empty demo_request,
                  waiters = [\<lparr>wid = 1, request = demo_request, granted = False, waker = None\<rparr>],
                  next_id = 2\<rparr>\<rparr>,
      tickets = [(1, demo_request)], permits = [demo_request]\<rparr>"

lemma demo_limits_ok: "limits_ok (limits (pool_new demo_limits))"
  unfolding limits_ok_def
proof (intro conjI allI)
  fix a
  show "within_opt (case limit_amount (limits (pool_new demo_limits)) a of None \<Rightarrow> 0 | Some c \<Rightarrow> c) (Some u64_max)"
    by (cases a) (simp_all add: demo_limits_def pool_new_def limits_new_def with_slot_limit_def
        slot_capacity_def slot_limit_def u64_max_def bm_get_insert DEFAULT_ACTION_MEMORY_BYTES_def)
qed (simp add: pool_new_def)

lemmas demo_eval = demo_limits_def demo_request_def acquire_def pool_admit_def pool_new_def
  limits_new_def with_slot_limit_def request_new_def with_slot_def bounded_by_def clamp_def
  estimated_memory_def slot_capacity_def slot_limit_def DEFAULT_ACTION_MEMORY_BYTES_def
  enqueue_def dispatch_def queue_default_def free_new_def fits_def free_slot_def take_request_def
  usage_add_def usage_empty_def sat_sub_def wrap_add_def u64_max_def Let_def

lemma demo_execution:
  "acquire (pool_new demo_limits) demo_request =
     Some (demo_request,
       \<lparr>limits = demo_limits,
        pqueue = \<lparr>used = usage_add usage_empty demo_request,
                  waiters = [\<lparr>wid = 0, request = demo_request, granted = True, waker = None\<rparr>],
                  next_id = 1\<rparr>\<rparr>, 0, [])"
  "acquire
     \<lparr>limits = demo_limits,
        pqueue = \<lparr>used = usage_add usage_empty demo_request,
                  waiters = [\<lparr>wid = 0, request = demo_request, granted = True, waker = None\<rparr>],
                  next_id = 1\<rparr>\<rparr> demo_request =
     Some (demo_request,
       \<lparr>limits = demo_limits,
        pqueue = \<lparr>used = usage_add usage_empty demo_request,
                  waiters = [\<lparr>wid = 0, request = demo_request, granted = True, waker = None\<rparr>,
                             \<lparr>wid = 1, request = demo_request, granted = False, waker = None\<rparr>],
                  next_id = 2\<rparr>\<rparr>, 1, [])"
  by (simp_all add: demo_eval)

lemma demo_reach: "pool_reach demo_limits demo_sys"
proof -
  have ok: "request_ok demo_request" by (simp add: request_ok_def demo_eval)
  note s1 = reach_step [OF reach_init acquire_step [OF ok, of "sys_init demo_limits"]]
  have r1: "pool_reach demo_limits
     \<lparr>pool_of = \<lparr>limits = demo_limits,
        pqueue = \<lparr>used = usage_add usage_empty demo_request,
                  waiters = [\<lparr>wid = 0, request = demo_request, granted = True, waker = None\<rparr>],
                  next_id = 1\<rparr>\<rparr>,
      tickets = [(0, demo_request)], permits = []\<rparr>"
    using s1 demo_execution(1) by (simp add: sys_init_def pool_new_def queue_default_def u64_max_def)
  note r2 = reach_step [OF r1 acquire_step [OF ok]]
  have r2: "pool_reach demo_limits
     \<lparr>pool_of = \<lparr>limits = demo_limits,
        pqueue = \<lparr>used = usage_add usage_empty demo_request,
                  waiters = [\<lparr>wid = 0, request = demo_request, granted = True, waker = None\<rparr>,
                             \<lparr>wid = 1, request = demo_request, granted = False, waker = None\<rparr>],
                  next_id = 2\<rparr>\<rparr>,
      tickets = [(1, demo_request), (0, demo_request)], permits = []\<rparr>"
    using r2 demo_execution(2) by (simp add: u64_max_def)
  show ?thesis
    using reach_step [OF r2 ready_step [of 0 demo_request _ 7]]
    by (simp add: demo_sys_def ticket_poll_def queue_poll_def remove_at_def)
qed

section \<open>Properties\<close>

text \<open>C1. In every execution from a fresh pool, on every axis (cpu slots, memory, each named slot)
  that has a limit, what the queue counts as used is exactly what the outstanding permits and the
  granted, not yet collected tickets reserve, and it never exceeds the limit.\<close>

theorem pool_never_oversubscribed:
  assumes "pool_reach l s" and "limits_ok (limits (pool_new l))"
    and "limit_amount (limits (pool_new l)) a = Some c"
  shows "use_amount (used (pqueue (pool_of s))) a =
      granted_amount (waiters (pqueue (pool_of s))) a + (\<Sum>r\<leftarrow>permits s. req_amount r a)
    \<and> granted_amount (waiters (pqueue (pool_of s))) a + (\<Sum>r\<leftarrow>permits s. req_amount r a) \<le> c"
proof -
  have "accounts (limits (pool_new l)) (pqueue (pool_of s)) (permits s)"
    using sys_ok_reach [OF assms(1,2)] limits_reach [OF assms(1)] by (simp add: sys_ok_def queue_ok_def)
  from accountsD [OF this assms(3)] show ?thesis by simp
qed

theorem pool_never_oversubscribed_witness:
  "use_amount (used (pqueue (pool_of demo_sys))) (Slot ''net'') = 1
    \<and> use_amount (used (pqueue (pool_of demo_sys))) Cpu = 3"
  using pool_never_oversubscribed [OF demo_reach demo_limits_ok, of "Slot ''net''"]
    pool_never_oversubscribed [OF demo_reach demo_limits_ok, of Cpu]
  by (simp add: demo_sys_def demo_eval)

text \<open>C27. The pool is never stuck and its work is bounded: in every reachable state with a waiting
  ticket or an outstanding permit, some ticket can be collected or some permit released, and each
  such step strictly lowers twice the tickets plus the permits.\<close>

theorem pool_progress:
  assumes "pool_reach l s" and "limits_ok (limits (pool_new l))"
  shows "((\<exists>t. pool_service s t) \<longleftrightarrow> tickets s \<noteq> [] \<or> permits s \<noteq> [])
    \<and> (\<forall>t. pool_service s t \<longrightarrow> pool_weight t < pool_weight s)"
  using service_enabled [OF sys_ok_reach [OF assms]] service_weight
  by (auto elim!: pool_service.cases simp: length_pos_if_in_set)

theorem pool_progress_witness: "\<exists>t. pool_service demo_sys t"
  using pool_progress [OF demo_reach demo_limits_ok] by (simp add: demo_sys_def)

text \<open>C28. Every execution can be run to completion: from every reachable state the admitted work
  drains, every ticket is granted and every permit returned, with no new admission, and the idle
  pool then holds nothing on any limited axis.\<close>

theorem pool_drains:
  assumes "pool_reach l s" and "limits_ok (limits (pool_new l))"
  shows "\<exists>t. pool_service\<^sup>*\<^sup>* s t \<and> tickets t = [] \<and> permits t = []
    \<and> waiters (pqueue (pool_of t)) = []
    \<and> (\<forall>a c. limit_amount (limits (pool_new l)) a = Some c \<longrightarrow> use_amount (used (pqueue (pool_of t))) a = 0)"
  using assms(1)
proof (induction "pool_weight s" arbitrary: s rule: less_induct)
  case less
  have ok: "sys_ok s" by (rule sys_ok_reach [OF less.prems assms(2)])
  show ?case
  proof (cases "tickets s = [] \<and> permits s = []")
    case True
    have "waiters (pqueue (pool_of s)) = []"
      using sys_okD(2) [OF ok] True by (simp add: live_tickets_def)
    moreover have "accounts (limits (pool_new l)) (pqueue (pool_of s)) []"
      using sys_okD(1) [OF ok] True limits_reach [OF less.prems] by (simp add: queue_ok_def)
    ultimately show ?thesis
      using True accountsD(1) [of "limits (pool_new l)" "pqueue (pool_of s)" "[]"]
      by (intro exI [of _ s]) auto
  next
    case False
    then obtain u where u: "pool_service s u" using service_enabled [OF ok] by blast
    from less.hyps [OF service_weight [OF u] reach_step [OF less.prems service_is_step [OF u]]] u
    show ?thesis by (meson converse_rtranclp_into_rtranclp)
  qed
qed

theorem pool_drains_witness: "\<exists>t. pool_service\<^sup>*\<^sup>* demo_sys t \<and> tickets t = [] \<and> permits t = []"
  using pool_drains [OF demo_reach demo_limits_ok] by blast

text \<open>Polling a ticket that is still waiting never reaches the \<open>unreachable!\<close> branch of the
  queue: in every reachable state the poll of every live ticket answers ready or pending.\<close>

theorem live_ticket_polls:
  assumes "pool_reach l s" and "limits_ok (limits (pool_new l))" and "(i, r) \<in> set (tickets s)"
  shows "\<exists>p x. ticket_poll (pool_of s) i k = Some (p, x)"
proof -
  have ok: "sys_ok s" by (rule sys_ok_reach [OF assms(1,2)])
  have "(i, r) \<in> live_tickets (pqueue (pool_of s))" using sys_okD(2) [OF ok] assms(3) by simp
  from aq.pol_defined [OF sys_okD(1) [OF ok] this, of k] show ?thesis
    by (auto simp: ticket_poll_def)
qed

theorem live_ticket_polls_witness: "\<exists>p x. ticket_poll (pool_of demo_sys) 1 7 = Some (p, x)"
  using live_ticket_polls [OF demo_reach demo_limits_ok, of 1 demo_request 7]
  by (simp add: demo_sys_def)

text \<open>\<open>acquire\<close> never panics: whatever the request, the bounded request it queues is well formed
  and fits the whole budget on every axis, so it can be granted once the pool is idle.\<close>

theorem acquire_bounded:
  assumes "limits_ok (limits p)" and "request_ok r"
  shows "\<exists>r' p' i ks. acquire p r = Some (r', p', i, ks) \<and> request_ok r'
    \<and> request_within (limits p) r' \<and> i = next_id (pqueue p)"
proof -
  obtain r' p' i ks where a: "acquire p r = Some (r', p', i, ks)"
    using acquire_total [OF assms(1)] by blast
  then have r': "bounded_by (limits p) r = Some r'" by (auto simp: acquire_def)
  with a bounded_by_good [OF r' assms(2,1)] pqueue_admit(2) [of p r'] show ?thesis
    by (simp add: acquire_def enqueue_def Let_def)
qed

theorem acquire_bounded_witness:
  "\<exists>r' p' i ks. acquire (pool_of demo_sys) (request_new 64 5000) = Some (r', p', i, ks)
    \<and> request_within demo_limits r'"
proof -
  have "limits (pool_of demo_sys) = limits (pool_new demo_limits)" "limits (pool_of demo_sys) = demo_limits"
    by (simp_all add: demo_sys_def pool_new_def demo_limits_def with_slot_limit_def limits_new_def)
  then show ?thesis
    using acquire_bounded [of "pool_of demo_sys" "request_new 64 5000"] demo_limits_ok
    by (auto simp: request_ok_def request_new_def)
qed

text \<open>\<open>acquire_required\<close> is exact: it admits a request, unchanged but for the minimum of one cpu
  slot and the memory estimate, if that request fits the budget, and fails otherwise.\<close>

theorem acquire_required_exact:
  assumes "request_ok r"
  shows "(\<exists>p' i ks. acquire_required p r = Inr (r', p', i, ks)) \<longleftrightarrow>
      r' = r\<lparr>req_cpu_slots := max (req_cpu_slots r) 1, req_memory_bytes := estimated_memory (limits p) r\<rparr>
      \<and> request_within (limits p) r'"
  unfolding required_within_Inr [OF assms, symmetric]
  by (cases "required_within (limits p) r") (auto simp: acquire_required_def rbind_def
      intro: prod_cases3 [of "pool_admit p r'"])

theorem acquire_required_exact_witness:
  "\<nexists>r' p' i ks. acquire_required (pool_of demo_sys) (request_new 5 100) = Inr (r', p', i, ks)"
  using acquire_required_exact [of "request_new 5 100" "pool_of demo_sys"]
  by (simp add: request_ok_def request_new_def demo_sys_def request_within_iff demo_eval)

text \<open>A speculative \<open>try_additional_default\<close> that does not get its permit leaves nothing behind:
  in every reachable state it returns, the tickets queued afterwards are those queued before, and
  the queue still accounts exactly for the permits that are out.\<close>

theorem try_additional_default_clean:
  assumes "pool_reach l s" and "limits_ok (limits (pool_new l))"
    and "next_id (pqueue (pool_of s)) < u64_max"
  shows "\<exists>p o'. try_additional_default (pool_of s) k = Some (p, o')
    \<and> live_tickets (pqueue p) = set (tickets s)
    \<and> queue_ok (limits p) (pqueue p) (case o' of None \<Rightarrow> permits s | Some r \<Rightarrow> r # permits s)"
proof -
  let ?p = "pool_of s"
  have ok: "sys_ok s" by (rule sys_ok_reach [OF assms(1,2)])
  have lok: "limits_ok (limits ?p)" using sys_okD(1) [OF ok] by simp
  have dok: "request_ok request_default" by (simp add: request_ok_def request_default_def)
  obtain r p1 i ks where a: "acquire ?p request_default = Some (r, p1, i, ks)"
    using acquire_total lok dok by blast
  let ?s1 = "s\<lparr>pool_of := p1, tickets := (i, r) # tickets s\<rparr>"
  have reach1: "pool_reach l ?s1" by (rule reach_step [OF assms(1) acquire_step [OF dok assms(3) a]])
  have ok1: "sys_ok ?s1" by (rule sys_ok_reach [OF reach1 assms(2)])
  have fresh: "(i, r) \<notin> set (tickets s)" using sys_okD(3) [OF ok1] by simp
  have "(i, r) \<in> live_tickets (pqueue p1)" using sys_okD(2) [OF ok1] by simp
  then obtain p2 x where x: "ticket_poll p1 i k = Some (p2, x)"
    using aq.pol_defined [OF sys_okD(1) [OF ok1], of i r k] by (auto simp: ticket_poll_def)
  show ?thesis
  proof (cases x)
    case Ready
    have "sys_ok (?s1\<lparr>pool_of := p2, tickets := remove1 (i, r) (tickets ?s1), permits := r # permits ?s1\<rparr>)"
      by (rule sys_ok_step [OF ready_step ok1]) (use x Ready in simp_all)
    then show ?thesis using a x Ready by (simp add: try_additional_default_def sys_ok_def)
  next
    case Pending
    let ?s2 = "?s1\<lparr>pool_of := p2\<rparr>"
    have ok2: "sys_ok ?s2"
      by (rule sys_ok_step [OF pending_step [of i r] ok1]) (use x Pending in simp_all)
    obtain p3 ks3 where d: "ticket_drop p2 (Some i) = (p3, ks3)" by force
    have "sys_ok (?s2\<lparr>pool_of := p3, tickets := remove1 (i, r) (tickets ?s2)\<rparr>)"
      by (rule sys_ok_step [OF withdraw_step ok2]) (use d in simp_all)
    then show ?thesis using a x d Pending by (simp add: try_additional_default_def sys_ok_def)
  qed
qed

theorem try_additional_default_clean_witness:
  "\<exists>p o'. try_additional_default (pool_of demo_sys) 9 = Some (p, o')
    \<and> live_tickets (pqueue p) = {(1, demo_request)}"
  using try_additional_default_clean [OF demo_reach demo_limits_ok, of 9]
  by (auto simp: demo_sys_def u64_max_def)

end
