(* ===== verification/Plan_Topology.thy ===== *)
theory Plan_Topology
  imports Once_Prelude
begin

text \<open>
  Action plans and their dependency counts: \<open>crates/once-core/src/plan.rs\<close> and
  \<open>plan/topology.rs\<close>. A plan is a list of nodes that name their dependencies by index;
  \<open>Topology::new\<close> inverts the dependency lists, rejects an index out of bounds, and runs
  Kahn's algorithm on a copy of the counters to reject cycles. A vector index out of range
  and a counter below zero are panics (\<open>None\<close>).
\<close>

section \<open>Data\<close>

text \<open>The action of a node is opaque to the planner and the scheduler.\<close>

record 'a plan_node =
  label :: string
  action :: 'a
  deps :: "nat list"

type_synonym 'a plan = "'a plan_node list"

datatype 'e plan_error =
  Cycle
| BadDep nat nat
| Failed string int
| Task
| Core 'e

record topology =
  dependents :: "nat list list"
  remaining :: "nat list"

section \<open>Building the topology\<close>

definition plan_new :: "'a plan" where
  "plan_new = []"

definition plan_push :: "'a plan \<Rightarrow> 'a plan_node \<Rightarrow> 'a plan \<times> nat" where
  "plan_push plan node = (plan @ [node], length plan)"

fun add_children :: "nat \<Rightarrow> nat list \<Rightarrow> nat list list \<Rightarrow> 'e plan_error + nat list list" where
  "add_children index [] dd = Inr dd"
| "add_children index (dependency # ds) dd =
     (if dependency < length dd
      then add_children index ds (dd[dependency := dd ! dependency @ [index]])
      else Inl (BadDep dependency (length dd)))"

fun add_nodes :: "nat \<Rightarrow> 'a plan \<Rightarrow> nat list list \<Rightarrow> 'e plan_error + nat list list" where
  "add_nodes index [] dd = Inr dd"
| "add_nodes index (node # nodes) dd =
     rbind (add_children index (deps node) dd) (add_nodes (Suc index) nodes)"

text \<open>
  One completed node: decrement the counter of each dependent and collect, in order, those
  that reach zero. The validator pushes them on its stack, the scheduler on its queue.
\<close>

fun notify :: "nat list \<Rightarrow> nat list \<Rightarrow> (nat list \<times> nat list) option" where
  "notify [] rem = Some (rem, [])"
| "notify (d # ds) rem =
     (if d < length rem \<and> 0 < rem ! d
      then let rem' = rem[d := rem ! d - 1]
           in map_option (\<lambda>(r, new). (r, if rem' ! d = 0 then d # new else new)) (notify ds rem')
      else None)"

definition ready_indices :: "nat list \<Rightarrow> nat list" where
  "ready_indices rem = filter (\<lambda>i. rem ! i = 0) [0..<length rem]"

lemma notify_shrinks:
  "notify ds rem = Some (rem', new) \<Longrightarrow> sum_list rem' + length new \<le> sum_list rem"
proof (induction ds rem arbitrary: rem' new rule: notify.induct)
  case (2 d ds rem)
  then have d: "d < length rem" "0 < rem ! d" by (auto split: if_splits)
  obtain r n where n: "notify ds (rem[d := rem ! d - 1]) = Some (r, n)"
    "rem' = r" "new = (if rem[d := rem ! d - 1] ! d = 0 then d # n else n)"
    using "2.prems" by (auto simp: Let_def split: if_splits)
  have "sum_list (rem[d := rem ! d - 1]) + 1 = sum_list rem"
    using d sum_list_update [of d rem "rem ! d - 1"] elem_le_sum_list [of d rem] by simp
  with "2.IH" [OF conjI [OF d] refl n(1)] n(2,3) show ?case by auto
qed simp

text \<open>The \<open>while let Some(index) = ready.pop()\<close> loop of \<open>validate\<close>.\<close>

function drain :: "nat list list \<Rightarrow> nat list \<Rightarrow> nat list \<Rightarrow> nat \<Rightarrow> nat option" where
  "drain dd rem ready visited =
     (if ready = [] then Some visited
      else if last ready < length dd
      then (case notify (dd ! last ready) rem of
              None \<Rightarrow> None
            | Some (rem', new) \<Rightarrow> drain dd rem' (butlast ready @ new) (visited + 1))
      else None)"
  by pat_completeness auto
termination
proof (relation "measure (\<lambda>(dd, rem, ready, visited). length ready + sum_list rem)", simp, goal_cases)
  case (1 dd rem ready visited x rem' new)
  then show ?case using notify_shrinks [of "dd ! last ready" rem rem' new] by (cases ready) auto
qed

declare drain.simps [simp del]

definition topology_validate :: "topology \<Rightarrow> ('e plan_error + unit) option" where
  "topology_validate t =
     map_option (\<lambda>visited. if visited \<noteq> length (remaining t) then Inl Cycle else Inr ())
       (drain (dependents t) (remaining t) (ready_indices (remaining t)) 0)"

definition topology_new :: "'a plan \<Rightarrow> ('e plan_error + topology) option" where
  "topology_new plan =
     (case add_nodes 0 plan (replicate (length plan) []) of
        Inl e \<Rightarrow> Some (Inl e)
      | Inr dd \<Rightarrow>
          (let t = \<lparr>dependents = dd, remaining = map (\<lambda>node. length (deps node)) plan\<rparr>
           in map_option (\<lambda>v. rbind v (\<lambda>_. Inr t)) (topology_validate t)))"

definition plan_validate :: "'a plan \<Rightarrow> ('e plan_error + unit) option" where
  "plan_validate plan = map_option (\<lambda>t. rbind t (\<lambda>_. Inr ())) (topology_new plan)"

section \<open>What the graph is\<close>

definition in_bounds :: "nat list list \<Rightarrow> bool" where
  "in_bounds ds \<longleftrightarrow> (\<forall>i<length ds. \<forall>d\<in>set (ds ! i). d < length ds)"

definition dep_edges :: "nat list list \<Rightarrow> (nat \<times> nat) set" where
  "dep_edges ds = {(d, i). i < length ds \<and> d \<in> set (ds ! i)}"

definition dependents_of :: "nat list list \<Rightarrow> nat list list" where
  "dependents_of ds =
     map (\<lambda>j. concat (map (\<lambda>i. replicate (count_list (ds ! i) j) i) [0..<length ds])) [0..<length ds]"

text \<open>How many entries of each dependency list are still outside \<open>D\<close>.\<close>

definition counts :: "nat list list \<Rightarrow> nat set \<Rightarrow> nat list" where
  "counts ds D = map (\<lambda>dl. length (filter (\<lambda>d. d \<notin> D) dl)) ds"

lemma length_counts [simp]: "length (counts ds D) = length ds"
  by (simp add: counts_def)

lemma nth_counts [simp]: "i < length ds \<Longrightarrow> counts ds D ! i = length (filter (\<lambda>d. d \<notin> D) (ds ! i))"
  by (simp add: counts_def)

lemma notify_spec:
  assumes "\<forall>i\<in>set ls. i < length rem \<and> count_list ls i \<le> rem ! i"
  shows "\<exists>rem' new. notify ls rem = Some (rem', new) \<and> length rem' = length rem
    \<and> (\<forall>i<length rem. rem' ! i = rem ! i - count_list ls i)
    \<and> distinct new \<and> set new = {i \<in> set ls. rem ! i = count_list ls i}"
  using assms
proof (induction ls arbitrary: rem)
  case (Cons d ls)
  let ?rem = "rem[d := rem ! d - 1]"
  have d: "d < length rem" "Suc (count_list ls d) \<le> rem ! d" using Cons.prems by auto
  have "\<forall>i\<in>set ls. i < length ?rem \<and> count_list ls i \<le> ?rem ! i"
  proof
    fix i assume "i \<in> set ls"
    then show "i < length ?rem \<and> count_list ls i \<le> ?rem ! i"
      using Cons.prems d by (cases "i = d") (auto simp: nth_list_update)
  qed
  from Cons.IH [OF this] obtain r new where
    n: "notify ls ?rem = Some (r, new)" "length r = length rem"
      "\<forall>i<length rem. r ! i = ?rem ! i - count_list ls i"
      "distinct new" "set new = {i \<in> set ls. ?rem ! i = count_list ls i}" by auto
  let ?new = "if ?rem ! d = 0 then d # new else new"
  have "count_list ls d = 0" if "?rem ! d = 0" using that d by simp
  then have "?rem ! d = 0 \<Longrightarrow> d \<notin> set ls" by (simp add: count_list_0_iff)
  then have "distinct ?new" using n(4,5) by auto
  moreover have "set ?new = {i \<in> set (d # ls). rem ! i = count_list (d # ls) i}"
  proof -
    have "i \<in> set ?new \<longleftrightarrow> i \<in> set (d # ls) \<and> rem ! i = count_list (d # ls) i" for i
    proof (cases "i = d")
      case True
      have rd: "?rem ! d = rem ! d - 1" using d(1) by simp
      have "d \<in> set new \<longleftrightarrow> d \<in> set ls \<and> rem ! d - 1 = count_list ls d"
        unfolding n(5) using rd by simp
      moreover have "d \<in> set ls \<longleftrightarrow> count_list ls d \<noteq> 0" by (simp add: count_list_0_iff)
      ultimately have "d \<in> set ?new \<longleftrightarrow> rem ! d = Suc (count_list ls d)"
        unfolding rd using d(2) by (cases "rem ! d - 1 = 0") (simp_all, linarith+)
      with True show ?thesis by simp
    next
      case False
      then show ?thesis using n(5) by simp
    qed
    then show ?thesis by blast
  qed
  moreover have "\<forall>i<length rem. r ! i = rem ! i - count_list (d # ls) i"
    using n(3) d by (auto simp: nth_list_update)
  moreover have "notify (d # ls) rem = Some (r, ?new)" using d n(1) by (simp add: Let_def)
  ultimately show ?case by (rule_tac exI [of _ r], rule_tac exI [of _ ?new], intro conjI n(2))
qed simp

text \<open>
  What Kahn's algorithm needs of the inverted lists: every dependency entry is met once.
\<close>

locale dependency_counts =
  fixes ds :: "nat list list" and dd :: "nat list list"
  assumes len: "length dd = length ds"
    and entries: "i < length ds \<Longrightarrow> j < length ds \<Longrightarrow> count_list (dd ! j) i = count_list (ds ! i) j"
    and targets: "j < length ds \<Longrightarrow> set (dd ! j) \<subseteq> {..<length ds}"
begin

lemma notify_counts:
  assumes "j < length ds" and "j \<notin> D"
  shows "\<exists>new. notify (dd ! j) (counts ds D) = Some (counts ds (insert j D), new) \<and> distinct new
    \<and> set new = {i. i < length ds \<and> counts ds D ! i \<noteq> 0 \<and> counts ds (insert j D) ! i = 0}"
proof -
  have split: "counts ds D ! i = counts ds (insert j D) ! i + count_list (dd ! j) i" if "i < length ds" for i
    using filter_insert_count [OF assms(2), of "ds ! i"] entries [OF that assms(1)] that by simp
  have "\<forall>i\<in>set (dd ! j). i < length (counts ds D) \<and> count_list (dd ! j) i \<le> counts ds D ! i"
    using targets [OF assms(1)] split by fastforce
  from notify_spec [OF this] obtain rem new where
    n: "notify (dd ! j) (counts ds D) = Some (rem, new)" "length rem = length ds"
      "\<forall>i<length ds. rem ! i = counts ds D ! i - count_list (dd ! j) i"
      "distinct new" "set new = {i \<in> set (dd ! j). counts ds D ! i = count_list (dd ! j) i}"
    by auto
  have "rem = counts ds (insert j D)"
    using n(2,3) split by (intro nth_equalityI) simp_all
  moreover have "set new = {i. i < length ds \<and> counts ds D ! i \<noteq> 0 \<and> counts ds (insert j D) ! i = 0}"
  proof -
    have "i \<in> set (dd ! j) \<and> counts ds D ! i = count_list (dd ! j) i \<longleftrightarrow>
        i < length ds \<and> counts ds D ! i \<noteq> 0 \<and> counts ds (insert j D) ! i = 0" for i
    proof (cases "i < length ds")
      case True
      from split [OF True] count_list_0_iff [of "dd ! j" i] True show ?thesis
        by (auto simp del: nth_counts)
    next
      case False
      with targets [OF assms(1)] show ?thesis by auto
    qed
    then show ?thesis unfolding n(5) by blast
  qed
  ultimately show ?thesis using n(1,4) by blast
qed

text \<open>A set of visited nodes that contains its dependencies, each ranked below its dependents.\<close>

definition ordered :: "nat set \<Rightarrow> bool" where
  "ordered D \<longleftrightarrow> (\<exists>f::nat \<Rightarrow> nat. \<forall>i\<in>D. \<forall>d\<in>set (ds ! i). d \<in> D \<and> f d < f i)"

lemma ordered_insert:
  assumes "ordered D" and "j \<notin> D" and "set (ds ! j) \<subseteq> D"
  shows "ordered (insert j D)"
proof -
  obtain f :: "nat \<Rightarrow> nat" where f: "\<forall>i\<in>D. \<forall>d\<in>set (ds ! i). d \<in> D \<and> f d < f i"
    using assms(1) by (auto simp: ordered_def)
  let ?g = "f(j := Suc (Max (insert 0 (f ` set (ds ! j)))))"
  have "f d \<le> Max (insert 0 (f ` set (ds ! j)))" if "d \<in> set (ds ! j)" for d
    using that by (intro Max_ge) auto
  then have "\<forall>i\<in>insert j D. \<forall>d\<in>set (ds ! i). d \<in> insert j D \<and> ?g d < ?g i"
    using f assms(2,3) by (auto simp: less_Suc_eq_le)
  then show ?thesis unfolding ordered_def by blast
qed

lemma drain_counts:
  assumes "D \<subseteq> {..<length ds}" and "distinct ready"
    and "set ready = {i. i < length ds \<and> i \<notin> D \<and> counts ds D ! i = 0}" and "ordered D"
  shows "\<exists>D'. drain dd (counts ds D) ready (card D) = Some (card D') \<and> D' \<subseteq> {..<length ds}
    \<and> ordered D' \<and> (\<forall>i<length ds. i \<notin> D' \<longrightarrow> counts ds D' ! i \<noteq> 0)"
  using assms
proof (induction "length ds - card D" arbitrary: D ready rule: less_induct)
  case less
  show ?case
  proof (cases "ready = []")
    case True
    with less.prems show ?thesis by (intro exI [of _ D]) (auto simp: drain.simps simp del: nth_counts)
  next
    case False
    let ?j = "last ready"
    have fin: "finite D" using less.prems(1) finite_subset by blast
    have "?j \<in> set ready" using False by simp
    with less.prems(3) have j: "?j < length ds" "?j \<notin> D" "counts ds D ! ?j = 0" by auto
    have deps: "set (ds ! ?j) \<subseteq> D" using j by (auto simp: filter_empty_conv)
    obtain new where new: "notify (dd ! ?j) (counts ds D) = Some (counts ds (insert ?j D), new)"
      "distinct new" "set new = {i. i < length ds \<and> counts ds D ! i \<noteq> 0 \<and> counts ds (insert ?j D) ! i = 0}"
      using notify_counts [OF j(1,2)] by blast
    have old: "set (butlast ready) = {i. i < length ds \<and> i \<notin> insert ?j D \<and> counts ds D ! i = 0}"
      using set_butlast_distinct [OF less.prems(2) False] less.prems(3) by (auto simp del: nth_counts)
    have mono: "counts ds D ! i = 0 \<Longrightarrow> counts ds (insert ?j D) ! i = 0" if "i < length ds" for i
      using that by (auto simp: filter_empty_conv)
    have visited: "counts ds D ! i = 0" if "i \<in> insert ?j D" for i
    proof (cases "i = ?j")
      case False
      with that have "i \<in> D" by simp
      then have "i < length ds" "set (ds ! i) \<subseteq> D" using less.prems(1,4) by (auto simp: ordered_def)
      then show ?thesis by (auto simp: filter_empty_conv)
    qed (simp add: j(3) del: nth_counts)
    have "set (butlast ready @ new) = {i. i < length ds \<and> i \<notin> insert ?j D \<and> counts ds (insert ?j D) ! i = 0}"
    proof (rule set_eqI)
      fix i
      show "i \<in> set (butlast ready @ new) \<longleftrightarrow>
          i \<in> {i. i < length ds \<and> i \<notin> insert ?j D \<and> counts ds (insert ?j D) ! i = 0}"
        unfolding set_append old new(3) using mono [of i] visited [of i]
        by (cases "counts ds D ! i = 0") (auto simp del: nth_counts)
    qed
    moreover have "distinct (butlast ready @ new)"
    proof -
      have "set (butlast ready) \<inter> set new = {}" unfolding old new(3) by (auto simp del: nth_counts)
      then show ?thesis using less.prems(2) new(2) by (simp add: distinct_butlast)
    qed
    moreover have "insert ?j D \<subseteq> {..<length ds}" using less.prems(1) j(1) by auto
    moreover have "card D < length ds"
      using less.prems(1) j by (metis card_lessThan finite_lessThan lessThan_iff psubsetI psubset_card_mono)
    moreover have "card (insert ?j D) = Suc (card D)" using fin j(2) by simp
    ultimately have "\<exists>D'. drain dd (counts ds (insert ?j D)) (butlast ready @ new) (Suc (card D)) = Some (card D')
      \<and> D' \<subseteq> {..<length ds} \<and> ordered D' \<and> (\<forall>i<length ds. i \<notin> D' \<longrightarrow> counts ds D' ! i \<noteq> 0)"
      using less.hyps [of "insert ?j D" "butlast ready @ new"] ordered_insert [OF less.prems(4) j(2) deps]
      by (simp del: nth_counts)
    moreover have "drain dd (counts ds D) ready (card D) =
        drain dd (counts ds (insert ?j D)) (butlast ready @ new) (Suc (card D))"
      using new(1) j(1) len False by (subst drain.simps) simp
    ultimately show ?thesis by simp
  qed
qed

end

lemma count_concat_replicate:
  "count_list (concat (map (\<lambda>i. replicate (c i) i) [0..<n])) k = (if k < n then c k else 0)"
  by (induction n) (auto simp: count_list_replicate_eq)

interpretation kahn: dependency_counts ds "dependents_of ds" for ds
  by unfold_locales (auto simp: dependents_of_def count_concat_replicate)

section \<open>The built topology is the inverted graph\<close>

lemma add_children_spec:
  "add_children k ls dd =
     (case find (\<lambda>d. \<not> d < length dd) ls of
        None \<Rightarrow> Inr (map (\<lambda>j. dd ! j @ replicate (count_list ls j) k) [0..<length dd])
      | Some d \<Rightarrow> Inl (BadDep d (length dd)))"
proof (induction k ls dd rule: add_children.induct)
  case (1 k dd)
  then show ?case by (simp add: map_nth)
next
  case (2 k d ls dd)
  show ?case
  proof (cases "d < length dd")
    case True
    have "map (\<lambda>j. dd[d := dd ! d @ [k]] ! j @ replicate (count_list ls j) k) [0..<length dd] =
        map (\<lambda>j. dd ! j @ replicate (count_list (d # ls) j) k) [0..<length dd]"
      by (intro map_cong) (auto simp: nth_list_update replicate_app_Cons_same)
    with 2 True show ?thesis by (simp split: option.split)
  qed simp
qed

lemma add_nodes_spec:
  "add_nodes k nodes dd =
     (case find (\<lambda>d. \<not> d < length dd) (concat (map deps nodes)) of
        None \<Rightarrow> Inr (map (\<lambda>j. dd ! j @ concat (map (\<lambda>i. replicate (count_list (deps (nodes ! i)) j) (k + i))
                            [0..<length nodes])) [0..<length dd])
      | Some d \<Rightarrow> Inl (BadDep d (length dd)))"
proof (induction nodes arbitrary: k dd)
  case Nil
  then show ?case by (simp add: map_nth)
next
  case (Cons node nodes)
  have up: "[0..<Suc m] = 0 # map Suc [0..<m]" for m
    by (simp add: upt_conv_Cons map_Suc_upt del: upt_Suc)
  let ?dd = "map (\<lambda>j. dd ! j @ replicate (count_list (deps node) j) k) [0..<length dd]"
  have app: "find P (xs @ ys) = (case find P xs of None \<Rightarrow> find P ys | Some x \<Rightarrow> Some x)"
    for P and xs ys :: "nat list"
    by (induction xs) auto
  show ?case
  proof (cases "find (\<lambda>d. \<not> d < length dd) (deps node)")
    case None
    then have step: "add_nodes k (node # nodes) dd = add_nodes (Suc k) nodes ?dd"
      by (simp add: add_children_spec result_simps)
    show ?thesis
      unfolding step Cons.IH
      using None by (auto simp: app up comp_def split: option.split simp del: upt_Suc)
  next
    case (Some d)
    then show ?thesis by (simp add: add_children_spec app result_simps)
  qed
qed

lemma add_nodes_zero:
  "add_nodes 0 plan (replicate (length plan) []) =
     (case find (\<lambda>d. \<not> d < length plan) (concat (map deps plan)) of
        None \<Rightarrow> Inr (dependents_of (map deps plan))
      | Some d \<Rightarrow> Inl (BadDep d (length plan)))"
proof -
  have "map (\<lambda>j. replicate (length plan) [] ! j @ concat (map (\<lambda>i. replicate (count_list (deps (plan ! i)) j) (0 + i))
          [0..<length plan])) [0..<length (replicate (length plan) [])] = dependents_of (map deps plan)"
    unfolding dependents_of_def by (auto intro!: map_cong arg_cong [where f = concat])
  then show ?thesis by (simp only: add_nodes_spec length_replicate)
qed

lemma find_bounds_None:
  "find (\<lambda>d. \<not> d < length plan) (concat (map deps plan)) = None \<longleftrightarrow> in_bounds (map deps plan)"
proof -
  have "find (\<lambda>d. \<not> d < length plan) (concat (map deps plan)) = None \<longleftrightarrow>
      (\<forall>node\<in>set plan. \<forall>d\<in>set (deps node). d < length plan)"
    by (auto simp: find_None_iff)
  also have "\<dots> \<longleftrightarrow> in_bounds (map deps plan)"
    by (simp add: in_bounds_def all_set_conv_all_nth [of plan])
  finally show ?thesis .
qed

lemma counts_empty: "counts (map deps plan) {} = map (\<lambda>node. length (deps node)) plan"
  by (simp add: counts_def)

text \<open>A finite graph in which every remaining node keeps a remaining dependency has a cycle.\<close>

lemma acyclic_all_visited:
  assumes "in_bounds ds" and "acyclic (dep_edges ds)" and "D \<subseteq> {..<length ds}"
    and "\<forall>i<length ds. i \<notin> D \<longrightarrow> counts ds D ! i \<noteq> 0"
  shows "D = {..<length ds}"
proof (rule ccontr)
  assume "D \<noteq> {..<length ds}"
  then obtain i where i: "i \<in> {..<length ds} - D" using assms(3) by blast
  have "dep_edges ds \<subseteq> {..<length ds} \<times> {..<length ds}"
    using assms(1) by (auto simp: dep_edges_def in_bounds_def)
  then have "finite (dep_edges ds)" by (rule finite_subset) simp
  then have "wf (dep_edges ds)" using assms(2) by (rule finite_acyclic_wf)
  then obtain z where z: "z \<in> {..<length ds} - D" "\<And>d. (d, z) \<in> dep_edges ds \<Longrightarrow> d \<notin> {..<length ds} - D"
    using i by (rule wfE_min) blast
  have "filter (\<lambda>d. d \<notin> D) (ds ! z) \<noteq> []" using z(1) assms(4) by auto
  then obtain d where "d \<in> set (ds ! z)" "d \<notin> D" by (auto simp: filter_empty_conv)
  moreover have "d < length ds" using assms(1) z(1) \<open>d \<in> set (ds ! z)\<close> by (auto simp: in_bounds_def)
  ultimately show False using z by (auto simp: dep_edges_def)
qed

lemma ordered_acyclic:
  assumes "kahn.ordered ds {..<length ds}"
  shows "acyclic (dep_edges ds)"
proof -
  obtain f :: "nat \<Rightarrow> nat" where "\<forall>i<length ds. \<forall>d\<in>set (ds ! i). f d < f i"
    using assms by (auto simp: kahn.ordered_def)
  then have "dep_edges ds \<subseteq> measure f" by (auto simp: dep_edges_def)
  then show ?thesis by (meson wf_acyclic wf_measure wf_subset)
qed

lemma validate_counts:
  assumes "in_bounds ds"
  shows "topology_validate \<lparr>dependents = dependents_of ds, remaining = counts ds {}\<rparr> =
    Some (if acyclic (dep_edges ds) then Inr () else Inl Cycle)"
proof -
  have "set (ready_indices (counts ds {})) = {i. i < length ds \<and> i \<notin> {} \<and> counts ds {} ! i = 0}"
    "distinct (ready_indices (counts ds {}))"
    by (auto simp: ready_indices_def)
  moreover have "kahn.ordered ds {}" by (simp add: kahn.ordered_def)
  ultimately obtain D where D:
    "drain (dependents_of ds) (counts ds {}) (ready_indices (counts ds {})) 0 = Some (card D)"
    "D \<subseteq> {..<length ds}" "kahn.ordered ds D" "\<forall>i<length ds. i \<notin> D \<longrightarrow> counts ds D ! i \<noteq> 0"
    using kahn.drain_counts [of "{}" ds "ready_indices (counts ds {})"] card.empty by auto
  have "card D = length ds \<longleftrightarrow> D = {..<length ds}"
    using D(2) by (metis card_lessThan card_subset_eq finite_lessThan)
  also have "\<dots> \<longleftrightarrow> acyclic (dep_edges ds)"
    using D(3) ordered_acyclic acyclic_all_visited [OF assms _ D(2,4)] by blast
  finally show ?thesis using D(1) by (simp add: topology_validate_def)
qed

lemma topology_new_spec:
  "topology_new plan = Some
     (case find (\<lambda>d. \<not> d < length plan) (concat (map deps plan)) of
        Some d \<Rightarrow> Inl (BadDep d (length plan))
      | None \<Rightarrow> if acyclic (dep_edges (map deps plan))
                then Inr \<lparr>dependents = dependents_of (map deps plan), remaining = counts (map deps plan) {}\<rparr>
                else Inl Cycle)"
proof (cases "find (\<lambda>d. \<not> d < length plan) (concat (map deps plan))")
  case None
  have "in_bounds (map deps plan)" using None find_bounds_None by blast
  with None show ?thesis
    by (simp add: topology_new_def add_nodes_zero Let_def result_simps validate_counts flip: counts_empty)
next
  case (Some d)
  then show ?thesis by (simp add: topology_new_def add_nodes_zero)
qed

section \<open>Properties\<close>

text \<open>C12. Plan validation is exact and total: it never panics; it reports the first dependency entry
  that is out of bounds, in plan order, with the node count; with every entry in bounds it reports
  a cycle exactly when the dependency relation is cyclic, and otherwise accepts.\<close>

theorem plan_validate_exact:
  "plan_validate plan = Some
     (case find (\<lambda>d. \<not> d < length plan) (concat (map deps plan)) of
        Some d \<Rightarrow> Inl (BadDep d (length plan))
      | None \<Rightarrow> if acyclic (dep_edges (map deps plan)) then Inr () else Inl Cycle)"
  by (simp add: plan_validate_def topology_new_spec result_simps split: option.split)

end
