(* ===== verification/Plan_Scheduler.thy ===== *)
theory Plan_Scheduler
  imports Plan_Topology
begin

text \<open>
  The parallel plan scheduler: \<open>crates/once-core/src/plan/scheduler.rs\<close>. The join set of the
  runtime hands back running tasks in any order and with any result, so \<open>run\<close> is a step
  relation over the state of its loop; the event of a step is the task that was joined. The
  log \<open>started\<close> records the calls of \<open>execute\<close>.
\<close>

section \<open>State\<close>

record 'c outcome =
  exit_code :: int
  details :: 'c

record 'c plan_outcome =
  po_index :: nat
  po_label :: string
  po_outcome :: "'c outcome"

record ('c, 'e) sched =
  topo :: topology
  ready :: "nat list"
  running :: "nat list"
  outcomes :: "'c plan_outcome option list"
  aborted :: "'e plan_error option"
  started :: "nat list"

datatype ('c, 'e) joined = Finished nat "'e + 'c outcome" | TaskError nat

fun joined_index :: "('c, 'e) joined \<Rightarrow> nat" where
  "joined_index (Finished i r) = i"
| "joined_index (TaskError i) = i"

section \<open>The loop\<close>

definition sched_init :: "'a plan \<Rightarrow> topology \<Rightarrow> ('c, 'e) sched" where
  "sched_init plan t =
     \<lparr>topo = t, ready = ready_indices (remaining t), running = [],
      outcomes = replicate (length plan) None, aborted = None, started = []\<rparr>"

text \<open>The inner loop: spawn from the front of the queue while the window has room.\<close>

fun fill :: "nat \<Rightarrow> nat list \<Rightarrow> nat list \<Rightarrow> nat list \<times> nat list" where
  "fill max_in_flight [] run = ([], run)"
| "fill max_in_flight (index # rd) run =
     (if length run < max max_in_flight 1 then fill max_in_flight rd (run @ [index])
      else (index # rd, run))"

definition spawn :: "nat \<Rightarrow> ('c, 'e) sched \<Rightarrow> ('c, 'e) sched" where
  "spawn max_in_flight st =
     (if aborted st = None
      then (case fill max_in_flight (ready st) (running st) of (rd, run) \<Rightarrow>
              st\<lparr>ready := rd, running := run, started := started st @ drop (length (running st)) run\<rparr>)
      else st)"

definition complete ::
  "'a plan \<Rightarrow> ('c, 'e) sched \<Rightarrow> nat \<Rightarrow> 'e + 'c outcome \<Rightarrow> bool
   \<Rightarrow> (('c, 'e) sched \<times> ('e plan_error + unit)) option" where
  "complete plan st index result schedule_dependents =
     (if index < length plan then
        (case result of
           Inl error \<Rightarrow> Some (st, Inl (Core error))
         | Inr oc \<Rightarrow>
             if exit_code oc \<noteq> 0
             then Some (st, Inl (Failed (label (plan ! index)) (exit_code oc)))
             else if index < length (outcomes st) then
               (let st' = st\<lparr>outcomes := (outcomes st)[index :=
                      Some \<lparr>po_index = index, po_label = label (plan ! index), po_outcome = oc\<rparr>]\<rparr>
                in if schedule_dependents then
                     (if index < length (dependents (topo st)) then
                        (case notify (dependents (topo st) ! index) (remaining (topo st)) of
                           None \<Rightarrow> None
                         | Some (rem, new) \<Rightarrow>
                             Some (st'\<lparr>topo := (topo st)\<lparr>remaining := rem\<rparr>, ready := ready st @ new\<rparr>, Inr ()))
                      else None)
                   else Some (st', Inr ()))
             else None)
      else None)"

definition join_result :: "('c, 'e) sched \<Rightarrow> 'e plan_error + unit \<Rightarrow> ('c, 'e) sched" where
  "join_result st result =
     (case result of
        Inr _ \<Rightarrow> st
      | Inl error \<Rightarrow> if aborted st = None then st\<lparr>aborted := Some error\<rparr> else st)"

definition join :: "'a plan \<Rightarrow> ('c, 'e) sched \<Rightarrow> ('c, 'e) joined \<Rightarrow> ('c, 'e) sched option" where
  "join plan st ev =
     (let st1 = st\<lparr>running := remove1 (joined_index ev) (running st)\<rparr>
      in case ev of
           Finished index result \<Rightarrow>
             map_option (\<lambda>(st2, r). join_result st2 r)
               (complete plan st1 index result (aborted st = None))
         | TaskError index \<Rightarrow> Some (join_result st1 (Inl Task)))"

fun collect :: "'c plan_outcome option list \<Rightarrow> 'c plan_outcome list option" where
  "collect [] = Some []"
| "collect (None # xs) = None"
| "collect (Some x # xs) = map_option (Cons x) (collect xs)"

definition sched_finish :: "('c, 'e) sched \<Rightarrow> ('e plan_error + 'c plan_outcome list) option" where
  "sched_finish st =
     (case aborted st of
        Some error \<Rightarrow> Some (Inl error)
      | None \<Rightarrow> map_option Inr (collect (outcomes st)))"

inductive sched_step :: "'a plan \<Rightarrow> nat \<Rightarrow> ('c, 'e) sched \<Rightarrow> ('c, 'e) sched \<Rightarrow> bool" for plan m where
  joined_step:
    "joined_index ev \<in> set (running (spawn m st)) \<Longrightarrow> join plan (spawn m st) ev = Some st' \<Longrightarrow>
     sched_step plan m st st'"

inductive sched_reach :: "'a plan \<Rightarrow> nat \<Rightarrow> ('c, 'e) sched \<Rightarrow> bool" for plan m where
  sched_start: "topology_new plan = Some (Inr t :: 'e plan_error + topology) \<Longrightarrow>
    sched_reach plan m (sched_init plan t :: ('c, 'e) sched)"
| sched_more: "sched_reach plan m st \<Longrightarrow> sched_step plan m st st' \<Longrightarrow> sched_reach plan m st'"

text \<open>The results \<open>run\<close> can return.\<close>

inductive run_result :: "'a plan \<Rightarrow> nat \<Rightarrow> 'e plan_error + 'c plan_outcome list \<Rightarrow> bool" for plan m where
  run_invalid: "topology_new plan = Some (Inl e :: 'e plan_error + topology) \<Longrightarrow>
    run_result plan m (Inl e :: 'e plan_error + 'c plan_outcome list)"
| run_done: "sched_reach plan m st \<Longrightarrow> running (spawn m st) = [] \<Longrightarrow>
    sched_finish (spawn m st) = Some r \<Longrightarrow> run_result plan m r"

section \<open>The invariant\<close>

definition completed :: "('c, 'e) sched \<Rightarrow> nat set" where
  "completed st = {i. i < length (outcomes st) \<and> outcomes st ! i \<noteq> None}"

definition good_outcomes :: "'a plan \<Rightarrow> ('c, 'e) sched \<Rightarrow> bool" where
  "good_outcomes plan st \<longleftrightarrow> length (outcomes st) = length plan
     \<and> (\<forall>i<length plan. \<forall>po. outcomes st ! i = Some po \<longrightarrow>
          po_index po = i \<and> po_label po = label (plan ! i) \<and> exit_code (po_outcome po) = 0)"

definition base_ok :: "'a plan \<Rightarrow> nat \<Rightarrow> ('c, 'e) sched \<Rightarrow> bool" where
  "base_ok plan m st \<longleftrightarrow> good_outcomes plan st \<and> length (running st) \<le> max m 1
     \<and> distinct (running st) \<and> distinct (started st) \<and> set (running st) \<subseteq> set (started st)
     \<and> set (started st) \<subseteq> {..<length plan}
     \<and> (\<forall>i\<in>set (started st). set (deps (plan ! i)) \<subseteq> completed st)
     \<and> completed st \<subseteq> set (started st) - set (running st)"

text \<open>While nothing has failed, the counters are exact and every available node is somewhere.\<close>

definition flow_ok :: "'a plan \<Rightarrow> ('c, 'e) sched \<Rightarrow> bool" where
  "flow_ok plan st \<longleftrightarrow>
     topo st = \<lparr>dependents = dependents_of (map deps plan), remaining = counts (map deps plan) (completed st)\<rparr>
     \<and> distinct (ready st) \<and> set (ready st) \<inter> set (started st) = {}
     \<and> set (started st) = set (running st) \<union> completed st
     \<and> set (ready st) \<union> set (started st) =
         {i. i < length plan \<and> counts (map deps plan) (completed st) ! i = 0}"

definition sched_ok :: "'a plan \<Rightarrow> nat \<Rightarrow> ('c, 'e) sched \<Rightarrow> bool" where
  "sched_ok plan m st \<longleftrightarrow> in_bounds (map deps plan) \<and> acyclic (dep_edges (map deps plan))
     \<and> base_ok plan m st \<and> (aborted st = None \<longrightarrow> flow_ok plan st)"

lemma fill_spec:
  "length run \<le> max m 1 \<Longrightarrow>
   fill m rd run = (drop (max m 1 - length run) rd, run @ take (max m 1 - length run) rd)"
proof (induction m rd run rule: fill.induct)
  case (2 m i rd run)
  show ?case
  proof (cases "length run < max m 1")
    case True
    then have "max m 1 - length run = Suc (max m 1 - Suc (length run))" by simp
    with 2 True show ?thesis by simp
  qed (use 2 in simp)
qed simp

lemma spawn_spec:
  assumes "length (running st) \<le> max m 1" and "aborted st = None"
  shows "spawn m st = st\<lparr>ready := drop (max m 1 - length (running st)) (ready st),
    running := running st @ take (max m 1 - length (running st)) (ready st),
    started := started st @ take (max m 1 - length (running st)) (ready st)\<rparr>"
  using fill_spec [OF assms(1), of "ready st"] assms(2) by (simp add: spawn_def)

lemma sched_ok_init:
  assumes "topology_new plan = Some (Inr t :: 'e plan_error + topology)"
  shows "sched_ok plan m (sched_init plan t :: ('c, 'e) sched)"
proof -
  let ?ds = "map deps plan"
  have none: "find (\<lambda>d. \<not> d < length plan) (concat (map deps plan)) = None"
    using assms by (cases "find (\<lambda>d. \<not> d < length plan) (concat (map deps plan))")
      (simp_all add: topology_new_spec)
  have ac: "acyclic (dep_edges ?ds)"
    and t: "t = \<lparr>dependents = dependents_of ?ds, remaining = counts ?ds {}\<rparr>"
    using assms none by (simp_all add: topology_new_spec split: if_splits)
  have ib: "in_bounds ?ds" using none find_bounds_None by blast
  let ?st = "sched_init plan t :: ('c, 'e) sched"
  have c: "completed ?st = {}" by (auto simp: completed_def sched_init_def)
  have "base_ok plan m ?st" unfolding base_ok_def c
    by (simp add: sched_init_def good_outcomes_def)
  moreover have "flow_ok plan ?st" unfolding flow_ok_def c
    by (auto simp: sched_init_def t ready_indices_def simp del: nth_counts)
  ultimately show ?thesis using ac ib by (simp add: sched_ok_def)
qed

lemma sched_ok_spawn:
  assumes "sched_ok plan m st"
  shows "sched_ok plan m (spawn m st)"
proof (cases "aborted st = None")
  case True
  have b: "base_ok plan m st" and f: "flow_ok plan st" using assms True by (simp_all add: sched_ok_def)
  let ?k = "max m 1 - length (running st)"
  have sp: "spawn m st = st\<lparr>ready := drop ?k (ready st), running := running st @ take ?k (ready st),
      started := started st @ take ?k (ready st)\<rparr>"
    using spawn_spec [of st m] True b by (simp add: base_ok_def)
  have c: "completed (spawn m st) = completed st" unfolding sp by (simp add: completed_def)
  have g: "good_outcomes plan (spawn m st)" using b unfolding sp by (simp add: base_ok_def good_outcomes_def)
  have rd: "set (take ?k (ready st)) \<union> set (drop ?k (ready st)) = set (ready st)"
    "set (take ?k (ready st)) \<inter> set (drop ?k (ready st)) = {}"
    using f append_take_drop_id [of ?k "ready st"]
    by (metis set_append, metis flow_ok_def distinct_append)
  have rdeps: "set (deps (plan ! i)) \<subseteq> completed st \<and> i < length plan" if "i \<in> set (ready st)" for i
  proof -
    have "i < length plan" "counts (map deps plan) (completed st) ! i = 0"
      using f that by (auto simp: flow_ok_def simp del: nth_counts)
    then show ?thesis by (auto simp: filter_empty_conv)
  qed
  have "base_ok plan m (spawn m st)"
    unfolding base_ok_def c
  proof (intro conjI g)
    show "length (running (spawn m st)) \<le> max m 1" using b unfolding sp by (auto simp: base_ok_def)
    show "distinct (running (spawn m st))" "distinct (started (spawn m st))"
      "set (running (spawn m st)) \<subseteq> set (started (spawn m st))"
      "set (started (spawn m st)) \<subseteq> {..<length plan}"
      "\<forall>i\<in>set (started (spawn m st)). set (deps (plan ! i)) \<subseteq> completed st"
      "completed st \<subseteq> set (started (spawn m st)) - set (running (spawn m st))"
      using b f rdeps set_take_subset [of ?k "ready st"] unfolding sp
      by (auto simp: base_ok_def flow_ok_def)
  qed
  moreover have "flow_ok plan (spawn m st)"
    unfolding flow_ok_def c
    using f rd unfolding sp flow_ok_def by (auto simp del: nth_counts)
  ultimately show ?thesis using assms by (simp add: sched_ok_def)
qed (use assms in \<open>auto simp: spawn_def\<close>)

text \<open>Dropping a joined task from the running set, with its outcome recorded or not.\<close>

lemma base_ok_join:
  assumes "base_ok plan m st" and "i \<in> set (running st)"
    and "running st' = remove1 i (running st)" and "started st' = started st"
    and "good_outcomes plan st'" and "completed st' = completed st \<or> completed st' = insert i (completed st)"
  shows "base_ok plan m st'"
proof -
  have "\<forall>k\<in>set (started st). set (deps (plan ! k)) \<subseteq> completed st'"
    using assms(1,6) unfolding base_ok_def by blast
  then show ?thesis
    unfolding base_ok_def assms(3,4)
    using assms(1,2,5,6) by (auto simp: base_ok_def length_remove1)
qed

definition record_outcome :: "'a plan \<Rightarrow> ('c, 'e) sched \<Rightarrow> nat \<Rightarrow> 'c outcome \<Rightarrow> 'c plan_outcome option list" where
  "record_outcome plan st i oc = (outcomes st)[i :=
     Some \<lparr>po_index = i, po_label = label (plan ! i), po_outcome = oc\<rparr>]"

lemma record_good:
  assumes "good_outcomes plan st" and "i < length plan" and "exit_code oc = 0"
    and "outcomes st' = record_outcome plan st i oc"
  shows "good_outcomes plan st'" and "completed st' = insert i (completed st)"
  using assms by (auto simp: good_outcomes_def record_outcome_def completed_def nth_list_update)

lemma flow_ok_notify:
  assumes "flow_ok plan st" and "base_ok plan m st" and "i \<in> set (running st)"
    and new: "set new = {k. k < length plan \<and> counts (map deps plan) (completed st) ! k \<noteq> 0
      \<and> counts (map deps plan) (insert i (completed st)) ! k = 0}" "distinct new"
    and st': "topo st' = (topo st)\<lparr>remaining := counts (map deps plan) (insert i (completed st))\<rparr>"
      "ready st' = ready st @ new" "running st' = remove1 i (running st)" "started st' = started st"
      "completed st' = insert i (completed st)"
  shows "flow_ok plan st'"
proof -
  have avail: "set (ready st) \<union> set (started st) =
      {k. k < length plan \<and> counts (map deps plan) (completed st) ! k = 0}"
    using assms(1) unfolding flow_ok_def by blast
  have mono: "counts (map deps plan) (completed st) ! k = 0 \<Longrightarrow>
      counts (map deps plan) (insert i (completed st)) ! k = 0" if "k < length plan" for k
    using that by (auto simp: filter_empty_conv)
  have disj: "set new \<inter> (set (ready st) \<union> set (started st)) = {}"
    unfolding avail new(1) by (auto simp del: nth_counts)
  have "set (ready st') \<union> set (started st') =
      {k. k < length plan \<and> counts (map deps plan) (insert i (completed st)) ! k = 0}"
  proof -
    have "set (ready st') \<union> set (started st') = set new \<union> (set (ready st) \<union> set (started st))"
      by (auto simp: st')
    also have "\<dots> = {k. k < length plan \<and> counts (map deps plan) (insert i (completed st)) ! k = 0}"
      unfolding avail new(1) using mono by (auto simp del: nth_counts)
    finally show ?thesis .
  qed
  moreover have "set (started st') = set (running st') \<union> completed st'"
    using assms(1-3) by (auto simp: st' flow_ok_def base_ok_def)
  moreover have "distinct (ready st')" "set (ready st') \<inter> set (started st') = {}"
    using disj new(2) assms(1) by (auto simp: st' flow_ok_def)
  moreover have "topo st' = \<lparr>dependents = dependents_of (map deps plan),
      remaining = counts (map deps plan) (completed st')\<rparr>"
    using assms(1) by (simp add: st' flow_ok_def)
  ultimately show ?thesis unfolding flow_ok_def st'(5) by blast
qed

definition joins_to :: "'a plan \<Rightarrow> nat \<Rightarrow> ('c, 'e) sched \<Rightarrow> ('c, 'e) joined \<Rightarrow> ('c, 'e) sched \<Rightarrow> bool" where
  "joins_to plan m st ev st' \<longleftrightarrow> join plan st ev = Some st' \<and> sched_ok plan m st' \<and> started st' = started st
     \<and> running st' = remove1 (joined_index ev) (running st)
     \<and> (\<forall>e. aborted st = Some e \<longrightarrow> aborted st' = Some e)"

lemma join_failed:
  assumes "sched_ok plan m st" and "joined_index ev \<in> set (running st)"
    and "join plan st ev = Some (join_result (st\<lparr>running := remove1 (joined_index ev) (running st)\<rparr>) (Inl e))"
  shows "\<exists>st'. joins_to plan m st ev st'"
proof -
  let ?st1 = "st\<lparr>running := remove1 (joined_index ev) (running st)\<rparr>"
  have b: "base_ok plan m st" and g: "good_outcomes plan st"
    using assms(1) by (auto simp: sched_ok_def base_ok_def)
  have "good_outcomes plan (?st1\<lparr>aborted := x\<rparr>)" "completed (?st1\<lparr>aborted := x\<rparr>) = completed st" for x
    using g by (simp_all add: good_outcomes_def completed_def)
  then have "base_ok plan m (?st1\<lparr>aborted := x\<rparr>)" for x
    by (intro base_ok_join [OF b assms(2)]) simp_all
  moreover have "\<exists>x. join_result ?st1 (Inl e) = ?st1\<lparr>aborted := Some x\<rparr> \<and> (\<forall>e. aborted st = Some e \<longrightarrow> x = e)"
    by (cases "aborted st") (auto simp: join_result_def intro: exI [of _ e])
  ultimately show ?thesis
    using assms(1) unfolding joins_to_def assms(3) by (auto simp: sched_ok_def)
qed

lemma join_draining:
  assumes "sched_ok plan m st" and "k \<in> set (running st)" and "exit_code oc = 0" and "aborted st = Some e"
  shows "\<exists>st'. joins_to plan m st (Finished k (Inr oc)) st'"
proof -
  have b: "base_ok plan m st" and g: "good_outcomes plan st" and k: "k < length plan"
    using assms(1,2) by (auto simp: sched_ok_def base_ok_def)
  let ?st2 = "st\<lparr>running := remove1 k (running st), outcomes := record_outcome plan st k oc\<rparr>"
  have "base_ok plan m ?st2"
    using record_good [OF g k assms(3), of ?st2] by (intro base_ok_join [OF b assms(2)]) simp_all
  moreover have "join plan st (Finished k (Inr oc)) = Some ?st2"
    using assms(3,4) k g
    by (simp add: join_def complete_def join_result_def record_outcome_def good_outcomes_def)
  ultimately show ?thesis using assms(1,4) by (auto simp: joins_to_def sched_ok_def)
qed

lemma join_live:
  assumes "sched_ok plan m st" and "k \<in> set (running st)" and "exit_code oc = 0" and "aborted st = None"
  shows "\<exists>st'. joins_to plan m st (Finished k (Inr oc)) st'"
proof -
  have b: "base_ok plan m st" and g: "good_outcomes plan st" and k: "k < length plan"
    and f: "flow_ok plan st" and nk: "k \<notin> completed st"
    using assms(1,2,4) by (auto simp: sched_ok_def base_ok_def)
  let ?c = "counts (map deps plan)"
  obtain new where new: "notify (dependents_of (map deps plan) ! k) (?c (completed st)) =
      Some (?c (insert k (completed st)), new)" "distinct new"
    "set new = {i. i < length plan \<and> ?c (completed st) ! i \<noteq> 0 \<and> ?c (insert k (completed st)) ! i = 0}"
    using kahn.notify_counts [of k "map deps plan" "completed st"] k nk by auto
  let ?st3 = "st\<lparr>running := remove1 k (running st), outcomes := record_outcome plan st k oc,
      topo := (topo st)\<lparr>remaining := ?c (insert k (completed st))\<rparr>, ready := ready st @ new\<rparr>"
  have rec: "good_outcomes plan ?st3" "completed ?st3 = insert k (completed st)"
    using record_good [OF g k assms(3), of ?st3] by simp_all
  have "base_ok plan m ?st3" using rec by (intro base_ok_join [OF b assms(2)]) simp_all
  moreover have "flow_ok plan ?st3"
    using rec(2) by (intro flow_ok_notify [OF f b assms(2) new(3,2)]) simp_all
  moreover have "join plan st (Finished k (Inr oc)) = Some ?st3"
    using assms(3,4) k g new(1) f
    by (simp add: join_def complete_def join_result_def record_outcome_def good_outcomes_def
        flow_ok_def dependents_of_def)
  ultimately show ?thesis using assms(1,4) by (auto simp: joins_to_def sched_ok_def)
qed

lemma join_ok:
  assumes "sched_ok plan m st" and "joined_index ev \<in> set (running st)"
  shows "\<exists>st'. joins_to plan m st ev st'"
proof (cases ev)
  case (TaskError k)
  with assms show ?thesis by (intro join_failed [of _ _ _ _ Task]) (simp_all add: join_def)
next
  case (Finished k result)
  have k: "k < length plan" using assms Finished by (auto simp: sched_ok_def base_ok_def)
  show ?thesis
  proof (cases result)
    case (Inl e)
    with assms Finished k show ?thesis
      by (intro join_failed [of _ _ _ _ "Core e"]) (simp_all add: join_def complete_def)
  next
    case (Inr oc)
    show ?thesis
    proof (cases "exit_code oc = 0")
      case False
      with assms Finished Inr k show ?thesis
        by (intro join_failed [of _ _ _ _ "Failed (label (plan ! k)) (exit_code oc)"])
          (simp_all add: join_def complete_def)
    next
      case True
      with assms Finished Inr show ?thesis
        by (cases "aborted st") (simp_all add: join_live join_draining)
    qed
  qed
qed

lemma sched_ok_reach: "sched_reach plan m st \<Longrightarrow> sched_ok plan m st"
proof (induction rule: sched_reach.induct)
  case (sched_start t)
  then show ?case by (rule sched_ok_init)
next
  case (sched_more st st')
  from sched_more(2) obtain ev where "joined_index ev \<in> set (running (spawn m st))"
    "join plan (spawn m st) ev = Some st'" by (auto elim: sched_step.cases)
  with join_ok [OF sched_ok_spawn [OF sched_more.IH]] show ?case by (fastforce simp: joins_to_def)
qed

lemma step_joins:
  assumes "sched_reach plan m st" and "sched_step plan m st st'"
  shows "\<exists>ev. joined_index ev \<in> set (running (spawn m st)) \<and> joins_to plan m (spawn m st) ev st'"
proof -
  from assms(2) obtain ev where ev: "joined_index ev \<in> set (running (spawn m st))"
    "join plan (spawn m st) ev = Some st'" by (auto elim: sched_step.cases)
  with join_ok [OF sched_ok_spawn [OF sched_ok_reach [OF assms(1)]] ev(1)]
  show ?thesis by (auto simp: joins_to_def)
qed

lemma collect_all:
  "None \<notin> set xs \<Longrightarrow> collect xs = Some (map the xs)"
  by (induction xs rule: collect.induct) auto

lemma spawn_idle:
  assumes "sched_ok plan m st" and "running (spawn m st) = []" and "aborted st = None"
  shows "completed (spawn m st) = {..<length plan}"
proof -
  let ?st = "spawn m st"
  have ok: "sched_ok plan m ?st" by (rule sched_ok_spawn [OF assms(1)])
  have sp: "?st = st\<lparr>ready := drop (max m 1 - length (running st)) (ready st),
      running := running st @ take (max m 1 - length (running st)) (ready st),
      started := started st @ take (max m 1 - length (running st)) (ready st)\<rparr>"
    using spawn_spec [of st m] assms(1,3) by (simp add: sched_ok_def base_ok_def)
  have rd: "ready ?st = []" using assms(2) unfolding sp by auto
  have f: "flow_ok plan ?st" using ok assms(3) sp by (simp add: sched_ok_def)
  have "set (started ?st) = set (running ?st) \<union> completed ?st" using f unfolding flow_ok_def by blast
  then have "completed ?st = set (ready ?st) \<union> set (started ?st)" using rd assms(2) by simp
  also have "\<dots> = {i. i < length plan \<and> counts (map deps plan) (completed ?st) ! i = 0}"
    using f unfolding flow_ok_def by blast
  finally have c: "completed ?st = {i. i < length plan \<and> counts (map deps plan) (completed ?st) ! i = 0}" .
  have "completed ?st \<subseteq> {..<length plan}" using c by blast
  moreover have "i \<in> completed ?st" if "i < length plan" "counts (map deps plan) (completed ?st) ! i = 0" for i
    using c that by blast
  ultimately show ?thesis
    using acyclic_all_visited [of "map deps plan" "completed ?st"] ok
    by (auto simp: sched_ok_def simp del: nth_counts)
qed

lemma sched_finish_idle:
  assumes "sched_reach plan m st" and "running (spawn m st) = []" and "aborted st = None"
  shows "sched_finish (spawn m st) = Some (Inr (map the (outcomes (spawn m st))))"
    and "length (outcomes (spawn m st)) = length plan"
    and "i < length plan \<Longrightarrow> \<exists>po. outcomes (spawn m st) ! i = Some po \<and> po_index po = i
      \<and> po_label po = label (plan ! i) \<and> exit_code (po_outcome po) = 0"
proof -
  let ?st = "spawn m st"
  have ok: "sched_ok plan m ?st" by (rule sched_ok_spawn [OF sched_ok_reach [OF assms(1)]])
  have g: "good_outcomes plan ?st" using ok by (simp add: sched_ok_def base_ok_def)
  then show len: "length (outcomes ?st) = length plan" by (simp add: good_outcomes_def)
  have all: "completed ?st = {..<length plan}" by (rule spawn_idle [OF sched_ok_reach [OF assms(1)] assms(2,3)])
  then have "None \<notin> set (outcomes ?st)"
    using len by (auto simp: completed_def in_set_conv_nth)
  moreover have "aborted ?st = None" using assms(3) by (simp add: spawn_def split: prod.split)
  ultimately show "sched_finish ?st = Some (Inr (map the (outcomes ?st)))"
    by (simp add: sched_finish_def collect_all)
  show "\<exists>po. outcomes ?st ! i = Some po \<and> po_index po = i
      \<and> po_label po = label (plan ! i) \<and> exit_code (po_outcome po) = 0" if "i < length plan"
  proof -
    have "i \<in> completed ?st" using all that by blast
    then obtain po where "outcomes ?st ! i = Some po" by (auto simp: completed_def)
    with g that show ?thesis by (simp add: good_outcomes_def)
  qed
qed

section \<open>A concrete execution\<close>

text \<open>A diamond of four nodes, run two at a time; the second branch fails.\<close>

definition demo_plan :: "unit plan" where
  "demo_plan = map (\<lambda>(l, ds). \<lparr>label = l, action = (), deps = ds\<rparr>)
     [(''a'', []), (''b'', [0]), (''c'', [0]), (''d'', [1, 2])]"

definition demo_topology :: topology where
  "demo_topology = \<lparr>dependents = [[1, 2], [3], [3], []], remaining = [0, 1, 1, 2]\<rparr>"

definition demo_start :: "(unit, unit) sched" where
  "demo_start = sched_init demo_plan demo_topology"

definition demo_after_a :: "(unit, unit) sched" where
  "demo_after_a = the (join demo_plan (spawn 2 demo_start) (Finished 0 (Inr \<lparr>exit_code = 0, details = ()\<rparr>)))"

definition demo_after_c :: "(unit, unit) sched" where
  "demo_after_c = the (join demo_plan (spawn 2 demo_after_a) (Finished 2 (Inr \<lparr>exit_code = 7, details = ()\<rparr>)))"

lemma demo_topology_new: "topology_new demo_plan = Some (Inr demo_topology :: unit plan_error + topology)"
  by code_simp

lemma demo_start_reach: "sched_reach demo_plan 2 demo_start"
  unfolding demo_start_def by (rule sched_start [OF demo_topology_new])

lemma demo_step_a: "sched_step demo_plan 2 demo_start demo_after_a"
  by (rule joined_step [where ev = "Finished 0 (Inr \<lparr>exit_code = 0, details = ()\<rparr>)"]; code_simp)

lemma demo_step_c: "sched_step demo_plan 2 demo_after_a demo_after_c"
  by (rule joined_step [where ev = "Finished 2 (Inr \<lparr>exit_code = 7, details = ()\<rparr>)"]; code_simp)

lemmas demo_after_a_reach = sched_more [OF demo_start_reach demo_step_a]

lemmas demo_after_c_reach = sched_more [OF demo_after_a_reach demo_step_c]

section \<open>Properties\<close>

text \<open>C2. In every reachable state of the loop, after the spawning phase: at most
  \<open>max(max_in_flight, 1)\<close> nodes run, no node was started twice, and every node ever started
  names only dependencies whose outcome is already recorded with exit code zero.\<close>

theorem scheduler_respects_dependencies:
  assumes "sched_reach plan m st"
  shows "length (running (spawn m st)) \<le> max m 1 \<and> distinct (started (spawn m st))
    \<and> (\<forall>i\<in>set (started (spawn m st)). i < length plan \<and> (\<forall>d\<in>set (deps (plan ! i)).
         \<exists>po. outcomes st ! d = Some po \<and> po_index po = d \<and> exit_code (po_outcome po) = 0))"
proof -
  have ok: "base_ok plan m (spawn m st)"
    using sched_ok_spawn [OF sched_ok_reach [OF assms]] by (simp add: sched_ok_def)
  have same: "outcomes (spawn m st) = outcomes st" by (simp add: spawn_def split: prod.split)
  have recorded: "\<exists>po. outcomes st ! d = Some po \<and> po_index po = d \<and> exit_code (po_outcome po) = 0"
    if "d \<in> completed (spawn m st)" for d
    using that ok by (auto simp: base_ok_def good_outcomes_def completed_def same)
  have "length (running (spawn m st)) \<le> max m 1" "distinct (started (spawn m st))"
    "\<And>i. i \<in> set (started (spawn m st)) \<Longrightarrow> i < length plan \<and> set (deps (plan ! i)) \<subseteq> completed (spawn m st)"
    using ok unfolding base_ok_def by blast+
  with recorded show ?thesis by blast
qed

theorem scheduler_respects_dependencies_witness:
  "length (running (spawn 2 demo_after_a)) \<le> 2 \<and> distinct (started (spawn 2 demo_after_a))"
  using scheduler_respects_dependencies [OF demo_after_a_reach] by simp

text \<open>C29. The loop neither panics nor runs forever: whatever task is joined with whatever result, the
  iteration returns a state, and each iteration ends one more node, so that a run has at most as
  many iterations as the plan has nodes.\<close>

theorem scheduler_terminates:
  assumes "sched_reach plan m st"
  shows "(\<forall>ev. joined_index ev \<in> set (running (spawn m st)) \<longrightarrow> join plan (spawn m st) ev \<noteq> None)
    \<and> length (started st) - length (running st) \<le> length plan
    \<and> (\<forall>st'. sched_step plan m st st' \<longrightarrow>
         length (started st') - length (running st') = Suc (length (started st) - length (running st)))"
proof (intro conjI allI impI)
  have ok: "sched_ok plan m st" and ok': "sched_ok plan m (spawn m st)"
    using sched_ok_spawn sched_ok_reach [OF assms] by blast+
  show "join plan (spawn m st) ev \<noteq> None" if "joined_index ev \<in> set (running (spawn m st))" for ev
    using join_ok [OF ok' that] by (auto simp: joins_to_def)
  have "set (started st) \<subseteq> {..<length plan}" "distinct (started st)"
    using ok by (simp_all add: sched_ok_def base_ok_def)
  then have "length (started st) \<le> length plan"
    using card_mono [of "{..<length plan}" "set (started st)"] by (simp add: distinct_card)
  then show "length (started st) - length (running st) \<le> length plan" by simp
  fix st' assume "sched_step plan m st st'"
  then obtain ev where ev: "joined_index ev \<in> set (running (spawn m st))" "joins_to plan m (spawn m st) ev st'"
    using step_joins [OF assms] by blast
  have sub: "set (running s) \<subseteq> set (started s) \<and> distinct (running s) \<and> distinct (started s)"
    if "sched_ok plan m s" for s using that by (simp add: sched_ok_def base_ok_def)
  have le: "length (running s) \<le> length (started s)" if "sched_ok plan m s" for s
    using sub [OF that] card_mono [of "set (started s)" "set (running s)"] by (simp add: distinct_card)
  have "length (started (spawn m st)) + length (running st) = length (started st) + length (running (spawn m st))"
    using fill_spec [of "running st" m "ready st"] ok
    by (auto simp: spawn_def sched_ok_def base_ok_def split: prod.split)
  moreover have "Suc (length (running st')) = length (running (spawn m st))" "started st' = started (spawn m st)"
    using ev length_remove1_less [OF ev(1)] by (simp_all add: joins_to_def)
  ultimately show "length (started st') - length (running st') = Suc (length (started st) - length (running st))"
    using le [OF ok] le [OF ok'] by simp
qed

theorem scheduler_terminates_witness:
  "length (started demo_after_c) - length (running demo_after_c) = 2"
  using scheduler_terminates [OF demo_start_reach] scheduler_terminates [OF demo_after_a_reach]
    demo_step_a demo_step_c by (simp add: demo_start_def sched_init_def)

text \<open>C30. Results come back complete and in plan order: when the loop ends without a failure, the
  \<open>expect\<close> on the outcome slots never fires and the result lists exactly one successful outcome
  per node, at its index and under its label.\<close>

theorem scheduler_complete:
  assumes "sched_reach plan m st" and "running (spawn m st) = []" and "aborted st = None"
  shows "\<exists>os. sched_finish (spawn m st) = Some (Inr os) \<and> length os = length plan
    \<and> (\<forall>i<length plan. po_index (os ! i) = i \<and> po_label (os ! i) = label (plan ! i)
         \<and> exit_code (po_outcome (os ! i)) = 0)"
  using sched_finish_idle [OF assms] by (intro exI [of _ "map the (outcomes (spawn m st))"]) fastforce

definition single_plan :: "unit plan" where
  "single_plan = [\<lparr>label = ''a'', action = (), deps = []\<rparr>]"

definition single_done :: "(unit, unit) sched" where
  "single_done = \<lparr>topo = \<lparr>dependents = [[]], remaining = [0]\<rparr>, ready = [], running = [],
     outcomes = [Some \<lparr>po_index = 0, po_label = ''a'', po_outcome = \<lparr>exit_code = 0, details = ()\<rparr>\<rparr>],
     aborted = None, started = [0]\<rparr>"

lemma single_done_reach: "sched_reach single_plan 0 single_done"
proof (rule sched_more [OF sched_start [of _ "\<lparr>dependents = [[]], remaining = [0]\<rparr>"]])
  show "topology_new single_plan = Some (Inr \<lparr>dependents = [[]], remaining = [0]\<rparr> :: unit plan_error + topology)"
    by code_simp
  show "sched_step single_plan 0 (sched_init single_plan \<lparr>dependents = [[]], remaining = [0]\<rparr>) single_done"
    by (rule joined_step [where ev = "Finished 0 (Inr \<lparr>exit_code = 0, details = ()\<rparr>)"]; code_simp)
qed

theorem scheduler_complete_witness:
  "\<exists>os. sched_finish (spawn 0 single_done) = Some (Inr os :: unit plan_error + unit plan_outcome list)
     \<and> length os = 1 \<and> po_label (os ! 0) = ''a''"
proof -
  have "running (spawn 0 single_done) = []" "aborted single_done = None" by code_simp+
  from scheduler_complete [OF single_done_reach this] show ?thesis by (auto simp: single_plan_def)
qed

text \<open>C31. After the first failure nothing more is started and the first error is the one reported: the
  set of started nodes and the recorded error never change again, and once the running nodes have
  drained \<open>run\<close> returns that error.\<close>

theorem scheduler_drains_after_failure:
  assumes "sched_reach plan m st" and "aborted st = Some e"
  shows "(\<forall>st'. (sched_step plan m)\<^sup>*\<^sup>* st st' \<longrightarrow> started (spawn m st') = started st \<and> aborted st' = Some e)
    \<and> (running st = [] \<longrightarrow> sched_finish (spawn m st) = Some (Inl e))"
proof (intro conjI allI impI)
  fix st' assume "(sched_step plan m)\<^sup>*\<^sup>* st st'"
  then have "sched_reach plan m st' \<and> started st' = started st \<and> aborted st' = Some e"
  proof induction
    case (step y z)
    then obtain ev where "joins_to plan m (spawn m y) ev z" using step_joins by blast
    moreover have "spawn m y = y" using step.IH by (simp add: spawn_def)
    ultimately show ?case using step sched_more by (auto simp: joins_to_def)
  qed (use assms in simp)
  then show "started (spawn m st') = started st" "aborted st' = Some e" by (simp_all add: spawn_def)
qed (use assms in \<open>simp add: spawn_def sched_finish_def\<close>)

theorem scheduler_drains_after_failure_witness:
  "started (spawn 2 demo_after_c) = [0, 1, 2]"
proof -
  have a: "aborted demo_after_c = Some (Failed ''c'' 7)" and s: "started demo_after_c = [0, 1, 2]"
    by code_simp+
  from scheduler_drains_after_failure [OF demo_after_c_reach a] have "started (spawn 2 demo_after_c) = started demo_after_c"
    by simp
  with s show ?thesis by simp
qed

end
