(* ===== verification/Text_Utils.thy ===== *)
theory Text_Utils
  imports Once_Prelude "HOL-Library.Sublist"
begin

text \<open>
  The string operations of Rust's \<open>str\<close> the components share. A \<open>str\<close> is its sequence of
  bytes; the separators are single ASCII bytes, which never occur inside the encoding of
  another character, so that splitting bytes is splitting characters. The section on UTF-8 has
  the characters, their boundaries and white space, and the invariant \<open>is_str\<close> every \<open>str\<close> has.
\<close>

section \<open>Splitting and joining\<close>

fun split_on :: "char \<Rightarrow> string \<Rightarrow> string list" where
  "split_on c [] = [[]]"
| "split_on c (x # xs) =
     (if x = c then [] # split_on c xs
      else case split_on c xs of [] \<Rightarrow> [[x]] | p # ps \<Rightarrow> (x # p) # ps)"

fun join_with :: "string \<Rightarrow> string list \<Rightarrow> string" where
  "join_with sep [] = []"
| "join_with sep [x] = x"
| "join_with sep (x # y # ys) = x @ sep @ join_with sep (y # ys)"

lemma split_on_not_Nil [simp]: "split_on c xs \<noteq> []"
  by (induction xs) (auto split: list.split)

lemma join_split [simp]: "join_with [c] (split_on c xs) = xs"
proof (induction xs)
  case (Cons x xs)
  obtain p ps where ps: "split_on c xs = p # ps" by (cases "split_on c xs") auto
  with Cons show ?case by (cases ps) auto
qed simp

lemma split_on_no_sep: "p \<in> set (split_on c xs) \<Longrightarrow> c \<notin> set p"
proof (induction xs arbitrary: p)
  case (Cons x xs)
  then show ?case by (cases "split_on c xs") (auto split: if_splits)
qed simp

lemma split_on_plain [simp]: "c \<notin> set p \<Longrightarrow> split_on c p = [p]"
  by (induction p) auto

lemma split_on_append_sep: "split_on c (xs @ c # ys) = split_on c xs @ split_on c ys"
proof (induction xs)
  case (Cons x xs)
  then show ?case by (cases "split_on c xs") auto
qed simp

lemma split_join: "ps \<noteq> [] \<Longrightarrow> \<forall>p\<in>set ps. c \<notin> set p \<Longrightarrow> split_on c (join_with [c] ps) = ps"
  by (induction "[c]" ps rule: join_with.induct) (auto simp: split_on_append_sep)

lemma join_with_append:
  "xs \<noteq> [] \<Longrightarrow> ys \<noteq> [] \<Longrightarrow> join_with sep (xs @ ys) = join_with sep xs @ sep @ join_with sep ys"
proof (induction sep xs rule: join_with.induct)
  case (2 sep x)
  then show ?case by (cases ys) auto
qed auto

lemma join_with_Nil_iff: "\<forall>p\<in>set ps. p \<noteq> [] \<Longrightarrow> join_with sep ps = [] \<longleftrightarrow> ps = []"
  by (induction sep ps rule: join_with.induct) auto

lemma set_join_with: "set (join_with sep ps) \<subseteq> \<Union> (set ` set ps) \<union> set sep"
  by (induction sep ps rule: join_with.induct) auto

lemma set_split_on: "p \<in> set (split_on c xs) \<Longrightarrow> set p \<subseteq> set xs"
proof (induction xs arbitrary: p)
  case (Cons x xs)
  then show ?case by (cases "split_on c xs") (fastforce split: if_splits)+
qed simp

text \<open>\<open>split\<close> with a set of separators.\<close>

fun split_any :: "char list \<Rightarrow> string \<Rightarrow> string list" where
  "split_any cs [] = [[]]"
| "split_any cs (x # xs) =
     (if x \<in> set cs then [] # split_any cs xs
      else case split_any cs xs of [] \<Rightarrow> [[x]] | p # ps \<Rightarrow> (x # p) # ps)"

lemma split_any_no_sep: "p \<in> set (split_any cs xs) \<Longrightarrow> set p \<inter> set cs = {}"
proof (induction xs arbitrary: p)
  case (Cons x xs)
  then show ?case by (cases "split_any cs xs") (fastforce split: if_splits)+
qed simp

lemma set_split_any: "p \<in> set (split_any cs xs) \<Longrightarrow> set p \<subseteq> set xs"
proof (induction xs arbitrary: p)
  case (Cons x xs)
  then show ?case by (cases "split_any cs xs") (fastforce split: if_splits)+
qed simp

section \<open>Prefixes and trimming\<close>

definition starts_with :: "string \<Rightarrow> string \<Rightarrow> bool" where
  "starts_with pre s = (take (length pre) s = pre)"

definition ends_with :: "string \<Rightarrow> string \<Rightarrow> bool" where
  "ends_with suf s = starts_with (rev suf) (rev s)"

definition strip_prefix :: "string \<Rightarrow> string \<Rightarrow> string option" where
  "strip_prefix pre s = (if starts_with pre s then Some (drop (length pre) s) else None)"

definition split_once :: "char \<Rightarrow> string \<Rightarrow> (string \<times> string) option" where
  "split_once c s =
     (if c \<in> set s then Some (takeWhile (\<lambda>x. x \<noteq> c) s, tl (dropWhile (\<lambda>x. x \<noteq> c) s)) else None)"

definition trim_matches :: "char \<Rightarrow> string \<Rightarrow> string" where
  "trim_matches c s = rev (dropWhile (\<lambda>x. x = c) (rev (dropWhile (\<lambda>x. x = c) s)))"

lemma starts_with_iff: "starts_with pre s \<longleftrightarrow> (\<exists>rest. s = pre @ rest)"
  by (metis append_eq_conv_conj append_take_drop_id starts_with_def)

lemma ends_with_iff: "ends_with suf s \<longleftrightarrow> (\<exists>rest. s = rest @ suf)"
  unfolding ends_with_def starts_with_iff by (metis rev_append rev_rev_ident)

lemma strip_prefix_Some: "strip_prefix pre s = Some rest \<longleftrightarrow> s = pre @ rest"
  by (auto simp: strip_prefix_def starts_with_def) (metis append_take_drop_id)

lemma split_once_Some: "split_once c s = Some (a, b) \<longleftrightarrow> s = a @ c # b \<and> c \<notin> set a"
proof
  assume h: "split_once c s = Some (a, b)"
  then have c: "c \<in> set s" and ab: "a = takeWhile (\<lambda>x. x \<noteq> c) s" "b = tl (dropWhile (\<lambda>x. x \<noteq> c) s)"
    by (auto simp: split_once_def split: if_splits)
  obtain xs ys where "s = xs @ c # ys" "c \<notin> set xs" using split_list_first [OF c] by blast
  then show "s = a @ c # b \<and> c \<notin> set a" using ab by (simp add: takeWhile_append dropWhile_append)
next
  assume "s = a @ c # b \<and> c \<notin> set a"
  then show "split_once c s = Some (a, b)"
    by (auto simp: split_once_def takeWhile_append dropWhile_append)
qed

section \<open>Decimal numbers\<close>

fun show_nat :: "nat \<Rightarrow> string" where
  "show_nat n = (if n < 10 then [char_of (48 + n)] else show_nat (n div 10) @ [char_of (48 + n mod 10)])"

declare show_nat.simps [simp del]

section \<open>Characters of a text\<close>

text \<open>UTF-8: a byte \<open>10xxxxxx\<close> continues a character, and every other byte starts one. The characters of a text
  are the runs of a starting byte and the continuation bytes after it, as \<open>chars\<close> and \<open>char_indices\<close> give them.\<close>

definition is_continuation :: "char \<Rightarrow> bool" where
  "is_continuation c = (let n = (of_char c :: nat) in 0x80 \<le> n \<and> n < 0xC0)"

function str_chars :: "string \<Rightarrow> string list" where
  "str_chars [] = []"
| "str_chars (c # cs) = (c # takeWhile is_continuation cs) # str_chars (dropWhile is_continuation cs)"
  by pat_completeness auto
termination
  by (relation "measure length") (simp_all add: le_imp_less_Suc length_dropWhile_le)

text \<open>The well-formed encodings of one character: no overlong form, no surrogate, nothing beyond \<open>U+10FFFF\<close>.\<close>

definition utf8_char :: "string \<Rightarrow> bool" where
  "utf8_char x =
     (case map (of_char :: char \<Rightarrow> nat) x of
        [a] \<Rightarrow> a < 0x80
      | [a, b] \<Rightarrow> 0xC2 \<le> a \<and> a \<le> 0xDF \<and> 0x80 \<le> b \<and> b < 0xC0
      | [a, b, c] \<Rightarrow> 0xE0 \<le> a \<and> a \<le> 0xEF \<and> 0x80 \<le> b \<and> b < 0xC0 \<and> 0x80 \<le> c \<and> c < 0xC0
          \<and> (a = 0xE0 \<longrightarrow> 0xA0 \<le> b) \<and> (a = 0xED \<longrightarrow> b \<le> 0x9F)
      | [a, b, c, d] \<Rightarrow> 0xF0 \<le> a \<and> a \<le> 0xF4 \<and> 0x80 \<le> b \<and> b < 0xC0 \<and> 0x80 \<le> c \<and> c < 0xC0 \<and> 0x80 \<le> d \<and> d < 0xC0
          \<and> (a = 0xF0 \<longrightarrow> 0x90 \<le> b) \<and> (a = 0xF4 \<longrightarrow> b \<le> 0x8F)
      | _ \<Rightarrow> False)"

definition code_point :: "string \<Rightarrow> nat" where
  "code_point x =
     (case map (of_char :: char \<Rightarrow> nat) x of
        [a] \<Rightarrow> a
      | [a, b] \<Rightarrow> (a - 0xC0) * 0x40 + (b - 0x80)
      | [a, b, c] \<Rightarrow> (a - 0xE0) * 0x1000 + (b - 0x80) * 0x40 + (c - 0x80)
      | [a, b, c, d] \<Rightarrow> (a - 0xF0) * 0x40000 + (b - 0x80) * 0x1000 + (c - 0x80) * 0x40 + (d - 0x80)
      | _ \<Rightarrow> 0)"

text \<open>The invariant of \<open>str\<close>.\<close>

definition is_str :: "string \<Rightarrow> bool" where
  "is_str s \<longleftrightarrow> list_all utf8_char (str_chars s)"

text \<open>\<open>is_char_boundary\<close>, and \<open>get\<close> with a range.\<close>

definition is_char_boundary :: "string \<Rightarrow> nat \<Rightarrow> bool" where
  "is_char_boundary s i \<longleftrightarrow> (if i < length s then i = 0 \<or> \<not> is_continuation (s ! i) else i = length s)"

definition str_get :: "string \<Rightarrow> nat \<Rightarrow> nat \<Rightarrow> string option" where
  "str_get s a b =
     (if a \<le> b \<and> is_char_boundary s a \<and> is_char_boundary s b then Some (take (b - a) (drop a s)) else None)"

section \<open>White space and case\<close>

text \<open>\<open>char::is_whitespace\<close>: the Unicode property \<open>White_Space\<close>.\<close>

definition is_whitespace :: "string \<Rightarrow> bool" where
  "is_whitespace x \<longleftrightarrow> utf8_char x
     \<and> (let n = code_point x
        in 0x09 \<le> n \<and> n \<le> 0x0D \<or> n = 0x20 \<or> n = 0x85 \<or> n = 0xA0 \<or> n = 0x1680 \<or> 0x2000 \<le> n \<and> n \<le> 0x200A
           \<or> n = 0x2028 \<or> n = 0x2029 \<or> n = 0x202F \<or> n = 0x205F \<or> n = 0x3000)"

definition trim_start :: "string \<Rightarrow> string" where
  "trim_start s = concat (dropWhile is_whitespace (str_chars s))"

definition trim_end :: "string \<Rightarrow> string" where
  "trim_end s = concat (rev (dropWhile is_whitespace (rev (str_chars s))))"

definition trim :: "string \<Rightarrow> string" where
  "trim s = trim_end (trim_start s)"

definition ascii_lower :: "char \<Rightarrow> char" where
  "ascii_lower c = (let n = (of_char c :: nat) in if 65 \<le> n \<and> n \<le> 90 then char_of (n + 32) else c)"

definition is_ascii_alphabetic :: "char \<Rightarrow> bool" where
  "is_ascii_alphabetic c = (let n = (of_char c :: nat) in (65 \<le> n \<and> n \<le> 90) \<or> (97 \<le> n \<and> n \<le> 122))"

definition eq_ignore_ascii_case :: "string \<Rightarrow> string \<Rightarrow> bool" where
  "eq_ignore_ascii_case a b \<longleftrightarrow> map ascii_lower a = map ascii_lower b"

section \<open>Texts, characters and boundaries\<close>

lemma concat_str_chars [simp]: "concat (str_chars s) = s"
  by (induction s rule: str_chars.induct) simp_all

lemma str_chars_append:
  assumes "ys = [] \<or> \<not> is_continuation (hd ys)"
  shows "str_chars (xs @ ys) = str_chars xs @ str_chars ys"
proof (induction xs rule: str_chars.induct)
  case (2 c cs)
  show ?case
  proof (cases "\<forall>x\<in>set cs. is_continuation x")
    case True
    have "takeWhile is_continuation ys = []" "dropWhile is_continuation ys = ys" using assms by (cases ys; simp)+
    then have "str_chars (c # cs @ ys) = (c # cs) # str_chars ys"
      using True by (simp add: takeWhile_append2 dropWhile_append2)
    moreover have "takeWhile is_continuation cs = cs" "dropWhile is_continuation cs = []"
      using True by simp_all
    ultimately show ?thesis by (simp only: append_Cons append_Nil str_chars.simps)
  next
    case False
    then obtain x where "x \<in> set cs" "\<not> is_continuation x" by blast
    then show ?thesis using 2 by (simp add: takeWhile_append1 [of x] dropWhile_append1 [of x])
  qed
qed simp

text \<open>A character as the scanners meet it: a byte that starts one, and continuation bytes.\<close>

definition char_run :: "string \<Rightarrow> bool" where
  "char_run x \<longleftrightarrow> x \<noteq> [] \<and> \<not> is_continuation (hd x) \<and> list_all is_continuation (tl x)"

lemma str_chars_concat: "list_all char_run xs \<Longrightarrow> str_chars (concat xs) = xs"
proof (induction xs)
  case (Cons x xs)
  obtain c cs where x: "x = c # cs" "list_all is_continuation cs" using Cons.prems by (cases x) (auto simp: char_run_def)
  have "concat xs = [] \<or> \<not> is_continuation (hd (concat xs))"
    using Cons.prems by (cases xs) (auto simp: char_run_def hd_append)
  moreover have "str_chars x = [x]"
    using x by (simp add: list_all_iff takeWhile_eq_all_conv [THEN iffD2] dropWhile_eq_Nil_conv [THEN iffD2])
  ultimately show ?case using Cons str_chars_append [of "concat xs" x] by simp
qed simp

lemma utf8_char_run: "utf8_char x \<Longrightarrow> char_run x"
  by (auto simp: utf8_char_def char_run_def is_continuation_def split: list.splits)

lemma is_str_concat: "list_all utf8_char xs \<Longrightarrow> is_str (concat xs)"
proof -
  assume "list_all utf8_char xs"
  moreover from this have "str_chars (concat xs) = xs"
    by (intro str_chars_concat) (auto simp: list_all_iff utf8_char_run)
  ultimately show ?thesis by (simp add: is_str_def)
qed

lemma is_str_Nil [simp]: "is_str []"
  by (simp add: is_str_def)

lemma is_str_append: "ys = [] \<or> \<not> is_continuation (hd ys) \<Longrightarrow> is_str (xs @ ys) \<longleftrightarrow> is_str xs \<and> is_str ys"
  by (simp add: is_str_def str_chars_append)

lemma is_str_hd: "is_str s \<Longrightarrow> s \<noteq> [] \<Longrightarrow> \<not> is_continuation (hd s)"
  by (cases s) (auto simp: is_str_def char_run_def dest: utf8_char_run)

lemma is_str_trim_start: "is_str s \<Longrightarrow> is_str (trim_start s)"
  unfolding trim_start_def is_str_def [of s]
  by (intro is_str_concat) (auto simp: list_all_iff dest: set_dropWhileD)

lemma is_str_trim_end: "is_str s \<Longrightarrow> is_str (trim_end s)"
  unfolding trim_end_def is_str_def [of s]
  by (intro is_str_concat) (auto simp: list_all_iff dest: set_dropWhileD)

lemma is_str_trim: "is_str s \<Longrightarrow> is_str (trim s)"
  by (simp add: trim_def is_str_trim_end is_str_trim_start)

lemma boundary_hd: "is_char_boundary s i \<Longrightarrow> is_str s \<Longrightarrow> drop i s = [] \<or> \<not> is_continuation (hd (drop i s))"
  using is_str_hd [of s] by (cases "i = 0") (auto simp: is_char_boundary_def hd_drop_conv_nth split: if_splits)

lemma is_str_split:
  assumes "is_str s" and "is_char_boundary s i"
  shows "is_str (take i s)" and "is_str (drop i s)"
  using is_str_append [OF boundary_hd [OF assms(2,1)], of "take i s"] assms(1) by simp_all

lemma boundary_drop:
  assumes "is_str s" and "is_char_boundary s a" and "is_char_boundary s b" and "a \<le> b"
  shows "is_char_boundary (drop a s) (b - a)"
  using assms(2-4) by (auto simp: is_char_boundary_def split: if_splits)

lemma is_str_slice:
  assumes "is_str s" and "is_char_boundary s a" and "is_char_boundary s b" and "a \<le> b"
  shows "is_str (take (b - a) (drop a s))"
  using is_str_split(1) [OF is_str_split(2) [OF assms(1,2)] boundary_drop [OF assms]] .

lemma boundary_0 [simp]: "is_char_boundary s 0"
  by (simp add: is_char_boundary_def)

lemma boundary_length [simp]: "is_char_boundary s (length s)"
  by (simp add: is_char_boundary_def)

lemma boundary_le: "is_char_boundary s i \<Longrightarrow> i \<le> length s"
  by (simp add: is_char_boundary_def split: if_splits)

lemma boundary_shift:
  assumes "is_char_boundary s a" and "is_char_boundary (drop a s) n"
  shows "is_char_boundary s (a + n)"
proof (cases "n = 0")
  case False
  have "a \<le> length s" by (rule boundary_le [OF assms(1)])
  then show ?thesis using assms(2) False by (simp add: is_char_boundary_def less_diff_conv add.commute split: if_splits)
qed (use assms(1) in simp)

text \<open>An ASCII byte is a character of its own.\<close>

definition is_ascii :: "char \<Rightarrow> bool" where
  "is_ascii c \<longleftrightarrow> (of_char c :: nat) < 0x80"

lemma ascii_not_continuation: "is_ascii c \<Longrightarrow> \<not> is_continuation c"
  by (simp add: is_ascii_def is_continuation_def Let_def)

lemma ascii_boundary:
  assumes "is_str s" and "i < length s" and "is_ascii (s ! i)"
  shows "is_char_boundary s i" and "is_char_boundary s (i + 1)"
proof -
  show b: "is_char_boundary s i" using assms(2,3) by (simp add: is_char_boundary_def ascii_not_continuation)
  define cs where "cs = drop (i + 1) s"
  have "drop i s = s ! i # cs" using assms(2) by (simp add: Cons_nth_drop_Suc cs_def)
  then have "utf8_char (s ! i # takeWhile is_continuation cs)"
    using is_str_split(2) [OF assms(1) b] by (simp add: is_str_def)
  then have "takeWhile is_continuation cs = []"
    using assms(3) by (auto simp: utf8_char_def is_ascii_def split: list.splits)
  then have "cs = [] \<or> \<not> is_continuation (hd cs)" by (cases cs) (auto split: if_splits)
  then show "is_char_boundary s (i + 1)" using assms(2) by (auto simp: is_char_boundary_def cs_def hd_drop_conv_nth)
qed

lemma is_str_Cons_ascii: "is_ascii c \<Longrightarrow> is_str (c # s) \<longleftrightarrow> is_str s"
proof
  assume c: "is_ascii c"
  then have u: "utf8_char [c]" by (simp add: utf8_char_def is_ascii_def)
  assume "is_str (c # s)"
  then show "is_str s" using is_str_split(2) [of "c # s" 1] ascii_boundary(2) [of "c # s" 0] c by simp
next
  assume c: "is_ascii c"
  assume s: "is_str s"
  have "str_chars [c] = [[c]]" by simp
  then have "is_str [c]" using c by (simp add: is_str_def utf8_char_def is_ascii_def)
  then show "is_str (c # s)" using is_str_append [of s "[c]"] is_str_hd [OF s] s by auto
qed

lemma is_str_ascii: "list_all is_ascii s \<Longrightarrow> is_str s"
  by (induction s) (simp_all add: is_str_Cons_ascii)

end
