(* ===== verification/Workspace_Path.thy ===== *)
theory Workspace_Path
  imports Text_Utils
begin

text \<open>
  Workspace-relative paths: \<open>crates/once-core/src/path.rs\<close>. \<open>Path::components\<close> and
  \<open>Path::join\<close> of the standard library are modelled for the Unix separator.
\<close>

section \<open>Path components\<close>

datatype component = RootDir | CurDir | ParentDir | Normal string

definition body_component :: "string \<Rightarrow> component list" where
  "body_component seg =
     (if seg = '''' \<or> seg = ''.'' then [] else if seg = ''..'' then [ParentDir] else [Normal seg])"

definition path_components :: "string \<Rightarrow> component list" where
  "path_components raw =
     (if starts_with ''/'' raw
      then RootDir # concat (map body_component (split_on CHR ''/'' (tl raw)))
      else (if hd (split_on CHR ''/'' raw) = ''.'' then [CurDir] else [])
           @ concat (map body_component (split_on CHR ''/'' raw)))"

definition is_absolute :: "string \<Rightarrow> bool" where
  "is_absolute raw = starts_with ''/'' raw"

definition path_join :: "string \<Rightarrow> string \<Rightarrow> string" where
  "path_join base rel =
     (if is_absolute rel then rel
      else if base = [] \<or> ends_with ''/'' base then base @ rel
      else base @ ''/'' @ rel)"

section \<open>\<open>WorkspacePath\<close>\<close>

datatype workspace_path_error = Absolute string | Escape string | NonUtf8 string

type_synonym workspace_path = string

definition path_root :: workspace_path where
  "path_root = []"

text \<open>A component of a \<open>String\<close> is always valid UTF-8, so \<open>to_str\<close> succeeds.\<close>

fun push_components :: "string \<Rightarrow> component list \<Rightarrow> string list \<Rightarrow> workspace_path_error + string list" where
  "push_components raw [] parts = Inr parts"
| "push_components raw (Normal s # cs) parts = push_components raw cs (parts @ [s])"
| "push_components raw (CurDir # cs) parts = push_components raw cs parts"
| "push_components raw (ParentDir # cs) parts = Inl (Escape raw)"
| "push_components raw (RootDir # cs) parts = Inl (Escape raw)"

definition try_from :: "string \<Rightarrow> workspace_path_error + workspace_path" where
  "try_from raw =
     (if is_absolute raw then Inl (Absolute raw)
      else rbind (push_components raw (path_components raw) []) (\<lambda>parts. Inr (join_with ''/'' parts)))"

definition resolve :: "workspace_path \<Rightarrow> string \<Rightarrow> string" where
  "resolve p workspace = (if p = [] then workspace else path_join workspace p)"

definition from_package_relative :: "string \<Rightarrow> string \<Rightarrow> workspace_path_error + workspace_path" where
  "from_package_relative package src =
     rbind (try_from src)
       (\<lambda>src. try_from (if package = [] then src else package @ ''/'' @ src))"

section \<open>Lemmas\<close>

text \<open>The segments a normalized path is made of.\<close>

definition plain_segment :: "string \<Rightarrow> bool" where
  "plain_segment seg \<longleftrightarrow> seg \<noteq> '''' \<and> seg \<noteq> ''.'' \<and> seg \<noteq> ''..'' \<and> CHR ''/'' \<notin> set seg"

definition segments :: "string \<Rightarrow> string list" where
  "segments raw = filter (\<lambda>seg. seg \<noteq> '''' \<and> seg \<noteq> ''.'') (split_on CHR ''/'' raw)"

lemma push_components_body:
  "push_components raw (concat (map body_component segs)) parts =
     (if ''..'' \<in> set segs then Inl (Escape raw)
      else Inr (parts @ filter (\<lambda>seg. seg \<noteq> '''' \<and> seg \<noteq> ''.'') segs))"
  by (induction segs arbitrary: parts) (auto simp: body_component_def)

lemma try_from_eq:
  "try_from raw =
     (if starts_with ''/'' raw then Inl (Absolute raw)
      else if ''..'' \<in> set (split_on CHR ''/'' raw) then Inl (Escape raw)
      else Inr (join_with ''/'' (segments raw)))"
  by (simp add: try_from_def is_absolute_def path_components_def push_components_body segments_def result_simps)

lemma segments_plain: "''..'' \<notin> set (split_on CHR ''/'' raw) \<Longrightarrow> seg \<in> set (segments raw) \<Longrightarrow> plain_segment seg"
  by (auto simp: segments_def plain_segment_def dest: split_on_no_sep)

lemma segments_join:
  assumes "\<forall>seg\<in>set segs. plain_segment seg"
  shows "segments (join_with ''/'' segs) = segs"
    and "\<not> starts_with ''/'' (join_with ''/'' segs)"
    and "''..'' \<notin> set (split_on CHR ''/'' (join_with ''/'' segs))"
proof -
  have sp: "split_on CHR ''/'' (join_with ''/'' segs) = segs" if "segs \<noteq> []"
    using split_join [OF that, of "CHR ''/''"] assms by (simp add: plain_segment_def)
  show "segments (join_with ''/'' segs) = segs"
  proof (cases "segs = []")
    case False
    then show ?thesis using assms unfolding segments_def sp [OF False]
      by (intro filter_True) (simp add: plain_segment_def)
  qed (simp add: segments_def)
  show "''..'' \<notin> set (split_on CHR ''/'' (join_with ''/'' segs))"
  proof (cases "segs = []")
    case False
    then show ?thesis using assms unfolding sp [OF False] by (auto simp: plain_segment_def)
  qed simp
  show "\<not> starts_with ''/'' (join_with ''/'' segs)"
  proof (cases segs)
    case (Cons a as)
    then obtain x xs where a: "a = x # xs" "x \<noteq> CHR ''/''"
      using assms by (cases a) (auto simp: plain_segment_def)
    then have "hd (join_with ''/'' segs) = x" using Cons by (cases as) simp_all
    then show ?thesis using a(2) by (auto simp: starts_with_iff)
  qed (simp add: starts_with_def)
qed

lemma try_from_join:
  "\<forall>seg\<in>set segs. plain_segment seg \<Longrightarrow> try_from (join_with ''/'' segs) = Inr (join_with ''/'' segs)"
  by (simp add: try_from_eq segments_join)

lemma try_from_Inr:
  assumes "try_from raw = Inr p"
  shows "p = join_with ''/'' (segments raw)" and "\<forall>seg\<in>set (segments raw). plain_segment seg"
  using assms segments_plain by (auto simp: try_from_eq split: if_splits)

lemma concat_body_plain:
  "\<forall>seg\<in>set segs. plain_segment seg \<Longrightarrow> concat (map body_component segs) = map Normal segs"
  by (induction segs) (auto simp: body_component_def plain_segment_def)

lemma body_append_slash:
  "concat (map body_component (split_on CHR ''/'' (xs @ ''/'' @ ys))) =
     concat (map body_component (split_on CHR ''/'' xs)) @ concat (map body_component (split_on CHR ''/'' ys))"
  by (simp add: split_on_append_sep)

lemma components_append_slash:
  assumes "xs \<noteq> []"
  shows "path_components (xs @ ''/'' @ ys) =
    path_components xs @ concat (map body_component (split_on CHR ''/'' ys))"
proof (cases "starts_with ''/'' xs")
  case True
  then obtain t where "xs = CHR ''/'' # t" by (auto simp: starts_with_iff)
  then show ?thesis using body_append_slash [of t ys] by (simp add: path_components_def starts_with_def)
next
  case False
  then have "\<not> starts_with ''/'' (xs @ ''/'' @ ys)" using assms by (cases xs) (auto simp: starts_with_def)
  moreover have "hd (split_on CHR ''/'' (xs @ ''/'' @ ys)) = hd (split_on CHR ''/'' xs)"
    by (simp add: split_on_append_sep)
  ultimately show ?thesis using False body_append_slash [of xs ys] by (simp add: path_components_def)
qed

lemma components_trailing_slash: "xs \<noteq> [] \<Longrightarrow> path_components (xs @ ''/'') = path_components xs"
  using components_append_slash [of xs "[]"] by (simp add: body_component_def)

lemma components_plain:
  assumes "\<forall>seg\<in>set segs. plain_segment seg"
  shows "path_components (join_with ''/'' segs) = map Normal segs"
    and "concat (map body_component (split_on CHR ''/'' (join_with ''/'' segs))) = map Normal segs"
proof -
  have sp: "split_on CHR ''/'' (join_with ''/'' segs) = (if segs = [] then [''''] else segs)"
    using split_join [of segs "CHR ''/''"] assms by (simp add: plain_segment_def)
  show body: "concat (map body_component (split_on CHR ''/'' (join_with ''/'' segs))) = map Normal segs"
    unfolding sp using concat_body_plain [OF assms] by (simp add: body_component_def)
  have "hd (split_on CHR ''/'' (join_with ''/'' segs)) \<noteq> ''.''"
    unfolding sp using assms by (cases segs) (auto simp: plain_segment_def)
  then show "path_components (join_with ''/'' segs) = map Normal segs"
    using segments_join(2) [OF assms] body by (simp add: path_components_def)
qed

lemma components_join:
  assumes "\<forall>seg\<in>set segs. plain_segment seg" and "segs \<noteq> []"
  shows "path_components (path_join base (join_with ''/'' segs)) = path_components base @ map Normal segs"
proof -
  let ?p = "join_with ''/'' segs"
  have rel: "\<not> is_absolute ?p" using segments_join(2) [OF assms(1)] by (simp add: is_absolute_def)
  consider "base = []" | "base = ''/''" | b where "b \<noteq> []" "base = b @ ''/''" | "base \<noteq> []" "\<not> ends_with ''/'' base"
    unfolding ends_with_iff by (metis append_Nil)
  then show ?thesis
  proof cases
    case 1
    then show ?thesis using rel components_plain(1) [OF assms(1)]
      by (simp add: path_join_def path_components_def starts_with_def body_component_def)
  next
    case 2
    then show ?thesis using rel components_plain(2) [OF assms(1)]
      by (simp add: path_join_def path_components_def starts_with_def ends_with_def body_component_def)
  next
    case 3
    then have "path_join base ?p = b @ ''/'' @ ?p" using rel by (auto simp: path_join_def ends_with_iff)
    then show ?thesis
      using 3 components_append_slash [of b ?p] components_trailing_slash [of b] components_plain(2) [OF assms(1)]
      by simp
  next
    case 4
    then show ?thesis
      using rel components_append_slash [of base ?p] components_plain(2) [OF assms(1)] by (simp add: path_join_def)
  qed
qed

section \<open>Properties\<close>

text \<open>C21. Normalization is exact and stable: an absolute path and a path with a \<open>..\<close> segment are
  rejected with their errors and nothing else is; the accepted path is the slash-join of the
  segments other than the empty ones and \<open>.\<close>, its components are those segments, and
  normalizing it again returns it unchanged.\<close>

theorem workspace_path_normal:
  "(if starts_with ''/'' raw then try_from raw = Inl (Absolute raw)
    else if ''..'' \<in> set (split_on CHR ''/'' raw) then try_from raw = Inl (Escape raw)
    else \<exists>p. try_from raw = Inr p \<and> p = join_with ''/'' (segments raw)
       \<and> path_components p = map Normal (segments raw) \<and> try_from p = Inr p)"
proof (cases "starts_with ''/'' raw \<or> ''..'' \<in> set (split_on CHR ''/'' raw)")
  case False
  then have "\<forall>seg\<in>set (segments raw). plain_segment seg" using segments_plain by blast
  then show ?thesis using False components_plain(1) try_from_join by (simp add: try_from_eq)
qed (auto simp: try_from_eq)

text \<open>A resolved workspace path stays inside the workspace: its components are the workspace's own
  followed by the path's plain segments, with no parent or root component added.\<close>

theorem resolve_stays_inside:
  assumes "try_from raw = Inr p"
  shows "path_components (resolve p workspace) = path_components workspace @ map Normal (segments raw)
    \<and> (\<forall>seg\<in>set (segments raw). plain_segment seg)"
proof (cases "segments raw = []")
  case True
  then show ?thesis using try_from_Inr [OF assms] by (simp add: resolve_def)
next
  case False
  note t = try_from_Inr [OF assms]
  have "p \<noteq> []" using t False join_with_Nil_iff [of "segments raw" "''/''"] by (auto simp: plain_segment_def)
  then show ?thesis using components_join [OF t(2) False, of workspace] t by (simp add: resolve_def)
qed

theorem resolve_stays_inside_witness:
  "path_components (resolve ''src/a.rs'' ''/ws'') = [RootDir, Normal ''ws'', Normal ''src'', Normal ''a.rs'']"
proof -
  have "try_from ''./src//a.rs'' = Inr ''src/a.rs''" by code_simp
  from resolve_stays_inside [OF this, of "''/ws''"] show ?thesis
    by (simp add: segments_def path_components_def starts_with_def body_component_def)
qed

text \<open>A package-relative source lands inside its package: when the join is accepted, the segments of
  the result are those of the package followed by those of the source.\<close>

theorem from_package_relative_inside:
  assumes "from_package_relative package src = Inr p"
  shows "segments p = segments package @ segments src \<and> (\<forall>seg\<in>set (segments p). plain_segment seg)"
proof -
  obtain s where s: "try_from src = Inr s" "try_from (if package = [] then s else package @ ''/'' @ s) = Inr p"
    using assms by (auto simp: from_package_relative_def rbind_def split: sum.splits)
  have ss: "segments s = segments src" using try_from_Inr [OF s(1)] segments_join(1) by simp
  have "segments (if package = [] then s else package @ ''/'' @ s) = segments package @ segments s"
    by (simp add: segments_def split_on_append_sep)
  then show ?thesis using try_from_Inr [OF s(2)] segments_join(1) ss by simp
qed

theorem from_package_relative_inside_witness: "segments ''pkg/core/src/a.rs'' = [''pkg'', ''core'', ''src'', ''a.rs'']"
proof -
  have "from_package_relative ''pkg/core'' ''src/./a.rs'' = Inr ''pkg/core/src/a.rs''" by code_simp
  from from_package_relative_inside [OF this] show ?thesis by (simp add: segments_def)
qed

end
