(* ===== verification/Target_Ref.thy ===== *)
theory Target_Ref
  imports Workspace_Path
begin

text \<open>
  Target references: \<open>crates/once-frontend/src/target_ref.rs\<close>. A reference is resolved
  against the project root, or against a package when it starts with a dot segment; every
  malformed reference is reported with a suggested spelling.
\<close>

section \<open>Definitions\<close>

datatype target_id_error =
  Empty
| InvalidName string
| BazelSyntax string string
| Colon string string
| AbsoluteRef string string
| EscapesRoot string
| EmptySegment string string
| CurrentDirOutsideProject string string

definition backslash :: char where
  "backslash = CHR 0x5C"

definition cleanup_suggestion :: "string \<Rightarrow> string" where
  "cleanup_suggestion raw =
     (let cleaned = join_with ''/''
            (filter (\<lambda>segment. segment \<noteq> '''' \<and> segment \<noteq> ''.'' \<and> segment \<noteq> ''..'')
              (concat (map (split_any [CHR '':'', backslash])
                 (split_on CHR ''/'' (trim_matches CHR ''/'' raw)))))
      in if cleaned = '''' then ''target-name'' else cleaned)"

definition target_id :: "string \<Rightarrow> string \<Rightarrow> string" where
  "target_id package name = (if package = '''' then name else package @ ''/'' @ name)"

definition validate_target_name :: "string \<Rightarrow> target_id_error + unit" where
  "validate_target_name name =
     (if name = '''' \<or> name = ''.'' \<or> name = ''..''
         \<or> (\<exists>c\<in>set name. c \<in> set [CHR ''/'', backslash, CHR '':''])
      then Inl (InvalidName name) else Inr ())"

definition bazel_suggestion :: "string \<Rightarrow> string option" where
  "bazel_suggestion raw =
     (case strip_prefix '':'' raw of
        Some name \<Rightarrow> Some name
      | None \<Rightarrow>
          (case strip_prefix ''//'' raw of
             None \<Rightarrow> None
           | Some rest \<Rightarrow>
               (case split_once CHR '':'' rest of
                  None \<Rightarrow> None
                | Some (package, name) \<Rightarrow>
                    if package = '''' then Some name else Some (package @ ''/'' @ name))))"

definition validate_raw :: "string \<Rightarrow> target_id_error + unit" where
  "validate_raw raw =
     (if raw = '''' then Inl Empty
      else case bazel_suggestion raw of
             Some suggestion \<Rightarrow> Inl (BazelSyntax raw suggestion)
           | None \<Rightarrow>
               if CHR '':'' \<in> set raw then Inl (Colon raw (cleanup_suggestion raw))
               else if starts_with ''/'' raw then Inl (AbsoluteRef raw (cleanup_suggestion raw))
               else Inr ())"

definition validate_segment :: "string \<Rightarrow> string \<Rightarrow> target_id_error + unit" where
  "validate_segment raw segment =
     (if \<exists>c\<in>set segment. c \<in> set [backslash, CHR '':''] then Inl (Colon raw (cleanup_suggestion raw))
      else Inr ())"

fun normalize_segments :: "string \<Rightarrow> string list \<Rightarrow> string list \<Rightarrow> target_id_error + string list" where
  "normalize_segments raw [] out = Inr out"
| "normalize_segments raw (segment # segs) out =
     (if segment = '''' then Inl (EmptySegment raw (cleanup_suggestion raw))
      else if segment = ''.'' then normalize_segments raw segs out
      else if segment = ''..'' then
        (if out = [] then Inl (EscapesRoot raw) else normalize_segments raw segs (butlast out))
      else rbind (validate_segment raw segment) (\<lambda>_. normalize_segments raw segs (out @ [segment])))"

definition normalize_from :: "string list \<Rightarrow> string \<Rightarrow> target_id_error + string" where
  "normalize_from base raw =
     rbind (normalize_segments raw (split_on CHR ''/'' raw) base)
       (\<lambda>out. if out = [] then Inl Empty else Inr (join_with ''/'' out))"

definition normalize_manifest_target :: "string \<Rightarrow> string \<Rightarrow> target_id_error + string" where
  "normalize_manifest_target package raw =
     rbind (validate_raw raw) (\<lambda>_.
       if starts_with ''./'' raw \<or> starts_with ''../'' raw
       then normalize_from (filter (\<lambda>part. part \<noteq> '''') (split_on CHR ''/'' package)) raw
       else normalize_from [] raw)"

text \<open>\<open>Path::strip_prefix\<close> compares components; \<open>as_os_str\<close> prints one.\<close>

fun strip_components :: "component list \<Rightarrow> component list \<Rightarrow> component list option" where
  "strip_components [] cs = Some cs"
| "strip_components (p # ps) (c # cs) = (if p = c then strip_components ps cs else None)"
| "strip_components (p # ps) [] = None"

fun as_os_str :: "component \<Rightarrow> string" where
  "as_os_str RootDir = ''/''"
| "as_os_str CurDir = ''.''"
| "as_os_str ParentDir = ''..''"
| "as_os_str (Normal s) = s"

definition component_names :: "component list \<Rightarrow> string list" where
  "component_names cs =
     concat (map (\<lambda>value. filter (\<lambda>part. part \<noteq> '''') (split_on CHR ''/'' value))
       (filter (\<lambda>value. \<not> (value = '''' \<or> value = ''.'')) (map as_os_str cs)))"

definition current_package :: "string \<Rightarrow> string \<Rightarrow> target_id_error + string list" where
  "current_package workspace_root current_dir =
     (case strip_components (path_components workspace_root) (path_components current_dir) of
        None \<Rightarrow> Inl (CurrentDirOutsideProject current_dir workspace_root)
      | Some rest \<Rightarrow> Inr (component_names rest))"

definition normalize_cli_target_from :: "string \<Rightarrow> string \<Rightarrow> string \<Rightarrow> target_id_error + string" where
  "normalize_cli_target_from workspace_root current_dir raw =
     rbind (validate_raw raw) (\<lambda>_.
       if starts_with ''./'' raw \<or> starts_with ''../'' raw
       then rbind (current_package workspace_root current_dir) (\<lambda>package. normalize_from package raw)
       else normalize_from [] raw)"

text \<open>The process's current directory is read from the environment: \<open>None\<close> when that fails.\<close>

definition normalize_cli_target :: "string option \<Rightarrow> string \<Rightarrow> string \<Rightarrow> target_id_error + string" where
  "normalize_cli_target env_dir workspace_root raw =
     (case env_dir of
        None \<Rightarrow> Inl Empty
      | Some current_dir \<Rightarrow> normalize_cli_target_from workspace_root current_dir raw)"

section \<open>Canonical ids\<close>

definition target_segment :: "string \<Rightarrow> bool" where
  "target_segment seg \<longleftrightarrow> plain_segment seg \<and> backslash \<notin> set seg \<and> CHR '':'' \<notin> set seg"

definition canonical_id :: "string \<Rightarrow> bool" where
  "canonical_id s \<longleftrightarrow> (\<forall>seg\<in>set (split_on CHR ''/'' s). target_segment seg)"

lemma canonical_join:
  assumes "\<forall>seg\<in>set segs. target_segment seg" and "segs \<noteq> []"
  shows "canonical_id (join_with ''/'' segs)" and "split_on CHR ''/'' (join_with ''/'' segs) = segs"
  using assms split_join [of segs "CHR ''/''"] by (simp_all add: canonical_id_def target_segment_def plain_segment_def)

lemma normalize_segments_target:
  assumes "normalize_segments raw segs out = Inr out'" and "\<forall>seg\<in>set out. target_segment seg"
    and "\<forall>seg\<in>set segs. CHR ''/'' \<notin> set seg"
  shows "\<forall>seg\<in>set out'. target_segment seg"
  using assms
proof (induction raw segs out arbitrary: out' rule: normalize_segments.induct)
  case (2 raw segment segs out)
  show ?case
  proof (cases "segment = '''' \<or> segment = ''.'' \<or> segment = ''..''")
    case True
    with 2 show ?thesis by (auto split: if_splits dest: in_set_butlastD)
  next
    case False
    with "2.prems" have v: "validate_segment raw segment = Inr ()"
      "normalize_segments raw segs (out @ [segment]) = Inr out'"
      by (auto simp: rbind_def split: sum.splits)
    then have "target_segment segment" using False "2.prems"(3)
      by (auto simp: validate_segment_def target_segment_def plain_segment_def split: if_splits)
    with False v "2.IH"(3) [of "()"] "2.prems" show ?thesis by (auto simp: result_simps)
  qed
qed simp

lemma normalize_segments_canonical:
  "\<forall>seg\<in>set segs. target_segment seg \<Longrightarrow> normalize_segments raw segs out = Inr (out @ segs)"
proof (induction segs arbitrary: out)
  case (Cons seg segs)
  then have "validate_segment raw seg = Inr ()" "seg \<noteq> ''''" "seg \<noteq> ''.''" "seg \<noteq> ''..''"
    by (auto simp: validate_segment_def target_segment_def plain_segment_def)
  with Cons show ?case by (simp add: result_simps)
qed simp

lemma normalize_from_target:
  assumes "normalize_from base raw = Inr s" and "\<forall>seg\<in>set base. target_segment seg"
  shows "canonical_id s"
proof -
  obtain out where out: "normalize_segments raw (split_on CHR ''/'' raw) base = Inr out" "out \<noteq> []"
      "s = join_with ''/'' out"
    using assms(1) by (auto simp: normalize_from_def rbind_def split: sum.splits if_splits)
  then show ?thesis using normalize_segments_target [OF out(1) assms(2)] split_on_no_sep canonical_join(1) by blast
qed

lemma canonical_chars:
  assumes "canonical_id s"
  shows "s \<noteq> ''''" and "CHR '':'' \<notin> set s" and "\<not> starts_with ''/'' s"
    and "\<not> starts_with ''./'' s" and "\<not> starts_with ''../'' s"
proof -
  let ?segs = "split_on CHR ''/'' s"
  have segs: "\<forall>seg\<in>set ?segs. target_segment seg" using assms by (simp add: canonical_id_def)
  show "s \<noteq> ''''"
  proof
    assume "s = ''''"
    with segs have "target_segment ''''" by simp
    then show False by (simp add: target_segment_def plain_segment_def)
  qed
  have "set s \<subseteq> \<Union> (set ` set ?segs) \<union> {CHR ''/''}" using set_join_with [of "''/''" ?segs] by simp
  moreover have "CHR '':'' \<notin> \<Union> (set ` set ?segs)" using segs unfolding target_segment_def by blast
  ultimately show "CHR '':'' \<notin> set s" by auto
  have dots: "\<not> (\<exists>rest. s = seg @ CHR ''/'' # rest)" if "\<not> target_segment seg" "CHR ''/'' \<notin> set seg" for seg
  proof
    assume "\<exists>rest. s = seg @ CHR ''/'' # rest"
    then have "seg \<in> set ?segs" using that(2) by (auto simp: split_on_append_sep)
    with segs that(1) show False by blast
  qed
  show "\<not> starts_with ''/'' s" "\<not> starts_with ''./'' s" "\<not> starts_with ''../'' s"
    using dots [of "''''"] dots [of "''.''"] dots [of "''..''"]
    by (auto simp: starts_with_iff target_segment_def plain_segment_def)
qed

lemma canonical_valid: "canonical_id s \<Longrightarrow> validate_raw s = Inr ()"
  using canonical_chars [of s]
  by (auto simp: validate_raw_def bazel_suggestion_def strip_prefix_def starts_with_iff split_once_def
      split: option.split)

lemma canonical_normalizes:
  assumes "canonical_id s"
  shows "normalize_from [] s = Inr s"
  using normalize_segments_canonical [of "split_on CHR ''/'' s" s "[]"] assms
  by (simp add: normalize_from_def canonical_id_def result_simps)

lemma set_trim_matches: "set (trim_matches c s) \<subseteq> set s"
  unfolding trim_matches_def by (metis set_dropWhileD set_rev subset_iff)

lemma canonical_plain: "target_segment seg \<Longrightarrow> canonical_id seg"
  by (simp add: canonical_id_def target_segment_def plain_segment_def)

lemma canonical_append:
  "canonical_id package \<Longrightarrow> canonical_id name \<Longrightarrow> canonical_id (package @ ''/'' @ name)"
  by (auto simp: canonical_id_def split_on_append_sep)

lemma valid_name_segment: "validate_target_name name = Inr () \<longleftrightarrow> target_segment name"
  by (auto simp: validate_target_name_def target_segment_def plain_segment_def)

section \<open>Properties\<close>

text \<open>C36. Canonical ids are fixed points: an id whose slash-separated segments are all plain (non-empty,
  no dot segment, no backslash, no colon) is accepted and returned unchanged, from every package
  and from every current directory.\<close>

theorem canonical_id_fixed:
  assumes "canonical_id s"
  shows "normalize_manifest_target package s = Inr s \<and> normalize_cli_target_from root cwd s = Inr s"
  using canonical_valid [OF assms] canonical_normalizes [OF assms] canonical_chars(4,5) [OF assms]
  by (simp add: normalize_manifest_target_def normalize_cli_target_from_def result_simps)

theorem canonical_id_fixed_witness:
  "normalize_manifest_target ''apps/ios'' ''libs/core/Core'' = Inr ''libs/core/Core''"
proof -
  have "canonical_id ''libs/core/Core''" by code_simp
  from canonical_id_fixed [OF this] show ?thesis by blast
qed

text \<open>Normalization only produces canonical ids, so it is idempotent: a reference accepted in the
  root package or in a package with a canonical name yields an id that every later
  normalization returns unchanged.\<close>

theorem normalize_manifest_canonical:
  assumes "normalize_manifest_target package raw = Inr s" and "package = '''' \<or> canonical_id package"
  shows "canonical_id s \<and> normalize_manifest_target package s = Inr s"
proof -
  have base: "\<forall>seg\<in>set (filter (\<lambda>part. part \<noteq> '''') (split_on CHR ''/'' package)). target_segment seg"
    using assms(2) by (auto simp: canonical_id_def)
  have "canonical_id s"
    using assms(1) normalize_from_target [OF _ base] normalize_from_target [of "[]"]
    by (auto simp: normalize_manifest_target_def rbind_def split: sum.splits if_splits)
  then show ?thesis
    using canonical_valid canonical_normalizes canonical_chars(4,5)
    by (simp add: normalize_manifest_target_def result_simps)
qed

theorem normalize_manifest_canonical_witness: "canonical_id ''libs/Core''"
proof -
  have "normalize_manifest_target ''libs/app'' ''../Core'' = Inr ''libs/Core''" "canonical_id ''libs/app''"
    by code_simp+
  with normalize_manifest_canonical [of "''libs/app''" "''../Core''" "''libs/Core''"] show ?thesis by blast
qed

text \<open>Suggestions can be followed: whatever the malformed reference, the cleaned-up spelling
  reported with a colon, an absolute path or an empty segment is a canonical id, which
  normalizes to itself.\<close>

theorem cleanup_suggestion_canonical:
  "canonical_id (cleanup_suggestion raw)
    \<and> normalize_manifest_target package (cleanup_suggestion raw) = Inr (cleanup_suggestion raw)"
proof -
  define segs where "segs = filter (\<lambda>segment. segment \<noteq> '''' \<and> segment \<noteq> ''.'' \<and> segment \<noteq> ''..'')
      (concat (map (split_any [CHR '':'', backslash]) (split_on CHR ''/'' (trim_matches CHR ''/'' raw))))"
  have segs: "\<forall>seg\<in>set segs. target_segment seg"
  proof
    fix seg assume "seg \<in> set segs"
    then obtain q where q: "q \<in> set (split_on CHR ''/'' (trim_matches CHR ''/'' raw))"
        "seg \<in> set (split_any [CHR '':'', backslash] q)"
      and plain: "seg \<noteq> ''''" "seg \<noteq> ''.''" "seg \<noteq> ''..''"
      unfolding segs_def by (simp only: set_filter set_concat set_map) blast
    have "CHR ''/'' \<notin> set seg" using split_on_no_sep [OF q(1)] set_split_any [OF q(2)] by blast
    with split_any_no_sep [OF q(2)] plain show "target_segment seg"
      by (simp add: target_segment_def plain_segment_def)
  qed
  have eq: "cleanup_suggestion raw = (if join_with ''/'' segs = '''' then ''target-name'' else join_with ''/'' segs)"
    unfolding cleanup_suggestion_def segs_def Let_def ..
  have "canonical_id (cleanup_suggestion raw)"
  proof (cases "segs = []")
    case True
    have "canonical_id ''target-name''" by code_simp
    with True show ?thesis by (simp only: eq join_with.simps simp_thms if_True)
  next
    case False
    have "join_with ''/'' segs \<noteq> ''''"
      using segs False join_with_Nil_iff [of segs "''/''"] by (simp add: target_segment_def plain_segment_def)
    with canonical_join(1) [OF segs False] show ?thesis by (simp only: eq simp_thms if_False)
  qed
  then show ?thesis
    using canonical_valid canonical_normalizes canonical_chars(4,5)
    by (simp add: normalize_manifest_target_def result_simps)
qed

text \<open>Declared targets are addressable: a valid target name in the root package or in a package with
  a canonical name gives an id that normalizes to itself from any package, and that the local
  reference \<open>./name\<close> written in its own package resolves to.\<close>

theorem target_id_addressable:
  assumes "validate_target_name name = Inr ()" and "package = '''' \<or> canonical_id package"
  shows "normalize_manifest_target other (target_id package name) = Inr (target_id package name)
    \<and> normalize_manifest_target package (''./'' @ name) = Inr (target_id package name)"
proof -
  have name: "target_segment name" using assms(1) valid_name_segment by blast
  have id: "canonical_id (target_id package name)"
    using assms(2) canonical_append canonical_plain [OF name] by (auto simp: target_id_def)
  let ?base = "filter (\<lambda>part. part \<noteq> '''') (split_on CHR ''/'' package)"
  have base: "?base = (if package = '''' then [] else split_on CHR ''/'' package)"
    using assms(2) by (auto simp: canonical_id_def target_segment_def plain_segment_def intro!: filter_True)
  have "normalize_segments (''./'' @ name) (split_on CHR ''/'' (''./'' @ name)) ?base = Inr (?base @ [name])"
    using normalize_segments_canonical [of "[name]" "''./'' @ name" ?base] name
    by (simp add: target_segment_def plain_segment_def)
  moreover have "join_with ''/'' (?base @ [name]) = target_id package name"
    unfolding base by (simp add: target_id_def join_with_append)
  ultimately have "normalize_from ?base (''./'' @ name) = Inr (target_id package name)"
    by (simp add: normalize_from_def result_simps)
  moreover have "validate_raw (''./'' @ name) = Inr ()"
    using name by (auto simp: validate_raw_def bazel_suggestion_def strip_prefix_def starts_with_def
        target_segment_def split_once_def split: option.split)
  ultimately show ?thesis
    using canonical_valid [OF id] canonical_normalizes [OF id] canonical_chars(4,5) [OF id]
    by (simp add: normalize_manifest_target_def result_simps starts_with_def)
qed

theorem target_id_addressable_witness:
  "normalize_manifest_target ''apps/ios'' ''./App'' = Inr ''apps/ios/App''"
proof -
  have "validate_target_name ''App'' = Inr ()" "canonical_id ''apps/ios''" by code_simp+
  with target_id_addressable [of "''App''" "''apps/ios''"] show ?thesis by (simp add: target_id_def)
qed

text \<open>A bare colon is answered with an empty suggested spelling.\<close>

theorem bare_colon_suggestion: "validate_raw '':'' = Inl (BazelSyntax '':'' '''')"
  by code_simp

end
