(* ===== verification/Event_Buffer.thy ===== *)
theory Event_Buffer
  imports Once_Prelude
begin

text \<open>
  Run events and the ring of unacknowledged ones:
  \<open>crates/once-events-client/src/buffer.rs\<close>. The protobuf messages come from generated
  code: of a payload only what the client looks at is modelled, the rest is an opaque
  \<open>'x\<close>, and the encoded length of an event is the argument \<open>elen\<close>.
\<close>

section \<open>Events\<close>

record log_chunk =
  scope :: string
  stream :: int
  offset :: int
  chunk_bytes :: "nat list"

record action_package =
  ecosystem :: string
  package_name :: string
  package_version :: string
  revision :: string
  package_digest :: string
  origin :: string

record action_platform =
  platform_scheme :: string
  platform_id :: string
  platform_label :: string
  platform_usage :: string

record action_context =
  context_key :: string
  context_value :: string
  context_label :: string

record action_presentation =
  meta_package :: "action_package option"
  platforms :: "action_platform list"
  meta_context :: "action_context list"

record 'x action_completed =
  source_files :: "string list"
  source_file_statuses :: "int list"
  presentation :: "action_presentation option"
  display_name :: "string option"
  action_rest :: 'x

datatype 'x payload =
  RunStarted 'x
| RunCompleted 'x
| RunFinalizing nat
| LogChunk log_chunk
| ActionCompleted "'x action_completed"
| OtherPayload 'x

record 'x run_event =
  ev_seq :: nat
  epoch_ms :: int
  mono_ns :: int
  ev_payload :: "'x payload option"

record 'x pending_event =
  seq :: nat
  event :: "'x run_event"

section \<open>The ring\<close>

datatype ring_push_outcome = Accepted | OverflowDropped nat nat | OversizedDropped nat

record 'x ring =
  events :: "'x pending_event list"
  ordinary_capacity :: nat
  max_encoded_bytes :: nat
  encoded_bytes :: nat
  finalizing_slot :: "'x pending_event option"
  terminal_slot :: "'x pending_event option"

definition with_byte_capacity :: "nat \<Rightarrow> nat \<Rightarrow> 'x ring" where
  "with_byte_capacity cap max_bytes =
     \<lparr>events = [], ordinary_capacity = max cap 1, max_encoded_bytes = max_bytes, encoded_bytes = 0,
      finalizing_slot = None, terminal_slot = None\<rparr>"

definition ring_new :: "nat \<Rightarrow> 'x ring" where
  "ring_new cap = with_byte_capacity cap (8 * 1024 * 1024)"

text \<open>
  The dropping loop: \<open>None\<close> is the panic of \<open>expect\<close> on an empty queue, or of the
  subtraction below zero.
\<close>

fun drop_oldest ::
  "('x run_event \<Rightarrow> nat) \<Rightarrow> nat \<Rightarrow> nat \<Rightarrow> nat \<Rightarrow> 'x pending_event list \<Rightarrow> nat \<Rightarrow> nat \<Rightarrow> nat
   \<Rightarrow> ('x pending_event list \<times> nat \<times> nat \<times> nat) option" where
  "drop_oldest elen cap max_bytes bytes evs enc first_dropped last_dropped =
     (if length evs \<ge> cap \<or> enc + bytes > max_bytes
      then (case evs of
              [] \<Rightarrow> None
            | d # ds \<Rightarrow>
                if elen (event d) \<le> enc
                then drop_oldest elen cap max_bytes bytes ds (enc - elen (event d))
                       (if seq d < first_dropped then seq d else first_dropped)
                       (if seq d > last_dropped then seq d else last_dropped)
                else None)
      else Some (evs, enc, first_dropped, last_dropped))"

declare drop_oldest.simps [simp del]

definition push_ordinary ::
  "('x run_event \<Rightarrow> nat) \<Rightarrow> 'x ring \<Rightarrow> 'x pending_event \<Rightarrow> ('x ring \<times> ring_push_outcome) option" where
  "push_ordinary elen r e =
     (let bytes = elen (event e)
      in if bytes > max_encoded_bytes r then Some (r, OversizedDropped (seq e))
         else if length (events r) < ordinary_capacity r \<and> encoded_bytes r + bytes \<le> max_encoded_bytes r
         then Some (r\<lparr>encoded_bytes := encoded_bytes r + bytes, events := events r @ [e]\<rparr>, Accepted)
         else (case drop_oldest elen (ordinary_capacity r) (max_encoded_bytes r) bytes
                      (events r) (encoded_bytes r) u64_max 0 of
                 None \<Rightarrow> None
               | Some (evs, enc, first, lst) \<Rightarrow>
                   Some (r\<lparr>encoded_bytes := enc + bytes, events := evs @ [e]\<rparr>, OverflowDropped first lst)))"

definition place_terminal :: "'x ring \<Rightarrow> 'x pending_event \<Rightarrow> 'x ring" where
  "place_terminal r e = r\<lparr>terminal_slot := Some e\<rparr>"

definition place_finalizing :: "'x ring \<Rightarrow> 'x pending_event \<Rightarrow> 'x ring" where
  "place_finalizing r e =
     (case finalizing_slot r of None \<Rightarrow> r\<lparr>finalizing_slot := Some e\<rparr> | Some _ \<Rightarrow> r)"

definition snapshot_up_to :: "'x ring \<Rightarrow> nat \<Rightarrow> 'x pending_event list" where
  "snapshot_up_to r maximum =
     (let out = take maximum (events r);
          out = (if length out < maximum
                 then out @ (case finalizing_slot r of None \<Rightarrow> [] | Some e \<Rightarrow> [e]) else out)
      in if length out < maximum
         then out @ (case terminal_slot r of None \<Rightarrow> [] | Some e \<Rightarrow> [e]) else out)"

definition ring_snapshot :: "'x ring \<Rightarrow> 'x pending_event list" where
  "ring_snapshot r =
     snapshot_up_to r (length (events r) + (if finalizing_slot r = None then 0 else 1)
       + (if terminal_slot r = None then 0 else 1))"

fun ack_events :: "('x run_event \<Rightarrow> nat) \<Rightarrow> nat \<Rightarrow> 'x pending_event list \<Rightarrow> nat \<Rightarrow> ('x pending_event list \<times> nat) option" where
  "ack_events elen acked [] enc = Some ([], enc)"
| "ack_events elen acked (e # evs) enc =
     (if seq e \<le> acked
      then if elen (event e) \<le> enc then ack_events elen acked evs (enc - elen (event e)) else None
      else Some (e # evs, enc))"

definition ack_slot :: "nat \<Rightarrow> 'x pending_event option \<Rightarrow> 'x pending_event option" where
  "ack_slot acked slot = (case slot of None \<Rightarrow> None | Some e \<Rightarrow> if seq e \<le> acked then None else Some e)"

definition ring_acknowledge :: "('x run_event \<Rightarrow> nat) \<Rightarrow> 'x ring \<Rightarrow> nat \<Rightarrow> 'x ring option" where
  "ring_acknowledge elen r acked =
     map_option (\<lambda>(evs, enc).
       r\<lparr>events := evs, encoded_bytes := enc,
         terminal_slot := ack_slot acked (terminal_slot r),
         finalizing_slot := ack_slot acked (finalizing_slot r)\<rparr>)
       (ack_events elen acked (events r) (encoded_bytes r))"

definition ordinary_len :: "'x ring \<Rightarrow> nat" where
  "ordinary_len r = length (events r)"

definition has_terminal :: "'x ring \<Rightarrow> bool" where
  "has_terminal r \<longleftrightarrow> terminal_slot r \<noteq> None"

definition ring_is_empty :: "'x ring \<Rightarrow> bool" where
  "ring_is_empty r \<longleftrightarrow> events r = [] \<and> finalizing_slot r = None \<and> terminal_slot r = None"

section \<open>The invariant\<close>

definition seqs :: "'x pending_event list \<Rightarrow> nat list" where
  "seqs evs = map seq evs"

definition total_len :: "('x run_event \<Rightarrow> nat) \<Rightarrow> 'x pending_event list \<Rightarrow> nat" where
  "total_len elen evs = (\<Sum>e\<leftarrow>evs. elen (event e))"

definition ring_ok :: "('x run_event \<Rightarrow> nat) \<Rightarrow> 'x ring \<Rightarrow> bool" where
  "ring_ok elen r \<longleftrightarrow> encoded_bytes r = total_len elen (events r) \<and> encoded_bytes r \<le> max_encoded_bytes r
     \<and> 1 \<le> ordinary_capacity r \<and> length (events r) \<le> ordinary_capacity r
     \<and> sorted_wrt (<) (seqs (events r)) \<and> (\<forall>s\<in>set (seqs (events r)). s \<le> u64_max)"

lemma total_len_simps [simp]:
  "total_len elen [] = 0" "total_len elen (e # evs) = elen (event e) + total_len elen evs"
  "total_len elen (xs @ ys) = total_len elen xs + total_len elen ys"
  by (simp_all add: total_len_def)

lemma seqs_simps [simp]:
  "seqs [] = []" "seqs (e # evs) = seq e # seqs evs" "seqs (xs @ ys) = seqs xs @ seqs ys"
  "length (seqs evs) = length evs" "set (seqs evs) = seq ` set evs"
  by (simp_all add: seqs_def)

text \<open>The room a new event needs: how many of the oldest events have to go.\<close>

definition has_room :: "('x run_event \<Rightarrow> nat) \<Rightarrow> nat \<Rightarrow> nat \<Rightarrow> nat \<Rightarrow> 'x pending_event list \<Rightarrow> bool" where
  "has_room elen cap max_bytes bytes evs \<longleftrightarrow> length evs < cap \<and> total_len elen evs + bytes \<le> max_bytes"

lemma drop_oldest_spec:
  assumes "1 \<le> cap" and "bytes \<le> max_bytes" and "sorted_wrt (<) (seqs evs)"
    and "fd = u64_max \<and> ld = 0 \<or> (\<exists>f. fd = f \<and> f \<le> ld \<and> (\<forall>s\<in>set (seqs evs). ld < s))"
    and "\<forall>s\<in>set (seqs evs). s \<le> u64_max"
  shows "\<exists>k\<le>length evs. drop_oldest elen cap max_bytes bytes evs (total_len elen evs) fd ld =
      Some (drop k evs, total_len elen (drop k evs),
        if k = 0 then fd else if fd = u64_max \<and> ld = 0 then seq (hd evs) else fd,
        if k = 0 then ld else seq (evs ! (k - 1)))
    \<and> has_room elen cap max_bytes bytes (drop k evs)
    \<and> (\<forall>j<k. \<not> has_room elen cap max_bytes bytes (drop j evs))"
  using assms
proof (induction evs arbitrary: fd ld)
  case Nil
  then show ?case by (simp add: drop_oldest.simps has_room_def)
next
  case (Cons d ds)
  show ?case
  proof (cases "has_room elen cap max_bytes bytes (d # ds)")
    case True
    then show ?thesis
      by (intro exI [of _ 0]) (simp add: drop_oldest.simps [of elen cap max_bytes bytes "d # ds"] has_room_def)
  next
    case False
    let ?fd = "if seq d < fd then seq d else fd" and ?ld = "if seq d > ld then seq d else ld"
    have step: "drop_oldest elen cap max_bytes bytes (d # ds) (total_len elen (d # ds)) fd ld =
        drop_oldest elen cap max_bytes bytes ds (total_len elen ds) ?fd ?ld"
      using False by (subst drop_oldest.simps) (auto simp: has_room_def)
    have new: "?ld = seq d" "?fd = (if fd = u64_max \<and> ld = 0 then seq d else fd)" "?fd \<le> seq d"
      using Cons.prems(4,5) by auto
    have "\<forall>s\<in>set (seqs ds). ?ld < s" using Cons.prems(3) new(1) by auto
    then have "?fd = u64_max \<and> ?ld = 0 \<or> (\<exists>f. ?fd = f \<and> f \<le> ?ld \<and> (\<forall>s\<in>set (seqs ds). ?ld < s))"
      using new by auto
    from Cons.IH [OF Cons.prems(1,2) _ this] Cons.prems(3,5) obtain k where k: "k \<le> length ds"
      "drop_oldest elen cap max_bytes bytes ds (total_len elen ds) ?fd ?ld =
        Some (drop k ds, total_len elen (drop k ds),
          if k = 0 then ?fd else if ?fd = u64_max \<and> ?ld = 0 then seq (hd ds) else ?fd,
          if k = 0 then ?ld else seq (ds ! (k - 1)))"
      "has_room elen cap max_bytes bytes (drop k ds)"
      "\<forall>j<k. \<not> has_room elen cap max_bytes bytes (drop j ds)" by auto
    have nz: "\<not> (?fd = u64_max \<and> ?ld = 0)" using new by (auto simp: u64_max_def)
    have "\<forall>j<Suc k. \<not> has_room elen cap max_bytes bytes (drop j (d # ds))"
      using k(4) False by (auto simp: less_Suc_eq_0_disj)
    then show ?thesis
      using k(1,2,3) nz new step by (intro exI [of _ "Suc k"]) (auto simp: nth_Cons')
  qed
qed

lemma push_ordinary_spec:
  assumes ok: "ring_ok elen r" and new: "\<forall>s\<in>set (seqs (events r)). s < seq e" "seq e \<le> u64_max"
    and small: "elen (event e) \<le> max_encoded_bytes r"
  obtains k r' where "k \<le> length (events r)"
    and "push_ordinary elen r e = Some (r', if k = 0 then Accepted
      else OverflowDropped (seq (events r ! 0)) (seq (events r ! (k - 1))))"
    and "r' = r\<lparr>encoded_bytes := total_len elen (drop k (events r)) + elen (event e), events := drop k (events r) @ [e]\<rparr>"
    and "ring_ok elen r'"
    and "\<forall>j<k. \<not> has_room elen (ordinary_capacity r) (max_encoded_bytes r) (elen (event e)) (drop j (events r))"
proof -
  let ?b = "elen (event e)" and ?room = "has_room elen (ordinary_capacity r) (max_encoded_bytes r) (elen (event e))"
  have enc: "encoded_bytes r = total_len elen (events r)" using ok by (simp add: ring_ok_def)
  obtain k where k: "k \<le> length (events r)" "?room (drop k (events r))" "\<forall>j<k. \<not> ?room (drop j (events r))"
    and dr: "drop_oldest elen (ordinary_capacity r) (max_encoded_bytes r) ?b (events r) (encoded_bytes r) u64_max 0 =
      Some (drop k (events r), total_len elen (drop k (events r)),
        if k = 0 then u64_max else seq (hd (events r)), if k = 0 then 0 else seq (events r ! (k - 1)))"
    using drop_oldest_spec [of "ordinary_capacity r" ?b "max_encoded_bytes r" "events r" u64_max 0 elen] ok small
    by (auto simp: ring_ok_def)
  let ?r = "r\<lparr>encoded_bytes := total_len elen (drop k (events r)) + ?b, events := drop k (events r) @ [e]\<rparr>"
  have "push_ordinary elen r e = Some (?r, if k = 0 then Accepted
      else OverflowDropped (seq (events r ! 0)) (seq (events r ! (k - 1))))"
  proof (cases "k = 0")
    case True
    then show ?thesis using k(2) small enc by (simp add: push_ordinary_def has_room_def)
  next
    case False
    then have "\<not> (length (events r) < ordinary_capacity r \<and> encoded_bytes r + ?b \<le> max_encoded_bytes r)"
      using k(3) enc by (force simp: has_room_def)
    moreover have "hd (events r) = events r ! 0" using False k(1) by (intro hd_conv_nth) auto
    ultimately show ?thesis using False small dr by (auto simp: push_ordinary_def Let_def)
  qed
  moreover have "ring_ok elen ?r"
  proof -
    have "sorted_wrt (<) (seqs (drop k (events r)))"
      using ok by (simp add: ring_ok_def seqs_def drop_map [symmetric] sorted_wrt_drop)
    then show ?thesis using ok k(2) new
      by (auto simp: ring_ok_def has_room_def sorted_wrt_append dest: in_set_dropD)
  qed
  ultimately show ?thesis using that k by blast
qed

lemma ack_events_spec:
  "total_len elen evs = enc \<Longrightarrow> sorted_wrt (<) (seqs evs) \<Longrightarrow>
   ack_events elen acked evs enc =
     Some (filter (\<lambda>e. acked < seq e) evs, total_len elen (filter (\<lambda>e. acked < seq e) evs))"
proof (induction elen acked evs enc rule: ack_events.induct)
  case (2 elen acked e evs enc)
  show ?case
  proof (cases "seq e \<le> acked")
    case True
    with 2 show ?thesis by auto
  next
    case False
    then have "\<forall>x\<in>set evs. acked < seq x" using "2.prems"(2) by auto
    then have "filter (\<lambda>e. acked < seq e) evs = evs" by (simp add: filter_id_conv)
    with False "2.prems" show ?thesis by auto
  qed
qed simp

lemma ring_acknowledge_spec:
  assumes "ring_ok elen r"
  shows "ring_acknowledge elen r acked = Some
      (r\<lparr>events := filter (\<lambda>e. acked < seq e) (events r),
         encoded_bytes := total_len elen (filter (\<lambda>e. acked < seq e) (events r)),
         terminal_slot := ack_slot acked (terminal_slot r), finalizing_slot := ack_slot acked (finalizing_slot r)\<rparr>)"
    and "ring_ok elen (r\<lparr>events := filter (\<lambda>e. acked < seq e) (events r),
         encoded_bytes := total_len elen (filter (\<lambda>e. acked < seq e) (events r)),
         terminal_slot := ts, finalizing_slot := fs\<rparr>)"
proof -
  show "ring_acknowledge elen r acked = Some
      (r\<lparr>events := filter (\<lambda>e. acked < seq e) (events r),
         encoded_bytes := total_len elen (filter (\<lambda>e. acked < seq e) (events r)),
         terminal_slot := ack_slot acked (terminal_slot r), finalizing_slot := ack_slot acked (finalizing_slot r)\<rparr>)"
    using ack_events_spec [of elen "events r" "encoded_bytes r" acked] assms
    by (simp add: ring_acknowledge_def ring_ok_def)
  have "total_len elen (filter (\<lambda>e. acked < seq e) (events r)) \<le> max_encoded_bytes r"
    "length (filter (\<lambda>e. acked < seq e) (events r)) \<le> ordinary_capacity r"
    using sum_list_filter_split [of "\<lambda>e. elen (event e)" "events r" "\<lambda>e. acked < seq e"] assms
      le_trans [OF length_filter_le [of "\<lambda>e. acked < seq e" "events r"]]
    by (auto simp: total_len_def ring_ok_def)
  then show "ring_ok elen (r\<lparr>events := filter (\<lambda>e. acked < seq e) (events r),
         encoded_bytes := total_len elen (filter (\<lambda>e. acked < seq e) (events r)),
         terminal_slot := ts, finalizing_slot := fs\<rparr>)"
    using assms by (auto simp: ring_ok_def seqs_def sorted_wrt_map sorted_wrt_filter)
qed

text \<open>What the ring holds, in sending order.\<close>

definition held_events :: "'x ring \<Rightarrow> 'x pending_event list" where
  "held_events r = events r @ (case finalizing_slot r of None \<Rightarrow> [] | Some e \<Rightarrow> [e])
     @ (case terminal_slot r of None \<Rightarrow> [] | Some e \<Rightarrow> [e])"

lemma snapshot_up_to_take: "snapshot_up_to r n = take n (held_events r)"
  by (auto simp: snapshot_up_to_def held_events_def Let_def min_def not_le not_less split: option.split)

lemma ring_snapshot_all: "ring_snapshot r = held_events r"
  unfolding ring_snapshot_def snapshot_up_to_take
  by (auto simp: held_events_def split: option.split)

section \<open>Properties\<close>

text \<open>Pushing an ordinary event into a well-formed ring never panics and drops as little as possible:
  an event larger than the byte budget is refused and the ring kept; otherwise the event becomes
  the newest, after dropping the shortest prefix of the oldest events that makes room for it
  within both limits, and a non-empty prefix is reported with its first and last number. The
  reserved slots are never touched and the ring stays well formed.\<close>

theorem ring_push_exact:
  assumes "ring_ok elen r" and "\<forall>s\<in>set (seqs (events r)). s < seq e" and "seq e \<le> u64_max"
  shows "(if max_encoded_bytes r < elen (event e) then push_ordinary elen r e = Some (r, OversizedDropped (seq e))
     else \<exists>k r'. k \<le> length (events r)
       \<and> push_ordinary elen r e = Some (r', if k = 0 then Accepted
           else OverflowDropped (seq (events r ! 0)) (seq (events r ! (k - 1))))
       \<and> events r' = drop k (events r) @ [e] \<and> ring_ok elen r'
       \<and> finalizing_slot r' = finalizing_slot r \<and> terminal_slot r' = terminal_slot r
       \<and> (\<forall>j<k. \<not> has_room elen (ordinary_capacity r) (max_encoded_bytes r) (elen (event e)) (drop j (events r))))"
proof (cases "max_encoded_bytes r < elen (event e)")
  case False
  then have "elen (event e) \<le> max_encoded_bytes r" by simp
  from push_ordinary_spec [OF assms this] obtain k r' where "k \<le> length (events r)"
    "push_ordinary elen r e = Some (r', if k = 0 then Accepted
      else OverflowDropped (seq (events r ! 0)) (seq (events r ! (k - 1))))"
    "r' = r\<lparr>encoded_bytes := total_len elen (drop k (events r)) + elen (event e), events := drop k (events r) @ [e]\<rparr>"
    "ring_ok elen r'"
    "\<forall>j<k. \<not> has_room elen (ordinary_capacity r) (max_encoded_bytes r) (elen (event e)) (drop j (events r))"
    by blast
  then show ?thesis using False by (simp only: if_False) (intro exI [of _ k] exI [of _ r'], simp)
qed (simp add: push_ordinary_def)

definition demo_event :: "nat \<Rightarrow> nat \<Rightarrow> unit pending_event" where
  "demo_event s n = \<lparr>seq = s, event = \<lparr>ev_seq = s, epoch_ms = 0, mono_ns = int n, ev_payload = None\<rparr>\<rparr>"

definition demo_len :: "unit run_event \<Rightarrow> nat" where
  "demo_len e = nat (mono_ns e)"

definition demo_ring :: "unit ring" where
  "demo_ring = (with_byte_capacity 3 10)\<lparr>events := [demo_event 1 4, demo_event 2 4], encoded_bytes := 8\<rparr>"

lemma demo_ring_ok: "ring_ok demo_len demo_ring"
  by (simp add: ring_ok_def demo_ring_def with_byte_capacity_def demo_event_def demo_len_def u64_max_def)

theorem ring_push_exact_witness:
  "\<exists>k r'. push_ordinary demo_len demo_ring (demo_event 3 7) = Some (r', if k = 0 then Accepted
     else OverflowDropped 1 (seq (events demo_ring ! (k - 1)))) \<and> events r' = drop k (events demo_ring) @ [demo_event 3 7]"
  using ring_push_exact [OF demo_ring_ok, of "demo_event 3 7"]
  by (auto simp: demo_ring_def with_byte_capacity_def demo_event_def demo_len_def u64_max_def)

end
