(* ===== verification/Event_Presentation.thy ===== *)
theory Event_Presentation
  imports Event_Buffer "HOL-Library.Sublist"
begin

text \<open>
  Fitting an action event into the byte limit and classifying its source files:
  \<open>crates/once-events-client/src/presentation.rs\<close> and \<open>source_files.rs\<close>. The lengths of
  the protobuf encoding come from the codec library: a record of functions.
\<close>

section \<open>Encoded lengths\<close>

record 'x codec =
  event_len :: "'x run_event \<Rightarrow> nat"
  action_len :: "'x action_completed \<Rightarrow> nat"
  varint_len :: "nat \<Rightarrow> nat"
  key_len :: "nat \<Rightarrow> nat"
  string_len :: "nat \<Rightarrow> string \<Rightarrow> nat"

definition with_action :: "'x run_event \<Rightarrow> 'x action_completed \<Rightarrow> 'x run_event" where
  "with_action e a = e\<lparr>ev_payload := Some (ActionCompleted a)\<rparr>"

section \<open>Source file statuses\<close>

datatype source_file_status = StatusUnspecified | StatusCommitted | StatusNotCommitted | StatusUnknown

fun status_code :: "source_file_status \<Rightarrow> int" where
  "status_code StatusUnspecified = 0"
| "status_code StatusCommitted = 1"
| "status_code StatusNotCommitted = 2"
| "status_code StatusUnknown = 3"

text \<open>The snapshot: the paths of a complete listing, or \<open>None\<close>.\<close>

type_synonym source_file_snapshot = "string list option"

definition from_committed_paths :: "string list \<Rightarrow> source_file_snapshot" where
  "from_committed_paths paths = Some paths"

definition file_status :: "source_file_snapshot \<Rightarrow> string \<Rightarrow> source_file_status" where
  "file_status snapshot path =
     (case snapshot of
        Some paths \<Rightarrow> if path \<in> set paths then StatusCommitted else StatusNotCommitted
      | None \<Rightarrow> StatusUnknown)"

definition classify :: "source_file_snapshot \<Rightarrow> 'x action_completed \<Rightarrow> 'x action_completed" where
  "classify snapshot a =
     a\<lparr>source_file_statuses := map (\<lambda>path. status_code (file_status snapshot path)) (source_files a)\<rparr>"

section \<open>Fitting\<close>

text \<open>The \<open>while\<close> loop over the presentation metadata.\<close>

function trim_metadata :: "('x run_event \<Rightarrow> nat) \<Rightarrow> nat \<Rightarrow> 'x run_event \<Rightarrow> 'x action_completed \<Rightarrow> 'x action_completed" where
  "trim_metadata elen max_bytes e a =
     (if elen (with_action e a) > max_bytes
      then (case presentation a of
              None \<Rightarrow> a
            | Some md \<Rightarrow>
                if meta_context md \<noteq> []
                then trim_metadata elen max_bytes e
                       (a\<lparr>presentation := Some (md\<lparr>meta_context := butlast (meta_context md)\<rparr>)\<rparr>)
                else if platforms md \<noteq> []
                then trim_metadata elen max_bytes e
                       (a\<lparr>presentation := Some (md\<lparr>platforms := butlast (platforms md)\<rparr>)\<rparr>)
                else trim_metadata elen max_bytes e (a\<lparr>presentation := None\<rparr>))
      else a)"
  by pat_completeness auto
termination
  by (relation "measure (\<lambda>(elen, max_bytes, e, a). case presentation a of None \<Rightarrow> 0
        | Some md \<Rightarrow> Suc (length (meta_context md) + length (platforms md)))") auto

declare trim_metadata.simps [simp del]

text \<open>\<open>u64::try_from(status)\<close> fails on a negative status.\<close>

definition status_varint :: "'x codec \<Rightarrow> int \<Rightarrow> nat" where
  "status_varint cd status = varint_len cd (if status < 0 then u64_max else nat status)"

definition packed_len :: "'x codec \<Rightarrow> bool \<Rightarrow> nat \<Rightarrow> nat" where
  "packed_len cd classified status_bytes =
     (if classified then key_len cd 17 + varint_len cd status_bytes + status_bytes else 0)"

text \<open>The loop over the source files: the paths and statuses kept so far and their lengths.\<close>

fun keep_files ::
  "'x codec \<Rightarrow> nat \<Rightarrow> nat \<Rightarrow> bool \<Rightarrow> int list \<Rightarrow> nat \<Rightarrow> string list
   \<Rightarrow> string list \<times> int list \<times> nat \<times> nat \<Rightarrow> string list \<times> int list \<times> nat \<times> nat" where
  "keep_files cd max_bytes envelope classified statuses index [] st = st"
| "keep_files cd max_bytes envelope classified statuses index (path # files) (kept, kept_st, action_bytes, status_bytes) =
     (let candidate_path_bytes = sat_add action_bytes (string_len cd 16 path);
          status = (if index < length statuses then statuses ! index else 0);
          candidate_status_bytes = sat_add status_bytes (status_varint cd status);
          candidate_bytes = sat_add candidate_path_bytes (packed_len cd classified candidate_status_bytes);
          event_bytes = sat_add (sat_add envelope candidate_bytes) (varint_len cd candidate_bytes)
      in keep_files cd max_bytes envelope classified statuses (index + 1) files
           (if event_bytes \<le> max_bytes
            then (kept @ [path], if classified then kept_st @ [status] else kept_st, candidate_path_bytes,
                  if classified then candidate_status_bytes else status_bytes)
            else (kept, kept_st, action_bytes, status_bytes)))"

definition usable_statuses :: "'x action_completed \<Rightarrow> int list" where
  "usable_statuses a =
     (if source_file_statuses a \<noteq> [] \<and> length (source_file_statuses a) \<noteq> length (source_files a)
      then replicate (length (source_files a)) (status_code StatusUnknown) else source_file_statuses a)"

definition strip_action :: "'x codec \<Rightarrow> nat \<Rightarrow> 'x run_event \<Rightarrow> 'x action_completed \<Rightarrow> 'x action_completed" where
  "strip_action cd max_bytes e a =
     (let a1 = trim_metadata (event_len cd) max_bytes e (a\<lparr>source_files := [], source_file_statuses := []\<rparr>)
      in if event_len cd (with_action e a1) > max_bytes then a1\<lparr>display_name := None\<rparr> else a1)"

definition fit_action_presentation :: "'x codec \<Rightarrow> 'x run_event \<Rightarrow> nat \<Rightarrow> 'x run_event" where
  "fit_action_presentation cd e max_bytes =
     (case ev_payload e of
        Some (ActionCompleted a) \<Rightarrow>
          if event_len cd e \<le> max_bytes then e
          else
            (let classified = (source_file_statuses a \<noteq> []);
                 a2 = strip_action cd max_bytes e a;
                 action_bytes = action_len cd a2;
                 envelope = event_len cd (with_action e a2) - action_bytes - varint_len cd action_bytes
             in case keep_files cd max_bytes envelope classified (usable_statuses a) 0 (source_files a)
                       ([], [], action_bytes, 0) of
                  (kept, kept_st, _, _) \<Rightarrow>
                    with_action e (a2\<lparr>source_files := kept, source_file_statuses := kept_st\<rparr>))
      | _ \<Rightarrow> e)"

section \<open>Lemmas\<close>

lemma trim_metadata_files:
  "source_files (trim_metadata elen m e a) = source_files a
   \<and> source_file_statuses (trim_metadata elen m e a) = source_file_statuses a"
proof (induction elen m e a rule: trim_metadata.induct)
  case (1 elen m e a)
  then show ?case
    by (subst (1 2) trim_metadata.simps) (auto split: option.split)
qed

lemma trim_metadata_fits:
  "elen (with_action e (trim_metadata elen m e a)) \<le> m \<or> presentation (trim_metadata elen m e a) = None"
proof (induction elen m e a rule: trim_metadata.induct)
  case (1 elen m e a)
  then show ?case
    by (subst (1 2) trim_metadata.simps) (auto split: option.split)
qed

text \<open>What may remain of an action: everything mandatory, and of the presentation metadata a prefix of the context and of
  the platforms, the platforms only shortened once the context is gone, the package untouched, or nothing.\<close>

fun metadata_trimmed :: "action_presentation option \<Rightarrow> action_presentation option \<Rightarrow> bool" where
  "metadata_trimmed old None \<longleftrightarrow> True"
| "metadata_trimmed None (Some new) \<longleftrightarrow> False"
| "metadata_trimmed (Some old) (Some new) \<longleftrightarrow>
     meta_package new = meta_package old
     \<and> prefix (meta_context new) (meta_context old) \<and> prefix (platforms new) (platforms old)
     \<and> (platforms new = platforms old \<or> meta_context new = [])"

lemma metadata_trimmed_refl [simp]: "metadata_trimmed old old"
  by (cases old) simp_all

lemma metadata_trimmed_step:
  "meta_context md \<noteq> [] \<Longrightarrow> metadata_trimmed (Some (md\<lparr>meta_context := butlast (meta_context md)\<rparr>)) new \<Longrightarrow> metadata_trimmed (Some md) new"
  "meta_context md = [] \<Longrightarrow> metadata_trimmed (Some (md\<lparr>platforms := butlast (platforms md)\<rparr>)) new \<Longrightarrow> metadata_trimmed (Some md) new"
  "metadata_trimmed None new \<Longrightarrow> metadata_trimmed old new"
  by (cases new; auto intro: prefix_order.trans prefixeq_butlast)+

lemma trim_metadata_keeps:
  "action_rest (trim_metadata elen m e a) = action_rest a \<and> display_name (trim_metadata elen m e a) = display_name a
   \<and> metadata_trimmed (presentation a) (presentation (trim_metadata elen m e a))"
proof (induction elen m e a rule: trim_metadata.induct)
  case (1 elen m e a)
  show ?case
  proof (cases "elen (with_action e a) > m")
    case True
    show ?thesis
    proof (cases "presentation a")
      case None
      then show ?thesis by (simp add: trim_metadata.simps)
    next
      case (Some md)
      note t = trim_metadata.simps [of elen m e a] and ih = "1.IH" [OF True Some]
      consider "meta_context md \<noteq> []" | "meta_context md = []" "platforms md \<noteq> []" | "meta_context md = []" "platforms md = []"
        by blast
      then show ?thesis
      proof cases
        case 1
        then show ?thesis using ih(1) True Some t metadata_trimmed_step(1) [of md] by simp
      next
        case 2
        then show ?thesis using ih(2) True Some t metadata_trimmed_step(2) [of md] by simp
      next
        case 3
        then show ?thesis using ih(3) True Some t metadata_trimmed_step(3) by simp
      qed
    qed
  qed (simp add: trim_metadata.simps)
qed

text \<open>The kept paths and statuses are a subsequence of the originals, pairwise.\<close>

definition paired :: "int list \<Rightarrow> nat \<Rightarrow> string list \<Rightarrow> (string \<times> int) list" where
  "paired statuses index files =
     map (\<lambda>(i, f). (f, if index + i < length statuses then statuses ! (index + i) else 0)) (enumerate 0 files)"

lemma paired_Cons:
  "paired ss n (f # fs) = (f, if n < length ss then ss ! n else 0) # paired ss (n + 1) fs"
  by (auto simp: paired_def enumerate_Suc_eq comp_def case_prod_unfold)

lemma keep_files_subseq:
  assumes "keep_files cd m env c ss n files (kept, kst, ab, sb) = (kept', kst', ab', sb')"
    and "c \<Longrightarrow> length kst = length kept"
  shows "\<exists>picked. subseq picked (paired ss n files) \<and> kept' = kept @ map fst picked
    \<and> kst' = kst @ (if c then map snd picked else [])"
  using assms
proof (induction files arbitrary: n kept kst ab sb)
  case Nil
  then show ?case by (intro exI [of _ "[]"]) simp
next
  case (Cons f fs)
  let ?s = "if n < length ss then ss ! n else 0"
  from Cons.prems(1) consider
    (take) ab1 sb1 where "keep_files cd m env c ss (n + 1) fs (kept @ [f], if c then kst @ [?s] else kst, ab1, sb1) = (kept', kst', ab', sb')"
    | (skip) "keep_files cd m env c ss (n + 1) fs (kept, kst, ab, sb) = (kept', kst', ab', sb')"
    by (auto simp: Let_def split: if_splits)
  then show ?case
  proof cases
    case take
    have "c \<Longrightarrow> length (if c then kst @ [?s] else kst) = length (kept @ [f])" using Cons.prems(2) by simp
    from Cons.IH [OF take this] obtain picked where "subseq picked (paired ss (n + 1) fs)"
      "kept' = (kept @ [f]) @ map fst picked"
      "kst' = (if c then kst @ [?s] else kst) @ (if c then map snd picked else [])" by blast
    then show ?thesis by (intro exI [of _ "(f, ?s) # picked"]) (auto simp: paired_Cons)
  next
    case skip
    from Cons.IH [OF skip Cons.prems(2)] obtain picked where "subseq picked (paired ss (n + 1) fs)"
      "kept' = kept @ map fst picked" "kst' = kst @ (if c then map snd picked else [])" by blast
    then show ?thesis by (intro exI [of _ picked]) (simp add: paired_Cons list_emb_Cons)
  qed
qed

text \<open>
  What the wire format promises: an action is embedded length-delimited, repeated strings
  cost their own lengths, statuses are one packed field.
\<close>

definition codec_ok :: "'x codec \<Rightarrow> bool" where
  "codec_ok cd \<longleftrightarrow>
     (\<forall>e. \<exists>env. \<forall>a. event_len cd (with_action e a) = env + action_len cd a + varint_len cd (action_len cd a))
     \<and> (\<forall>a fs ss. action_len cd (a\<lparr>source_files := fs, source_file_statuses := ss\<rparr>) =
          action_len cd (a\<lparr>source_files := [], source_file_statuses := []\<rparr>)
          + (\<Sum>f\<leftarrow>fs. string_len cd 16 f) + packed_len cd (ss \<noteq> []) (\<Sum>s\<leftarrow>ss. status_varint cd s))"

lemma keep_files_bytes:
  assumes "keep_files cd m env c ss n files (kept, kst, ab, sb) = (kept', kst', ab', sb')" and "m < u64_max"
    and "ab = base + (\<Sum>f\<leftarrow>kept. string_len cd 16 f)" and "sb = (\<Sum>s\<leftarrow>kst. status_varint cd s)"
    and "length kst = (if c then length kept else 0)"
    and "kept = [] \<or> env + (ab + packed_len cd c sb) + varint_len cd (ab + packed_len cd c sb) \<le> m"
  shows "ab' = base + (\<Sum>f\<leftarrow>kept'. string_len cd 16 f) \<and> sb' = (\<Sum>s\<leftarrow>kst'. status_varint cd s)
    \<and> length kst' = (if c then length kept' else 0)
    \<and> (kept' = [] \<or> env + (ab' + packed_len cd c sb') + varint_len cd (ab' + packed_len cd c sb') \<le> m)"
  using assms
proof (induction files arbitrary: n kept kst ab sb)
  case (Cons f fs)
  let ?p = "sat_add ab (string_len cd 16 f)" and ?s = "if n < length ss then ss ! n else 0"
  let ?sb = "sat_add sb (status_varint cd ?s)"
  let ?cb = "sat_add ?p (packed_len cd c ?sb)"
  let ?eb = "sat_add (sat_add env ?cb) (varint_len cd ?cb)"
  show ?case
  proof (cases "?eb \<le> m")
    case False
    then have "keep_files cd m env c ss (n + 1) fs (kept, kst, ab, sb) = (kept', kst', ab', sb')"
      using Cons.prems(1) by (simp add: Let_def)
    from Cons.IH [OF this Cons.prems(2-6)] show ?thesis .
  next
    case True
    have exact: "?p = ab + string_len cd 16 f" "?cb = ?p + packed_len cd c ?sb" "?eb = env + ?cb + varint_len cd ?cb"
      using True Cons.prems(2) by (auto simp: sat_add_def min_def split: if_splits)
    have sbe: "c \<Longrightarrow> ?sb = sb + status_varint cd ?s"
      using True Cons.prems(2) by (auto simp: sat_add_def min_def packed_len_def split: if_splits)
    let ?kst = "if c then kst @ [?s] else kst" and ?sb1 = "if c then ?sb else sb"
    have step: "keep_files cd m env c ss (n + 1) fs (kept @ [f], ?kst, ?p, ?sb1) = (kept', kst', ab', sb')"
      using Cons.prems(1) True by (simp add: Let_def)
    have pk: "packed_len cd c ?sb1 = packed_len cd c ?sb" by (simp add: packed_len_def)
    show ?thesis
    proof (rule Cons.IH [OF step Cons.prems(2)])
      show "?p = base + (\<Sum>f\<leftarrow>kept @ [f]. string_len cd 16 f)" using exact(1) Cons.prems(3) by simp
      show "?sb1 = (\<Sum>s\<leftarrow>?kst. status_varint cd s)" using sbe Cons.prems(4) by simp
      show "length ?kst = (if c then length (kept @ [f]) else 0)" using Cons.prems(5) by simp
      show "kept @ [f] = [] \<or> env + (?p + packed_len cd c ?sb1) + varint_len cd (?p + packed_len cd c ?sb1) \<le> m"
        unfolding pk exact(2) [symmetric] using True exact(3) by simp
    qed
  qed
qed simp

section \<open>Properties\<close>

text \<open>What stripping leaves: the same action without its source files, with trimmed metadata, and without the display name
  only when even that was too long.\<close>

definition without_files :: "'x action_completed \<Rightarrow> 'x action_completed" where
  "without_files a = a\<lparr>source_files := [], source_file_statuses := []\<rparr>"

definition optional_removed :: "('x run_event \<Rightarrow> nat) \<Rightarrow> nat \<Rightarrow> 'x run_event \<Rightarrow> 'x action_completed \<Rightarrow> 'x action_completed \<Rightarrow> bool" where
  "optional_removed elen max_bytes e a b \<longleftrightarrow>
     action_rest b = action_rest a
     \<and> metadata_trimmed (presentation a) (presentation b)
     \<and> (presentation b = presentation a \<or> elen (with_action e (without_files a)) > max_bytes)
     \<and> (display_name b = display_name a
        \<or> display_name b = None \<and> presentation b = None
          \<and> elen (with_action e ((without_files a)\<lparr>presentation := None\<rparr>)) > max_bytes)"

lemma strip_action_spec:
  shows "without_files (strip_action cd m e a) = strip_action cd m e a" (is "without_files ?b = ?b")
    and "event_len cd (with_action e (strip_action cd m e a)) \<le> m
      \<or> presentation (strip_action cd m e a) = None \<and> display_name (strip_action cd m e a) = None"
    and "optional_removed (event_len cd) m e a (strip_action cd m e a)"
proof -
  let ?a0 = "without_files a"
  let ?a1 = "trim_metadata (event_len cd) m e ?a0"
  have b: "?b = (if event_len cd (with_action e ?a1) > m then ?a1\<lparr>display_name := None\<rparr> else ?a1)"
    by (simp add: strip_action_def without_files_def Let_def)
  have files: "source_files ?a1 = []" "source_file_statuses ?a1 = []"
    using trim_metadata_files [of "event_len cd" m e ?a0] by (simp_all add: without_files_def)
  then show "without_files (?b) = ?b" by (simp add: b without_files_def)
  show "event_len cd (with_action e (?b)) \<le> m \<or> presentation (?b) = None \<and> display_name (?b) = None"
    using trim_metadata_fits [of "event_len cd" e m ?a0] by (auto simp: b)
  note keeps = trim_metadata_keeps [of "event_len cd" m e ?a0]
  have kept: "action_rest ?a1 = action_rest a" "display_name ?a1 = display_name a"
      "metadata_trimmed (presentation a) (presentation ?a1)"
    using keeps by (simp_all add: without_files_def)
  have "?a1 = ?a0" if "\<not> event_len cd (with_action e ?a0) > m"
    using that by (simp add: trim_metadata.simps [of "event_len cd" m e ?a0])
  then have "presentation ?a1 = presentation a \<or> event_len cd (with_action e ?a0) > m"
    by (auto simp: without_files_def)
  moreover have "presentation ?a1 = None \<and> ?a1 = ?a0\<lparr>presentation := None\<rparr>" if "event_len cd (with_action e ?a1) > m"
  proof
    show none: "presentation ?a1 = None" using that trim_metadata_fits [of "event_len cd" e m ?a0] by auto
    show "?a1 = ?a0\<lparr>presentation := None\<rparr>"
      using none files kept by (intro action_completed.equality) (simp_all add: without_files_def)
  qed
  ultimately show "optional_removed (event_len cd) m e a (?b)"
    using kept by (auto simp: optional_removed_def b)
qed

text \<open>Putting files back keeps the event within the limit, or puts none back.\<close>

lemma kept_files_fit:
  assumes "codec_ok cd" and "max_bytes < u64_max" and "without_files a = a"
    and "\<And>a. event_len cd (with_action e a) = env + action_len cd a + varint_len cd (action_len cd a)"
    and "keep_files cd max_bytes env classified ss 0 files ([], [], action_len cd a, 0) = (kept, kst, ab, sb)"
  shows "if kept = [] then kst = []
    else event_len cd (with_action e (a\<lparr>source_files := kept, source_file_statuses := kst\<rparr>)) \<le> max_bytes"
proof -
  have "ab = action_len cd a + (\<Sum>f\<leftarrow>kept. string_len cd 16 f) \<and> sb = (\<Sum>s\<leftarrow>kst. status_varint cd s)
    \<and> length kst = (if classified then length kept else 0)
    \<and> (kept = [] \<or> env + (ab + packed_len cd classified sb) + varint_len cd (ab + packed_len cd classified sb) \<le> max_bytes)"
    by (rule keep_files_bytes [OF assms(5,2)]) simp_all
  then have bytes: "ab = action_len cd a + (\<Sum>f\<leftarrow>kept. string_len cd 16 f)" "sb = (\<Sum>s\<leftarrow>kst. status_varint cd s)"
    "length kst = (if classified then length kept else 0)"
    "kept = [] \<or> env + (ab + packed_len cd classified sb) + varint_len cd (ab + packed_len cd classified sb) \<le> max_bytes"
    by blast+
  show ?thesis
  proof (cases "kept = []")
    case True
    then show ?thesis using bytes(3) by (cases classified) simp_all
  next
    case False
    have "action_len cd (a\<lparr>source_files := kept, source_file_statuses := kst\<rparr>) = action_len cd a + (\<Sum>f\<leftarrow>kept. string_len cd 16 f)
        + packed_len cd (kst \<noteq> []) (\<Sum>s\<leftarrow>kst. status_varint cd s)"
      using assms(1,3) unfolding codec_ok_def without_files_def by metis
    moreover have "kst \<noteq> [] \<longleftrightarrow> classified" using bytes(3) False by (cases kst) (auto split: if_splits)
    ultimately have "action_len cd (a\<lparr>source_files := kept, source_file_statuses := kst\<rparr>) = ab + packed_len cd classified sb"
      using bytes(1,2) by simp
    then show ?thesis using bytes(4) False assms(4) by simp
  qed
qed


text \<open>A codec that spends one byte per varint and key, and a string its length and two.\<close>

definition unit_codec :: "unit codec" where
  "unit_codec =
     (let al = (\<lambda>a. (case presentation a of None \<Rightarrow> 0 | Some md \<Rightarrow> 4)
            + (\<Sum>f\<leftarrow>source_files a. length f + 2)
            + (if source_file_statuses a = [] then 0 else 2 + length (source_file_statuses a)))
      in \<lparr>event_len = (\<lambda>e. case ev_payload e of Some (ActionCompleted a) \<Rightarrow> 10 + al a + 1 | _ \<Rightarrow> 10),
          action_len = al, varint_len = (\<lambda>n. 1), key_len = (\<lambda>t. 1), string_len = (\<lambda>t s. length s + 2)\<rparr>)"

lemma unit_codec_ok: "codec_ok unit_codec"
proof -
  have "(\<Sum>s\<leftarrow>ss. status_varint unit_codec s) = length ss" for ss
    by (induction ss) (simp_all add: status_varint_def unit_codec_def Let_def)
  then show ?thesis
    unfolding codec_ok_def
    by (auto simp: unit_codec_def Let_def with_action_def packed_len_def intro: exI [of _ 10])
qed

definition demo_action :: "unit action_completed" where
  "demo_action = \<lparr>source_files = [''aaaa'', ''bb''], source_file_statuses = [1, 2],
      presentation = Some \<lparr>meta_package = None, platforms = [], meta_context = []\<rparr>, display_name = None, action_rest = ()\<rparr>"

definition demo_action_event :: "unit run_event" where
  "demo_action_event = \<lparr>ev_seq = 4, epoch_ms = 0, mono_ns = 0, ev_payload = Some (ActionCompleted demo_action)\<rparr>"


end
