(* ===== verification/Event_Loss.thy ===== *)
theory Event_Loss
  imports BTree_Map
begin

text \<open>
  The loss intervals of the event stream client: \<open>crates/once-events-client/src/loss.rs\<close>.
  The map is keyed by the first sequence number of an interval; its value is the last one
  and the reason. The abstraction is the relation \<open>lost\<close> between sequence numbers and
  reasons. A failed \<open>assert!\<close> is a panic (\<open>None\<close>).
\<close>

section \<open>Definitions\<close>

type_synonym intervals = "(nat, nat \<times> string) bmap"

datatype loss_push_outcome = Inserted | Merged

record gap_advance =
  first_dropped_seq :: nat
  last_dropped_seq :: nat
  gap_reason :: string

definition loss_new :: intervals where
  "loss_new = []"

definition left_neighbour :: "intervals \<Rightarrow> nat \<Rightarrow> (nat \<times> nat \<times> string) option" where
  "left_neighbour m key =
     (case filter (\<lambda>(k, _). k < key) m of [] \<Rightarrow> None | p # ps \<Rightarrow> Some (last (p # ps)))"

text \<open>The first half of \<open>record\<close>: the interval to the left.\<close>

definition merge_left :: "intervals \<Rightarrow> nat \<Rightarrow> nat \<Rightarrow> string \<Rightarrow> (nat \<times> nat \<times> bool \<times> intervals) option" where
  "merge_left m new_first new_last reason =
     (case left_neighbour m new_first of
        None \<Rightarrow> Some (new_first, new_last, False, m)
      | Some (lo, hi, previous_reason) \<Rightarrow>
          if \<not> (hi < new_first \<or> previous_reason = reason) then None
          else if sat_add hi 1 \<ge> new_first \<and> previous_reason = reason
          then Some (min new_first lo, max new_last hi, True, bm_remove lo m)
          else Some (new_first, new_last, False, m))"

definition overlapping :: "intervals \<Rightarrow> nat \<Rightarrow> nat \<Rightarrow> string \<Rightarrow> nat list option" where
  "overlapping m new_first new_last reason =
     (let found = filter (\<lambda>(k, _). new_first \<le> k \<and> k \<le> sat_add new_last 1) m
      in if \<exists>(k, h, r)\<in>set found. \<not> (k > new_last \<or> r = reason) then None
         else Some (map fst (filter (\<lambda>(k, h, r). r = reason) found)))"

fun absorb :: "nat list \<Rightarrow> nat \<times> nat \<times> bool \<times> intervals \<Rightarrow> nat \<times> nat \<times> bool \<times> intervals" where
  "absorb [] st = st"
| "absorb (key # keys) (new_first, new_last, merged, m) =
     absorb keys
       (case bm_get m key of
          None \<Rightarrow> (new_first, new_last, merged, m)
        | Some (hi, _) \<Rightarrow> (min new_first key, max new_last hi, True, bm_remove key m))"

definition loss_record :: "intervals \<Rightarrow> nat \<Rightarrow> nat \<Rightarrow> string \<Rightarrow> (intervals \<times> loss_push_outcome) option" where
  "loss_record m first lst reason =
     (if \<not> first \<le> lst then None
      else case merge_left m first lst reason of
        None \<Rightarrow> None
      | Some (nf, nl, merged, m1) \<Rightarrow>
          (case overlapping m1 nf nl reason of
             None \<Rightarrow> None
           | Some keys \<Rightarrow>
               (case absorb keys (nf, nl, merged, m1) of (nf', nl', merged', m2) \<Rightarrow>
                  Some (bm_insert nf' (nl', reason) m2, if merged' then Merged else Inserted))))"

definition gap_of :: "nat \<times> nat \<times> string \<Rightarrow> gap_advance" where
  "gap_of e = (case e of (first, lst, reason) \<Rightarrow>
     \<lparr>first_dropped_seq = first, last_dropped_seq = lst, gap_reason = reason\<rparr>)"

definition loss_drain :: "intervals \<Rightarrow> intervals \<times> gap_advance list" where
  "loss_drain m = ([], map gap_of m)"

definition loss_snapshot :: "intervals \<Rightarrow> gap_advance list" where
  "loss_snapshot m = map gap_of m"

definition snapshot_before :: "intervals \<Rightarrow> nat \<Rightarrow> gap_advance list" where
  "snapshot_before m before =
     map gap_of (filter (\<lambda>(first, lst, _). first < before \<and> lst < before) m)"

text \<open>The loop always looks at the first entry, so it is a recursion on the sorted list.\<close>

fun loss_acknowledge :: "intervals \<Rightarrow> nat \<Rightarrow> intervals" where
  "loss_acknowledge [] seq = []"
| "loss_acknowledge ((first, lst, reason) # m) seq =
     (if first > seq then (first, lst, reason) # m
      else if lst > seq then bm_insert (seq + 1) (lst, reason) m
      else loss_acknowledge m seq)"

definition loss_len :: "intervals \<Rightarrow> nat" where
  "loss_len m = length m"

definition loss_is_empty :: "intervals \<Rightarrow> bool" where
  "loss_is_empty m \<longleftrightarrow> m = []"

section \<open>Abstraction and invariant\<close>

definition lost :: "intervals \<Rightarrow> nat \<Rightarrow> string \<Rightarrow> bool" where
  "lost m s r \<longleftrightarrow> (\<exists>f l. bm_get m f = Some (l, r) \<and> f \<le> s \<and> s \<le> l)"

definition apart :: "(nat \<Rightarrow> (nat \<times> string) option) \<Rightarrow> bool" where
  "apart E \<longleftrightarrow> (\<forall>f l r f' l' r'. E f = Some (l, r) \<longrightarrow> E f' = Some (l', r') \<longrightarrow> f < f' \<longrightarrow>
     l < f' \<and> (Suc l = f' \<longrightarrow> r \<noteq> r'))"

definition loss_ok :: "intervals \<Rightarrow> bool" where
  "loss_ok m \<longleftrightarrow> bm_ok m \<and> (\<forall>f l r. bm_get m f = Some (l, r) \<longrightarrow> f \<le> l \<and> l \<le> u64_max)
     \<and> apart (bm_get m)"

lemma loss_okD:
  assumes "loss_ok m"
  shows "bm_ok m" and "bm_get m f = Some (l, r) \<Longrightarrow> f \<le> l \<and> l \<le> u64_max"
    and "bm_get m f = Some (l, r) \<Longrightarrow> bm_get m f' = Some (l', r') \<Longrightarrow> f < f' \<Longrightarrow>
      l < f' \<and> (Suc l = f' \<longrightarrow> r \<noteq> r')"
  using assms unfolding loss_ok_def apart_def by blast+

lemma left_neighbour_None: "bm_ok m \<Longrightarrow> left_neighbour m key = None \<Longrightarrow> bm_get m k \<noteq> None \<Longrightarrow> key \<le> k"
  by (auto simp: left_neighbour_def bm_get_in_iff filter_empty_conv split: list.splits)

lemma left_neighbour_Some:
  assumes "bm_ok m" and "left_neighbour m key = Some (lo, v)"
  shows "bm_get m lo = Some v" and "lo < key" and "bm_get m k \<noteq> None \<Longrightarrow> k < key \<Longrightarrow> k \<le> lo"
proof -
  let ?xs = "filter (\<lambda>(k, _). k < key) m"
  have ne: "?xs \<noteq> []" and last: "last ?xs = (lo, v)"
    using assms(2) by (auto simp: left_neighbour_def split: list.splits)
  have "last ?xs \<in> set ?xs" using ne by (rule last_in_set)
  then have in_m: "(lo, v) \<in> set m" and "lo < key" using last by auto
  then show "bm_get m lo = Some v" "lo < key" using assms(1) by (simp_all add: bm_get_in_iff)
  assume "bm_get m k \<noteq> None" "k < key"
  then obtain w where w: "(k, w) \<in> set ?xs" using bm_get_Some_in by fastforce
  have "sorted_wrt (\<lambda>p q. fst p < fst q) ?xs"
    using assms(1) by (simp add: bm_ok_def sorted_wrt_map sorted_wrt_filter)
  moreover obtain ys where "?xs = ys @ [(lo, v)]" using ne last by (metis append_butlast_last_id)
  ultimately show "k \<le> lo" using w by (auto simp: sorted_wrt_append)
qed

lemma absorb_spec:
  assumes "bm_ok m" and "distinct keys" and "\<forall>k\<in>set keys. bm_get m k \<noteq> None \<and> nf \<le> k"
    and "absorb keys (nf, nl, mg, m) = (nf', nl', mg', m')"
  shows "nf' = nf \<and> nl \<le> nl' \<and> (\<forall>k\<in>set keys. \<forall>h r. bm_get m k = Some (h, r) \<longrightarrow> h \<le> nl')
    \<and> (nl' = nl \<or> (\<exists>k\<in>set keys. \<exists>r. bm_get m k = Some (nl', r)))
    \<and> (mg' \<longleftrightarrow> mg \<or> keys \<noteq> []) \<and> bm_ok m'
    \<and> (\<forall>k. bm_get m' k = (if k \<in> set keys then None else bm_get m k))"
  using assms
proof (induction keys arbitrary: nl mg m)
  case (Cons key keys)
  obtain hi r where hi: "bm_get m key = Some (hi, r)" "nf \<le> key" using Cons.prems(3) by fastforce
  let ?m = "bm_remove key m"
  have get: "bm_get ?m k = (if k = key then None else bm_get m k)" for k
    using bm_get_remove [OF Cons.prems(1), of key] by simp
  have step: "absorb keys (nf, max nl hi, True, ?m) = (nf', nl', mg', m')"
    using Cons.prems(4) hi by (simp add: min_absorb1)
  have keys: "\<forall>k\<in>set keys. bm_get ?m k \<noteq> None \<and> nf \<le> k" "distinct keys" "key \<notin> set keys"
    using Cons.prems(2,3) by (auto simp: get)
  note ih = Cons.IH [OF bm_ok_remove [OF Cons.prems(1)] keys(2,1) step]
  have same: "bm_get ?m k = bm_get m k" if "k \<in> set keys" for k using keys(3) that by (auto simp: get)
  have "\<forall>k\<in>set (key # keys). \<forall>h r. bm_get m k = Some (h, r) \<longrightarrow> h \<le> nl'"
    using ih same hi(1) by auto
  moreover have "nl' = nl \<or> (\<exists>k\<in>set (key # keys). \<exists>r. bm_get m k = Some (nl', r))"
    using ih same hi(1) by (auto simp: max_def split: if_splits)
  ultimately show ?case using ih keys(3) by (auto simp: get)
qed simp

lemma overlapping_spec:
  assumes "bm_ok m" and "\<And>k v. bm_get m k = Some v \<Longrightarrow> k \<le> u64_max"
  shows "overlapping m nf nl reason = None \<longleftrightarrow>
      (\<exists>k h r. bm_get m k = Some (h, r) \<and> nf \<le> k \<and> k \<le> nl \<and> r \<noteq> reason)"
    and "overlapping m nf nl reason = Some keys \<Longrightarrow> distinct keys
      \<and> set keys = {k. nf \<le> k \<and> k \<le> Suc nl \<and> (\<exists>h. bm_get m k = Some (h, reason))}"
proof -
  have le: "k \<le> sat_add nl 1 \<longleftrightarrow> k \<le> Suc nl" if "bm_get m k = Some v" for k v
    using assms(2) [OF that] by (auto simp: sat_add_def)
  show "overlapping m nf nl reason = None \<longleftrightarrow>
      (\<exists>k h r. bm_get m k = Some (h, r) \<and> nf \<le> k \<and> k \<le> nl \<and> r \<noteq> reason)"
  proof -
    let ?found = "filter (\<lambda>(k, _). nf \<le> k \<and> k \<le> sat_add nl 1) m"
    have "(k, h, r) \<in> set ?found \<longleftrightarrow> bm_get m k = Some (h, r) \<and> nf \<le> k \<and> k \<le> Suc nl" for k h r
      using le [of k "(h, r)"] bm_get_in_iff [OF assms(1), of k "(h, r)"] by auto
    then have "(\<exists>(k, h, r)\<in>set ?found. \<not> (k > nl \<or> r = reason)) \<longleftrightarrow>
        (\<exists>k h r. bm_get m k = Some (h, r) \<and> nf \<le> k \<and> k \<le> nl \<and> r \<noteq> reason)"
      by (simp add: Bex_def not_less) (metis le_SucI)
    then show ?thesis by (simp add: overlapping_def Let_def)
  qed
  assume h: "overlapping m nf nl reason = Some keys"
  let ?f = "filter (\<lambda>(k, h, r). r = reason) (filter (\<lambda>(k, _). nf \<le> k \<and> k \<le> sat_add nl 1) m)"
  have keys: "keys = map fst ?f"
    using h by (auto simp: overlapping_def Let_def split: if_splits)
  have "distinct (map fst ?f)" using bm_ok_distinct [OF assms(1)] by (simp add: distinct_map_filter)
  moreover have "k \<in> set (map fst ?f) \<longleftrightarrow> nf \<le> k \<and> k \<le> Suc nl \<and> (\<exists>h. bm_get m k = Some (h, reason))" for k
  proof -
    have "k \<in> set (map fst ?f) \<longleftrightarrow> (\<exists>h r. (k, h, r) \<in> set ?f)" by force
    also have "\<dots> \<longleftrightarrow> (\<exists>h. (k, h, reason) \<in> set m \<and> nf \<le> k \<and> k \<le> sat_add nl 1)" by auto
    also have "\<dots> \<longleftrightarrow> nf \<le> k \<and> k \<le> Suc nl \<and> (\<exists>h. bm_get m k = Some (h, reason))"
      unfolding bm_get_in_iff [OF assms(1), symmetric] using le by blast
    finally show ?thesis .
  qed
  ultimately show "distinct keys \<and> set keys = {k. nf \<le> k \<and> k \<le> Suc nl \<and> (\<exists>h. bm_get m k = Some (h, reason))}"
    unfolding keys by blast
qed

text \<open>What \<open>record\<close> knows once the interval to the left has been looked at.\<close>

definition left_done :: "intervals \<Rightarrow> nat \<Rightarrow> nat \<Rightarrow> string \<Rightarrow> nat \<times> nat \<times> bool \<times> intervals \<Rightarrow> bool" where
  "left_done m first lst reason st \<longleftrightarrow> (case st of (nf, nl, mg, m1) \<Rightarrow>
     bm_ok m1 \<and> nf \<le> first \<and> lst \<le> nl
     \<and> (\<forall>k. bm_get m1 k = (if mg \<and> k = nf then None else bm_get m k))
     \<and> (\<forall>f l r. bm_get m1 f = Some (l, r) \<longrightarrow> f < nf \<longrightarrow> l < nf \<and> (Suc l = nf \<longrightarrow> r \<noteq> reason))
     \<and> (if mg then nf < first \<and> (\<exists>hi. bm_get m nf = Some (hi, reason) \<and> first \<le> Suc hi \<and> nl = max lst hi)
        else nf = first \<and> nl = lst))"

lemma merge_left_None:
  assumes "loss_ok m"
  shows "merge_left m first lst reason = None \<longleftrightarrow>
    (\<exists>lo hi r. bm_get m lo = Some (hi, r) \<and> lo < first \<and> first \<le> hi \<and> r \<noteq> reason)"
proof (cases "left_neighbour m first")
  case None
  then show ?thesis
    using left_neighbour_None [OF loss_okD(1) [OF assms] None] by (fastforce simp: merge_left_def)
next
  case (Some p)
  obtain lo hi pr where p: "p = (lo, hi, pr)" by (cases p)
  note nb = left_neighbour_Some [OF loss_okD(1) [OF assms] Some [unfolded p]]
  have "(\<exists>f l r. bm_get m f = Some (l, r) \<and> f < first \<and> first \<le> l \<and> r \<noteq> reason) \<longleftrightarrow> first \<le> hi \<and> pr \<noteq> reason"
  proof
    assume "\<exists>f l r. bm_get m f = Some (l, r) \<and> f < first \<and> first \<le> l \<and> r \<noteq> reason"
    then obtain f l r where f: "bm_get m f = Some (l, r)" "f < first" "first \<le> l" "r \<noteq> reason" by blast
    have "f \<le> lo" using nb(3) [of f] f by simp
    moreover have "\<not> f < lo" using loss_okD(3) [OF assms f(1) nb(1)] nb(2) f(3) by auto
    ultimately show "first \<le> hi \<and> pr \<noteq> reason" using f nb(1) by simp
  qed (use nb in blast)
  then show ?thesis using Some p by (auto simp: merge_left_def)
qed

lemma merge_left_Some:
  assumes "loss_ok m" and "first \<le> u64_max" and "merge_left m first lst reason = Some st"
  shows "left_done m first lst reason st"
proof (cases "left_neighbour m first")
  case None
  then have "first \<le> f" if "bm_get m f \<noteq> None" for f
    using left_neighbour_None [OF loss_okD(1) [OF assms(1)]] that by blast
  then show ?thesis using None assms(1,3) loss_okD(1)
    by (fastforce simp: merge_left_def left_done_def)
next
  case (Some p)
  obtain lo hi pr where p: "p = (lo, hi, pr)" by (cases p)
  note ok = loss_okD [OF assms(1)]
  note nb = left_neighbour_Some [OF ok(1) Some [unfolded p]]
  have sat: "first \<le> sat_add hi 1 \<longleftrightarrow> first \<le> Suc hi" using assms(2) by (auto simp: sat_add_def)
  have np: "hi < first \<or> pr = reason" using assms(3) Some p by (auto simp: merge_left_def split: if_splits)
  show ?thesis
  proof (cases "first \<le> Suc hi \<and> pr = reason")
    case True
    then have st: "st = (lo, max lst hi, True, bm_remove lo m)"
      using assms(3) Some p np sat nb(2) by (simp add: merge_left_def min_absorb2)
    have "l < lo \<and> (Suc l = lo \<longrightarrow> r \<noteq> reason)" if "bm_get m f = Some (l, r)" "f < lo" for f l r
      using ok(3) [OF that(1) nb(1) that(2)] True by auto
    then show ?thesis using st nb(1,2) True bm_get_remove [OF ok(1), of lo] bm_ok_remove [OF ok(1)]
      by (simp add: left_done_def)
  next
    case False
    then have st: "st = (first, lst, False, m)"
      using assms(3) Some p np sat by (auto simp: merge_left_def split: if_splits)
    have "l < first \<and> (Suc l = first \<longrightarrow> r \<noteq> reason)" if f: "bm_get m f = Some (l, r)" "f < first" for f l r
    proof (cases "f = lo")
      case True
      then show ?thesis using f nb(1) np False by auto
    next
      case False
      then have "f < lo" using nb(3) [of f] f by auto
      then show ?thesis using ok(3) [OF f(1) nb(1)] nb(2) by auto
    qed
    then show ?thesis using st ok(1) by (simp add: left_done_def)
  qed
qed

lemma left_done_bound:
  assumes "loss_ok m" and "left_done m first lst reason (nf, nl, mg, m1)" and "bm_get m1 k = Some (h, r)"
  shows "bm_get m k = Some (h, r)" and "k \<le> h" and "h \<le> u64_max" and "mg \<longrightarrow> k \<noteq> nf"
proof -
  show g: "bm_get m k = Some (h, r)" and "mg \<longrightarrow> k \<noteq> nf"
    using assms(2,3) by (auto simp: left_done_def split: if_splits)
  show "k \<le> h" "h \<le> u64_max" using loss_okD(2) [OF assms(1) g] by simp_all
qed

lemma overlapping_conflict:
  assumes ok: "loss_ok m" and ld: "left_done m first lst reason (nf, nl, mg, m1)"
    and np: "\<not> (\<exists>lo hi r. bm_get m lo = Some (hi, r) \<and> lo < first \<and> first \<le> hi \<and> r \<noteq> reason)"
  shows "overlapping m1 nf nl reason = None \<longleftrightarrow> (\<exists>s r. lost m s r \<and> first \<le> s \<and> s \<le> lst \<and> r \<noteq> reason)"
proof -
  have m1: "bm_ok m1" and le: "nf \<le> first" "lst \<le> nl" using ld by (auto simp: left_done_def)
  have "overlapping m1 nf nl reason = None \<longleftrightarrow>
      (\<exists>k h r. bm_get m1 k = Some (h, r) \<and> nf \<le> k \<and> k \<le> nl \<and> r \<noteq> reason)"
    using left_done_bound [OF ok ld] by (intro overlapping_spec(1) [OF m1]) (metis le_trans surj_pair)
  also have "\<dots> \<longleftrightarrow> (\<exists>s r. lost m s r \<and> first \<le> s \<and> s \<le> lst \<and> r \<noteq> reason)"
  proof
    assume "\<exists>k h r. bm_get m1 k = Some (h, r) \<and> nf \<le> k \<and> k \<le> nl \<and> r \<noteq> reason"
    then obtain k h r where k: "bm_get m1 k = Some (h, r)" "nf \<le> k" "k \<le> nl" "r \<noteq> reason" by blast
    note b = left_done_bound [OF ok ld k(1)]
    have "first \<le> k \<and> k \<le> lst"
    proof (cases mg)
      case False
      then show ?thesis using ld k by (simp add: left_done_def)
    next
      case True
      obtain hi where hi: "bm_get m nf = Some (hi, reason)" "first \<le> Suc hi" "nl = max lst hi"
        using ld True by (auto simp: left_done_def)
      have "hi < k" using loss_okD(3) [OF ok hi(1) b(1)] b(4) True k(2) by auto
      then show ?thesis using hi k(3) by auto
    qed
    moreover have "lost m k r" using b unfolding lost_def by blast
    ultimately show "\<exists>s r. lost m s r \<and> first \<le> s \<and> s \<le> lst \<and> r \<noteq> reason" using k(4) by blast
  next
    assume "\<exists>s r. lost m s r \<and> first \<le> s \<and> s \<le> lst \<and> r \<noteq> reason"
    then obtain s r f l where s: "bm_get m f = Some (l, r)" "f \<le> s" "s \<le> l" "first \<le> s" "s \<le> lst" "r \<noteq> reason"
      unfolding lost_def by blast
    have "first \<le> f" using np s(1,3,4,6) by (meson le_trans not_less)
    then have "bm_get m1 f = Some (l, r)" using ld s(1) by (auto simp: left_done_def split: if_splits)
    then show "\<exists>k h r. bm_get m1 k = Some (h, r) \<and> nf \<le> k \<and> k \<le> nl \<and> r \<noteq> reason"
      using s le \<open>first \<le> f\<close> by (meson le_trans)
  qed
  finally show ?thesis .
qed

lemma loss_record_None:
  assumes "loss_ok m" and "first \<le> lst" and "lst \<le> u64_max"
  shows "loss_record m first lst reason = None \<longleftrightarrow> (\<exists>s r. lost m s r \<and> first \<le> s \<and> s \<le> lst \<and> r \<noteq> reason)"
proof (cases "merge_left m first lst reason")
  case None
  then obtain lo hi r where "bm_get m lo = Some (hi, r)" "lo < first" "first \<le> hi" "r \<noteq> reason"
    using merge_left_None [OF assms(1)] by blast
  then have "lost m first r" "r \<noteq> reason" unfolding lost_def by (auto intro: less_imp_le)
  then show ?thesis using None assms(2) by (auto simp: loss_record_def)
next
  case (Some st)
  obtain nf nl mg m1 where st: "st = (nf, nl, mg, m1)" by (cases st)
  have ld: "left_done m first lst reason (nf, nl, mg, m1)"
    using merge_left_Some [OF assms(1) _ Some] assms(2,3) st by simp
  have np: "\<not> (\<exists>lo hi r. bm_get m lo = Some (hi, r) \<and> lo < first \<and> first \<le> hi \<and> r \<noteq> reason)"
    using merge_left_None [OF assms(1)] Some by (metis option.distinct(1))
  have "loss_record m first lst reason = None \<longleftrightarrow> overlapping m1 nf nl reason = None"
    using Some st assms(2) by (auto simp: loss_record_def split: option.splits prod.splits)
  with overlapping_conflict [OF assms(1) ld np] show ?thesis by simp
qed

lemma overlapping_keys:
  assumes ok: "loss_ok m" and ld: "left_done m first lst reason (nf, nl, mg, m1)"
    and keys: "overlapping m1 nf nl reason = Some keys"
  shows "distinct keys" and "set keys = {k. nf \<le> k \<and> k \<le> Suc nl \<and> (\<exists>h. bm_get m1 k = Some (h, reason))}"
    and "bm_get m1 k = Some (h, r) \<Longrightarrow> nf \<le> k \<Longrightarrow> k \<le> nl \<Longrightarrow> r = reason"
proof -
  have m1: "bm_ok m1" using ld by (simp add: left_done_def)
  have bound: "k \<le> u64_max" if "bm_get m1 k = Some v" for k v
    using left_done_bound [OF ok ld, of k "fst v" "snd v"] that by simp
  show "distinct keys" "set keys = {k. nf \<le> k \<and> k \<le> Suc nl \<and> (\<exists>h. bm_get m1 k = Some (h, reason))}"
    using overlapping_spec(2) [OF m1 _ keys] bound by blast+
  show "bm_get m1 k = Some (h, r) \<Longrightarrow> nf \<le> k \<Longrightarrow> k \<le> nl \<Longrightarrow> r = reason"
    using overlapping_spec(1) [OF m1, of nf nl reason] bound keys by (metis option.distinct(1))
qed

text \<open>
  The merged interval is exactly the recorded range and the intervals it absorbed, and it
  stays apart from those that are left.
\<close>

lemma merged_apart:
  assumes ok: "loss_ok m" and ld: "left_done m first lst reason (nf, nl, mg, m1)"
    and keys: "overlapping m1 nf nl reason = Some keys"
    and nl': "nl' = nl \<or> (\<exists>k\<in>set keys. \<exists>r. bm_get m1 k = Some (nl', r))" "nl \<le> nl'"
    and k: "bm_get m1 k = Some (h, r)" "k \<notin> set keys" "nf \<le> k"
  shows "nl' < k \<and> (Suc nl' = k \<longrightarrow> r \<noteq> reason)"
proof -
  note ks = overlapping_keys [OF ok ld keys]
  have eq: "r = reason \<Longrightarrow> Suc nl < k" using k ks(2) by auto
  have far: "nl < k" using ks(3) [OF k(1,3)] eq by force
  from nl'(1) show ?thesis
  proof
    assume "nl' = nl"
    with far eq show ?thesis by auto
  next
    assume "\<exists>k\<in>set keys. \<exists>r. bm_get m1 k = Some (nl', r)"
    then obtain k0 where k0: "k0 \<in> set keys" "bm_get m1 k0 = Some (nl', reason)" "k0 \<le> Suc nl" using ks(2) by auto
    have "k \<noteq> k0" using k(2) k0(1) by blast
    then have "k0 < k" using far k0(3) by linarith
    then show ?thesis
      using loss_okD(3) [OF ok left_done_bound(1) [OF ok ld k0(2)] left_done_bound(1) [OF ok ld k(1)]] by auto
  qed
qed

lemma merged_range:
  assumes ok: "loss_ok m" and ld: "left_done m first lst reason (nf, nl, mg, m1)"
    and keys: "overlapping m1 nf nl reason = Some keys"
    and nl': "nl' = nl \<or> (\<exists>k\<in>set keys. \<exists>r. bm_get m1 k = Some (nl', r))" "nl \<le> nl'"
    and s: "nf \<le> s" "s \<le> nl'"
  shows "first \<le> s \<and> s \<le> lst \<or> lost m s reason"
proof (cases "s \<le> nl")
  case True
  show ?thesis
  proof (cases mg)
    case False
    then show ?thesis using ld s True by (simp add: left_done_def)
  next
    case True
    then obtain hi where "bm_get m nf = Some (hi, reason)" "first \<le> Suc hi" "nl = max lst hi"
      using ld by (auto simp: left_done_def)
    then show ?thesis using s(1) \<open>s \<le> nl\<close> unfolding lost_def
      by (metis le_max_iff_disj not_less_eq_eq le_trans)
  qed
next
  case False
  then obtain k r where k: "k \<in> set keys" "bm_get m1 k = Some (nl', r)" using nl' s by auto
  from overlapping_keys [OF ok ld keys] k have "k \<le> Suc nl" "r = reason" by auto
  then show ?thesis
    using left_done_bound(1) [OF ok ld k(2)] False s(2) unfolding lost_def by (metis not_less_eq_eq le_trans)
qed

lemma loss_record_shape:
  assumes ok: "loss_ok m" and le: "first \<le> lst" "lst \<le> u64_max"
    and rec: "loss_record m first lst reason = Some (m', oc)"
  obtains nf nl mg m1 keys nl' where "left_done m first lst reason (nf, nl, mg, m1)"
    and "overlapping m1 nf nl reason = Some keys" and "nl \<le> nl'"
    and "nl' = nl \<or> (\<exists>k\<in>set keys. \<exists>r. bm_get m1 k = Some (nl', r))"
    and "\<And>k h r. k \<in> set keys \<Longrightarrow> bm_get m1 k = Some (h, r) \<Longrightarrow> h \<le> nl'" and "bm_ok m'"
    and "\<And>k. bm_get m' k = (if k = nf then Some (nl', reason) else if k \<in> set keys then None else bm_get m1 k)"
proof -
  obtain nf nl mg m1 where ml: "merge_left m first lst reason = Some (nf, nl, mg, m1)"
    using rec le by (auto simp: loss_record_def split: option.splits)
  have ld: "left_done m first lst reason (nf, nl, mg, m1)"
    using merge_left_Some [OF ok _ ml] le by simp
  obtain keys where keys: "overlapping m1 nf nl reason = Some keys"
    using rec le ml by (auto simp: loss_record_def split: option.splits)
  note ks = overlapping_keys [OF ok ld keys]
  have pre: "\<forall>k\<in>set keys. bm_get m1 k \<noteq> None \<and> nf \<le> k" unfolding ks(2) by auto
  obtain nf' nl' mg' m2 where ab: "absorb keys (nf, nl, mg, m1) = (nf', nl', mg', m2)"
    by (cases "absorb keys (nf, nl, mg, m1)")
  have m1: "bm_ok m1" using ld by (simp add: left_done_def)
  note sp = absorb_spec [OF m1 ks(1) pre ab]
  then have m': "m' = bm_insert nf (nl', reason) m2" using rec le ml keys ab by (simp add: loss_record_def)
  show ?thesis
  proof (rule that [OF ld keys])
    show "bm_ok m'" using sp by (simp add: m' bm_ok_insert)
    show "bm_get m' k = (if k = nf then Some (nl', reason) else if k \<in> set keys then None else bm_get m1 k)" for k
      using sp by (simp add: m' bm_get_insert)
  qed (use sp in blast)+
qed

lemma loss_record_ok:
  assumes ok: "loss_ok m" and le: "first \<le> lst" "lst \<le> u64_max"
    and rec: "loss_record m first lst reason = Some (m', oc)"
  shows "loss_ok m'"
proof -
  obtain nf nl mg m1 keys nl' where ld: "left_done m first lst reason (nf, nl, mg, m1)"
    and keys: "overlapping m1 nf nl reason = Some keys" and nl: "nl \<le> nl'"
    and nl': "nl' = nl \<or> (\<exists>k\<in>set keys. \<exists>r. bm_get m1 k = Some (nl', r))"
    and hs: "\<And>k h r. k \<in> set keys \<Longrightarrow> bm_get m1 k = Some (h, r) \<Longrightarrow> h \<le> nl'" and m': "bm_ok m'"
    and get: "\<And>k. bm_get m' k = (if k = nf then Some (nl', reason) else if k \<in> set keys then None else bm_get m1 k)"
    by (rule loss_record_shape [OF assms]) (rule that)
  note ks = overlapping_keys [OF ok ld keys]
  have rest: "bm_get m k = Some (h, r) \<and> k \<notin> set keys \<and> bm_get m1 k = Some (h, r)"
    if "bm_get m' k = Some (h, r)" "k \<noteq> nf" for k h r
    using left_done_bound [OF ok ld, of k h r] that by (simp add: get split: if_splits)
  have "nl \<le> u64_max"
  proof (cases mg)
    case True
    then obtain hi where "bm_get m nf = Some (hi, reason)" "nl = max lst hi" using ld by (auto simp: left_done_def)
    then show ?thesis using loss_okD(2) [OF ok] le(2) by auto
  qed (use ld le in \<open>simp add: left_done_def\<close>)
  then have nl_le: "nl' \<le> u64_max" using nl' left_done_bound(3) [OF ok ld] by blast
  have rng: "nf \<le> first" "lst \<le> nl'" using ld nl by (auto simp: left_done_def)
  have "l < f' \<and> (Suc l = f' \<longrightarrow> r \<noteq> r')"
    if f: "bm_get m' f = Some (l, r)" and f': "bm_get m' f' = Some (l', r')" and lt: "f < f'" for f l r f' l' r'
  proof -
    consider "f = nf" | "f' = nf" | "f \<noteq> nf" "f' \<noteq> nf" by blast
    then show ?thesis
    proof cases
      case 1
      then have lr: "l = nl'" "r = reason" and ne: "f' \<noteq> nf" using f lt by (simp_all add: get)
      note r' = rest [OF f' ne]
      have "nf \<le> f'" using 1 lt by simp
      then have "nl' < f' \<and> (Suc nl' = f' \<longrightarrow> r' \<noteq> reason)"
        using merged_apart [OF ok ld keys nl' nl, of f' l' r'] r' by blast
      then show ?thesis unfolding lr by metis
    next
      case 2
      then have "f \<noteq> nf" "r' = reason" using f' lt by (simp_all add: get)
      moreover have "\<forall>f l r. bm_get m1 f = Some (l, r) \<longrightarrow> f < nf \<longrightarrow> l < nf \<and> (Suc l = nf \<longrightarrow> r \<noteq> reason)"
        using ld by (simp add: left_done_def)
      ultimately show ?thesis using rest [OF f] 2 lt by blast
    next
      case 3
      then show ?thesis using loss_okD(3) [OF ok _ _ lt] rest f f' by blast
    qed
  qed
  moreover have "f \<le> l \<and> l \<le> u64_max" if "bm_get m' f = Some (l, r)" for f l r
  proof (cases "f = nf")
    case True
    then have "l = nl'" using that by (simp add: get)
    then show ?thesis using True nl_le rng le(1) by linarith
  next
    case False
    then show ?thesis using rest [OF that] loss_okD(2) [OF ok] by blast
  qed
  ultimately show "loss_ok m'" unfolding loss_ok_def apart_def using m' by blast
qed

lemma loss_record_lost:
  assumes ok: "loss_ok m" and le: "first \<le> lst" "lst \<le> u64_max"
    and rec: "loss_record m first lst reason = Some (m', oc)"
  shows "lost m' s r \<longleftrightarrow> lost m s r \<or> r = reason \<and> first \<le> s \<and> s \<le> lst"
proof -
  obtain nf nl mg m1 keys nl' where ld: "left_done m first lst reason (nf, nl, mg, m1)"
    and keys: "overlapping m1 nf nl reason = Some keys" and nl: "nl \<le> nl'"
    and nl': "nl' = nl \<or> (\<exists>k\<in>set keys. \<exists>r. bm_get m1 k = Some (nl', r))"
    and hs: "\<And>k h r. k \<in> set keys \<Longrightarrow> bm_get m1 k = Some (h, r) \<Longrightarrow> h \<le> nl'" and m': "bm_ok m'"
    and get: "\<And>k. bm_get m' k = (if k = nf then Some (nl', reason) else if k \<in> set keys then None else bm_get m1 k)"
    by (rule loss_record_shape [OF assms]) (rule that)
  note ks = overlapping_keys [OF ok ld keys]
  have rest: "bm_get m k = Some (h, r)" if "bm_get m' k = Some (h, r)" "k \<noteq> nf" for k h r
    using left_done_bound [OF ok ld, of k h r] that by (simp add: get split: if_splits)
  have rng: "nf \<le> first" "lst \<le> nl'" using ld nl by (auto simp: left_done_def)
  have own: "lost m' s reason" if "nf \<le> s" "s \<le> nl'" for s
    unfolding lost_def using that by (auto simp: get)
  have keep: "lost m' s r" if "bm_get m f = Some (l, r)" "f \<le> s" "s \<le> l" for f l
  proof -
    have "bm_get m1 f = (if mg \<and> f = nf then None else bm_get m f)" using ld by (simp add: left_done_def)
    with that(1) consider "mg" "f = nf" | "bm_get m1 f = Some (l, r)" "f \<in> set keys"
      | "bm_get m1 f = Some (l, r)" "f \<notin> set keys" by (cases "mg \<and> f = nf") auto
    then show ?thesis
    proof cases
      case 1
      then have "r = reason" "l \<le> nl" using ld that(1) by (auto simp: left_done_def)
      then show ?thesis using own [of s] that(2,3) nl 1(2) by simp
    next
      case 2
      then have "r = reason" "nf \<le> f" using ks(2) by auto
      then show ?thesis using own [of s] hs [OF 2(2,1)] that(2,3) by simp
    next
      case 3
      have "f \<noteq> nf"
      proof
        assume "f = nf"
        moreover have "nf \<le> nl" using ld le(1) by (simp add: left_done_def)
        ultimately show False using 3 ks(2) ks(3) [OF 3(1)] by simp
      qed
      then have "bm_get m' f = Some (l, r)" using 3 by (simp add: get)
      then show ?thesis using that(2,3) unfolding lost_def by blast
    qed
  qed
  show "lost m' s r \<longleftrightarrow> lost m s r \<or> r = reason \<and> first \<le> s \<and> s \<le> lst"
  proof
    assume "lost m' s r"
    then obtain f l where f: "bm_get m' f = Some (l, r)" "f \<le> s" "s \<le> l" unfolding lost_def by blast
    show "lost m s r \<or> r = reason \<and> first \<le> s \<and> s \<le> lst"
    proof (cases "f = nf")
      case True
      then have "r = reason" "l = nl'" using f(1) by (simp_all add: get)
      then show ?thesis using merged_range [OF ok ld keys nl' nl, of s] f(2,3) True by blast
    next
      case False
      then show ?thesis using rest [OF f(1)] f(2,3) unfolding lost_def by blast
    qed
  next
    assume "lost m s r \<or> r = reason \<and> first \<le> s \<and> s \<le> lst"
    then show "lost m' s r"
    proof
      assume "lost m s r"
      then show ?thesis using keep unfolding lost_def [of m] by blast
    next
      assume "r = reason \<and> first \<le> s \<and> s \<le> lst"
      then show ?thesis using own [of s] rng by simp
    qed
  qed
qed

lemma loss_ok_Cons:
  "loss_ok ((f, l, r) # m) \<longleftrightarrow> f \<le> l \<and> l \<le> u64_max \<and> loss_ok m
     \<and> (\<forall>f' l' r'. bm_get m f' = Some (l', r') \<longrightarrow> l < f' \<and> (Suc l = f' \<longrightarrow> r \<noteq> r'))"
proof
  assume ok: "loss_ok ((f, l, r) # m)"
  have lt: "f < k" if "bm_get m k = Some v" for k v
    using loss_okD(1) [OF ok] that by (force dest: bm_get_Some_in)
  have get: "bm_get ((f, l, r) # m) k = Some v" if "bm_get m k = Some v" for k v
    using lt [OF that] that by simp
  have "loss_ok m"
    unfolding loss_ok_def apart_def using loss_okD [OF ok] get by (metis bm_ok_Cons)
  then show "f \<le> l \<and> l \<le> u64_max \<and> loss_ok m
     \<and> (\<forall>f' l' r'. bm_get m f' = Some (l', r') \<longrightarrow> l < f' \<and> (Suc l = f' \<longrightarrow> r \<noteq> r'))"
    using loss_okD(2) [OF ok, of f l r] loss_okD(3) [OF ok, of f l r] get lt by simp
next
  assume h: "f \<le> l \<and> l \<le> u64_max \<and> loss_ok m
     \<and> (\<forall>f' l' r'. bm_get m f' = Some (l', r') \<longrightarrow> l < f' \<and> (Suc l = f' \<longrightarrow> r \<noteq> r'))"
  then have okm: "loss_ok m" by blast
  have lt: "f < k" if "bm_get m k = Some v" for k v using h that by (metis le_less_trans surj_pair)
  have "bm_ok ((f, l, r) # m)"
    using loss_okD(1) [OF okm] lt by (auto simp: bm_get_in_iff)
  then show "loss_ok ((f, l, r) # m)"
    using h loss_okD(2,3) [OF okm] lt unfolding loss_ok_def apart_def
    by (auto split: if_splits) (meson less_asym)+
qed

lemma lost_Cons:
  assumes "bm_ok ((f, l, r) # m)"
  shows "lost ((f, l, r) # m) s x \<longleftrightarrow> x = r \<and> f \<le> s \<and> s \<le> l \<or> lost m s x"
proof -
  have "k \<noteq> f" if "bm_get m k = Some v" for k v
    using assms that by (force dest: bm_get_Some_in)
  then show ?thesis unfolding lost_def by (auto split: if_splits)
qed

lemma lost_Nil [simp]: "\<not> lost [] s r"
  by (simp add: lost_def)

lemma bm_insert_front: "\<forall>k\<in>fst ` set m. a < k \<Longrightarrow> bm_insert a b m = (a, b) # m"
  by (cases m) auto

lemma loss_acknowledge_spec:
  assumes "loss_ok m"
  shows "loss_ok (loss_acknowledge m seq)"
    and "lost (loss_acknowledge m seq) s r \<longleftrightarrow> lost m s r \<and> seq < s"
proof -
  have "loss_ok (loss_acknowledge m seq) \<and> (\<forall>s r. lost (loss_acknowledge m seq) s r \<longleftrightarrow> lost m s r \<and> seq < s)"
    using assms
  proof (induction m seq rule: loss_acknowledge.induct)
    case (2 f l x m seq)
    note c = "2.prems" [unfolded loss_ok_Cons]
    have bok: "bm_ok ((f, l, x) # m)" using loss_okD(1) [OF "2.prems"] .
    have above: "l < s \<and> (seq < f \<longrightarrow> seq < s) \<and> (seq < l \<longrightarrow> seq < s)" if "lost m s r" for s r
    proof -
      have "l < s" using c that unfolding lost_def by (meson less_le_trans)
      then show ?thesis using c by linarith
    qed
    show ?case
    proof (cases "f > seq")
      case True
      then show ?thesis using "2.prems" above c bok by (auto simp: lost_Cons)
    next
      case low: False
      show ?thesis
      proof (cases "l > seq")
        case True
        have "\<forall>k\<in>fst ` set m. Suc seq < k"
          using c True loss_okD(1) by (fastforce simp: bm_get_in_iff)
        then have eq: "loss_acknowledge ((f, l, x) # m) seq = (Suc seq, l, x) # m"
          using low True bm_insert_front [of m "Suc seq" "(l, x)"] by simp
        have "loss_ok ((Suc seq, l, x) # m)" using c True by (simp add: loss_ok_Cons)
        with loss_okD(1) [OF this] show ?thesis
          unfolding eq using low True above bok by (auto simp: lost_Cons)
      next
        case False
        then show ?thesis using "2.IH" [OF low False] c low above bok by (auto simp: lost_Cons)
      qed
    qed
  qed (simp add: loss_ok_def apart_def)
  then show "loss_ok (loss_acknowledge m seq)" "lost (loss_acknowledge m seq) s r \<longleftrightarrow> lost m s r \<and> seq < s"
    by blast+
qed

definition gap_covers :: "gap_advance list \<Rightarrow> nat \<Rightarrow> bool" where
  "gap_covers gs s \<longleftrightarrow> (\<exists>g\<in>set gs. first_dropped_seq g \<le> s \<and> s \<le> last_dropped_seq g)"

definition gaps_ordered :: "gap_advance list \<Rightarrow> bool" where
  "gaps_ordered gs \<longleftrightarrow> sorted_wrt (\<lambda>g h. last_dropped_seq g < first_dropped_seq h) gs
     \<and> (\<forall>g\<in>set gs. first_dropped_seq g \<le> last_dropped_seq g)"

lemma gap_of_sel [simp]:
  "first_dropped_seq (gap_of (f, l, r)) = f" "last_dropped_seq (gap_of (f, l, r)) = l"
  "gap_reason (gap_of (f, l, r)) = r"
  by (simp_all add: gap_of_def)

lemma loss_snapshot_ordered:
  assumes "loss_ok m"
  shows "gaps_ordered (loss_snapshot m)"
  using assms
proof (induction m)
  case (Cons e m)
  obtain f l r where e: "e = (f, l, r)" by (cases e)
  note c = Cons.prems [unfolded e loss_ok_Cons]
  have "l < f'" if "(f', l', r') \<in> set m" for f' l' r'
    using c that loss_okD(1) [of m] by (metis bm_get_in_iff)
  then show ?case using Cons.IH c e by (auto simp: loss_snapshot_def gaps_ordered_def)
qed (simp add: loss_snapshot_def gaps_ordered_def)

lemma snapshot_before_filter:
  assumes "loss_ok m"
  shows "snapshot_before m b = filter (\<lambda>g. last_dropped_seq g < b) (loss_snapshot m)"
proof -
  have "f < b" if "(f, l, r) \<in> set m" "l < b" for f l r
    using loss_okD(2) [OF assms, of f l r] that loss_okD(1) [OF assms] by (simp add: bm_get_in_iff)
  then have "filter (\<lambda>(f, l, _). f < b \<and> l < b) m = filter (\<lambda>(f, l, _). l < b) m"
    by (intro filter_cong) auto
  then show ?thesis
    by (simp add: snapshot_before_def loss_snapshot_def filter_map comp_def case_prod_unfold gap_of_def)
qed

lemma snapshot_before_ordered:
  assumes "loss_ok m"
  shows "gaps_ordered (snapshot_before m b)" and "g \<in> set (snapshot_before m b) \<Longrightarrow> last_dropped_seq g < b"
  using loss_snapshot_ordered [OF assms]
  by (auto simp: snapshot_before_filter [OF assms] gaps_ordered_def sorted_wrt_filter)

lemma snapshot_before_covers:
  assumes "loss_ok m" and "\<not> (\<exists>r. lost m b r)"
  shows "gap_covers (snapshot_before m b) s \<longleftrightarrow> s < b \<and> (\<exists>r. lost m s r)"
proof -
  have get: "(f, l, r) \<in> set m \<longleftrightarrow> bm_get m f = Some (l, r)" for f l r
    using loss_okD(1) [OF assms(1)] by (simp add: bm_get_in_iff)
  have "gap_covers (snapshot_before m b) s \<longleftrightarrow> (\<exists>f l r. bm_get m f = Some (l, r) \<and> f \<le> s \<and> s \<le> l \<and> l < b)"
    unfolding gap_covers_def snapshot_before_filter [OF assms(1)] loss_snapshot_def
    by (force simp: get [symmetric] gap_of_def)
  also have "\<dots> \<longleftrightarrow> s < b \<and> (\<exists>r. lost m s r)"
    using assms(2) unfolding lost_def by (meson le_less_trans le_trans not_le order.strict_implies_order)
  finally show ?thesis .
qed

section \<open>Properties\<close>

text \<open>C13. Recording a loss is exact: on well-formed intervals and a non-empty range it panics precisely
  when some sequence number of the range is already lost for another reason; otherwise the
  intervals stay well formed (sorted, disjoint, touching only across reasons), the numbers of
  the range are now lost for this reason and every other loss is as before.\<close>

theorem loss_record_exact:
  assumes "loss_ok m" and "first \<le> lst" and "lst \<le> u64_max"
  shows "(loss_record m first lst reason = None \<longleftrightarrow>
        (\<exists>s r. lost m s r \<and> first \<le> s \<and> s \<le> lst \<and> r \<noteq> reason))
    \<and> (\<forall>m' oc. loss_record m first lst reason = Some (m', oc) \<longrightarrow> loss_ok m'
        \<and> (\<forall>s r. lost m' s r \<longleftrightarrow> lost m s r \<or> r = reason \<and> first \<le> s \<and> s \<le> lst))"
  using loss_record_None [OF assms] loss_record_ok [OF assms] loss_record_lost [OF assms] by blast

lemma loss_ok_Nil [simp]: "loss_ok []"
  by (simp add: loss_ok_def apart_def)

definition demo_loss :: intervals where
  "demo_loss = [(3, 5, ''buffer_overflow''), (8, 8, ''oversized_event'')]"

lemma demo_loss_ok: "loss_ok demo_loss"
  by (simp add: demo_loss_def loss_ok_Cons u64_max_def)

lemma demo_loss_lost:
  "lost demo_loss s r \<longleftrightarrow> r = ''buffer_overflow'' \<and> 3 \<le> s \<and> s \<le> 5 \<or> r = ''oversized_event'' \<and> s = 8"
  by (auto simp: demo_loss_def lost_Cons)

theorem loss_record_exact_witness:
  "loss_record demo_loss 6 7 ''buffer_overflow'' \<noteq> None \<and> loss_record demo_loss 6 8 ''buffer_overflow'' = None"
proof -
  have "\<not> (\<exists>s r. lost demo_loss s r \<and> 6 \<le> s \<and> s \<le> 7 \<and> r \<noteq> ''buffer_overflow'')"
    by (auto simp: demo_loss_lost)
  moreover have "lost demo_loss 8 ''oversized_event''" by (simp add: demo_loss_lost)
  then have "\<exists>s r. lost demo_loss s r \<and> 6 \<le> s \<and> s \<le> 8 \<and> r \<noteq> ''buffer_overflow''"
    by (intro exI [of _ 8] exI [of _ "''oversized_event''"]) simp
  moreover have "loss_record demo_loss 6 n ''buffer_overflow'' = None \<longleftrightarrow>
      (\<exists>s r. lost demo_loss s r \<and> 6 \<le> s \<and> s \<le> n \<and> r \<noteq> ''buffer_overflow'')" if "n = 7 \<or> n = 8" for n
    by (rule conjunct1 [OF loss_record_exact [OF demo_loss_ok]]) (use that in \<open>auto simp: u64_max_def\<close>)
  ultimately show ?thesis by blast
qed

text \<open>Acknowledging drops exactly the losses up to the acknowledged number: the intervals stay well
  formed, and a sequence number is still lost, for the same reason, iff it was and lies above.\<close>

theorem loss_acknowledge_exact:
  assumes "loss_ok m"
  shows "loss_ok (loss_acknowledge m seq)
    \<and> (\<forall>s r. lost (loss_acknowledge m seq) s r \<longleftrightarrow> lost m s r \<and> seq < s)"
  using loss_acknowledge_spec [OF assms] by blast

theorem loss_acknowledge_exact_witness:
  "loss_ok (loss_acknowledge demo_loss 4)"
  using loss_acknowledge_exact [OF demo_loss_ok] by blast

end
