(* ===== verification/Event_Session.thy ===== *)
theory Event_Session
  imports Event_Presentation Event_Loss Text_Utils
begin

text \<open>
  The client side of the event stream: \<open>crates/once-events-client/src/session.rs\<close>. The
  session numbers events, keeps the unacknowledged ones in the ring or records them as lost,
  composes batches and interprets acknowledgements. A panic is \<open>None\<close>. The encoded length of
  a batch is the argument \<open>blen\<close>, the other lengths are in the codec.
\<close>

section \<open>Data\<close>

record session_limits =
  lim_ordinary_capacity :: nat
  max_events_per_batch :: nat
  max_event_bytes :: nat
  max_batch_bytes :: nat
  max_log_chunk_bytes :: nat
  max_unacked_bytes :: nat

definition session_limits_default :: session_limits where
  "session_limits_default =
     \<lparr>lim_ordinary_capacity = 4096, max_events_per_batch = 512, max_event_bytes = 64 * 1024,
      max_batch_bytes = 256 * 1024, max_log_chunk_bytes = 16 * 1024, max_unacked_bytes = 8 * 1024 * 1024\<rparr>"

record 'x session =
  s_run_id :: string
  s_next_seq :: nat
  s_expected :: nat
  s_ring :: "'x ring"
  s_started :: "'x run_event option"
  s_loss :: intervals
  s_limits :: session_limits
  s_finalized :: bool
  s_batch_counter :: nat
  s_producer_dropped :: nat
  s_loss_dirty :: bool
  s_last_sent_loss :: nat
  s_log_offsets :: "((string \<times> int) \<times> int) list"
  s_source_files :: source_file_snapshot

record 'x batch =
  b_run_id :: string
  b_batch_id :: string
  b_seq_from :: nat
  b_events :: "'x run_event list"
  b_gaps :: "gap_advance list"
  b_producer_dropped :: nat

datatype ack_action = Continue nat | StaleDropped | InvalidRejected | NeedsResync

datatype disposition = DispUnspecified | DispAccepted | DispRejectedStale | DispRejectedInvalid | DispNeedsResync

record batch_ack =
  ack_run_id :: string
  acked_seq :: nat
  expected_next_seq :: nat
  ack_disposition :: int
  retry_after_ms :: nat

record run_event_ack =
  ra_run_id :: string
  ra_acked_seq :: nat
  ra_expected_next_seq :: nat

definition local_disposition :: "int \<Rightarrow> disposition" where
  "local_disposition v =
     (if v = 1 then DispAccepted else if v = 2 then DispRejectedStale
      else if v = 3 then DispRejectedInvalid else if v = 4 then DispNeedsResync else DispUnspecified)"

section \<open>Construction and counters\<close>

definition session_new :: "string \<Rightarrow> session_limits \<Rightarrow> 'x session" where
  "session_new run l =
     \<lparr>s_run_id = run, s_next_seq = 1, s_expected = 1,
      s_ring = with_byte_capacity (lim_ordinary_capacity l) (max_unacked_bytes l),
      s_started = None, s_loss = loss_new, s_limits = l, s_finalized = False, s_batch_counter = 0,
      s_producer_dropped = 0, s_loss_dirty = False, s_last_sent_loss = 0, s_log_offsets = [],
      s_source_files = None\<rparr>"

definition with_source_files :: "'x session \<Rightarrow> source_file_snapshot \<Rightarrow> 'x session" where
  "with_source_files s snapshot = s\<lparr>s_source_files := snapshot\<rparr>"

text \<open>\<open>bus_chunk\<close> is the event bus's \<open>MAX_LOG_CHUNK_BYTES\<close>.\<close>

definition can_receive :: "nat \<Rightarrow> 'x session \<Rightarrow> bool" where
  "can_receive bus_chunk s =
     (let l = s_limits s;
          log_fragments = div_ceil bus_chunk (max (max_log_chunk_bytes l) 1);
          headroom = sat_mul (max_event_bytes l) log_fragments
      in ordinary_len (s_ring s) < max (lim_ordinary_capacity l div 2) 1
         \<and> encoded_bytes (s_ring s) \<le> sat_sub (max_unacked_bytes l) headroom)"

definition record_producer_loss :: "'x session \<Rightarrow> nat \<Rightarrow> 'x session" where
  "record_producer_loss s count =
     s\<lparr>s_producer_dropped := sat_add (s_producer_dropped s) count, s_loss_dirty := True\<rparr>"

section \<open>Pushing events\<close>

definition record_loss :: "'x session \<Rightarrow> nat \<Rightarrow> nat \<Rightarrow> string \<Rightarrow> 'x session option" where
  "record_loss s first lst reason =
     map_option (\<lambda>(m, _). s\<lparr>s_loss := m\<rparr>) (loss_record (s_loss s) first lst reason)"

fun is_run_completed :: "'x payload \<Rightarrow> bool" where
  "is_run_completed (RunCompleted x) = True"
| "is_run_completed _ = False"

fun is_run_started :: "'x payload \<Rightarrow> bool" where
  "is_run_started (RunStarted x) = True"
| "is_run_started _ = False"

fun classify_payload :: "source_file_snapshot \<Rightarrow> 'x payload \<Rightarrow> 'x payload" where
  "classify_payload sf (ActionCompleted a) = ActionCompleted (classify sf a)"
| "classify_payload sf p = p"

definition push_event :: "'x codec \<Rightarrow> 'x session \<Rightarrow> 'x payload \<Rightarrow> int \<Rightarrow> int \<Rightarrow> ('x session \<times> nat) option" where
  "push_event cd s p epoch mns =
     (if s_finalized s then Some (s, s_next_seq s - 1)
      else if is_run_completed p then None
      else
        (let q = s_next_seq s;
             s1 = s\<lparr>s_next_seq := wrap_add q 1\<rparr>
         in if q = 1 \<and> is_run_started p
            then Some (s1\<lparr>s_started := Some \<lparr>ev_seq = q, epoch_ms = epoch, mono_ns = mns, ev_payload = Some p\<rparr>\<rparr>, q)
            else
              (let e = fit_action_presentation cd
                     \<lparr>ev_seq = q, epoch_ms = epoch, mono_ns = mns,
                      ev_payload = Some (classify_payload (s_source_files s) p)\<rparr>
                     (max_event_bytes (s_limits s))
               in if event_len cd e > max_event_bytes (s_limits s)
                  then map_option (\<lambda>s2. (s2, q)) (record_loss s1 q q ''oversized_event'')
                  else
                    (case push_ordinary (event_len cd) (s_ring s1) \<lparr>seq = q, event = e\<rparr> of
                       None \<Rightarrow> None
                     | Some (r, Accepted) \<Rightarrow> Some (s1\<lparr>s_ring := r\<rparr>, q)
                     | Some (r, OverflowDropped first lst) \<Rightarrow>
                         map_option (\<lambda>s2. (s2, q)) (record_loss (s1\<lparr>s_ring := r\<rparr>) first lst ''buffer_overflow'')
                     | Some (r, OversizedDropped q') \<Rightarrow>
                         map_option (\<lambda>s2. (s2, q)) (record_loss (s1\<lparr>s_ring := r\<rparr>) q' q' ''buffer_byte_limit'')))))"

text \<open>\<open>slice::chunks\<close> with a positive size.\<close>

function chunks :: "nat \<Rightarrow> 'a list \<Rightarrow> 'a list list" where
  "chunks n xs = (if xs = [] \<or> n = 0 then [] else take n xs # chunks n (drop n xs))"
  by pat_completeness auto
termination
  by (relation "measure (\<lambda>(n, xs). length xs)") auto

declare chunks.simps [simp del]

definition i64_max :: int where
  "i64_max = 2 ^ 63 - 1"

text \<open>\<open>saturating_add\<close> of a length, itself capped at \<open>i64::MAX\<close>, to an \<open>i64\<close> offset.\<close>

definition offset_add :: "int \<Rightarrow> nat \<Rightarrow> int" where
  "offset_add off n = min (off + min (int n) i64_max) i64_max"

definition log_fragments :: "session_limits \<Rightarrow> log_chunk \<Rightarrow> log_chunk list" where
  "log_fragments l chunk =
     (let n = max (max_log_chunk_bytes l) 1
      in map (\<lambda>(index, part). chunk\<lparr>offset := offset_add (offset chunk) (sat_mul index n), chunk_bytes := part\<rparr>)
           (enumerate 0 (chunks n (chunk_bytes chunk))))"

fun push_fragments :: "'x codec \<Rightarrow> 'x session \<Rightarrow> nat \<Rightarrow> log_chunk list \<Rightarrow> int \<Rightarrow> int \<Rightarrow> ('x session \<times> nat) option" where
  "push_fragments cd s lst [] epoch mns = Some (s, lst)"
| "push_fragments cd s lst (f # fs) epoch mns =
     (case push_event cd s (LogChunk f) epoch mns of
        None \<Rightarrow> None
      | Some (s', q) \<Rightarrow> push_fragments cd s' q fs epoch mns)"

definition log_offset :: "'x session \<Rightarrow> string \<times> int \<Rightarrow> int" where
  "log_offset s key = (case map_of (s_log_offsets s) key of None \<Rightarrow> 0 | Some off \<Rightarrow> off)"

definition session_push_ordinary ::
  "'x codec \<Rightarrow> 'x session \<Rightarrow> 'x payload \<Rightarrow> int \<Rightarrow> int \<Rightarrow> ('x session \<times> nat) option" where
  "session_push_ordinary cd s p epoch mns =
     (case p of
        LogChunk chunk \<Rightarrow>
          if s_finalized s then Some (s, s_next_seq s - 1)
          else
            (let key = (scope chunk, stream chunk);
                 off = log_offset s key;
                 s1 = s\<lparr>s_log_offsets := (key, offset_add off (length (chunk_bytes chunk))) # s_log_offsets s\<rparr>
             in push_fragments cd s1 (s_next_seq s1 - 1)
                  (log_fragments (s_limits s) (chunk\<lparr>offset := off\<rparr>)) epoch mns)
      | _ \<Rightarrow> push_event cd s p epoch mns)"

definition push_terminal :: "'x session \<Rightarrow> 'x \<Rightarrow> int \<Rightarrow> int \<Rightarrow> 'x session \<times> nat" where
  "push_terminal s result epoch mns =
     (if s_finalized s then (s, s_next_seq s - 1)
      else
        (let fq = s_next_seq s;
             s1 = s\<lparr>s_next_seq := wrap_add fq 1,
                    s_ring := place_finalizing (s_ring s)
                      \<lparr>seq = fq, event = \<lparr>ev_seq = fq, epoch_ms = epoch, mono_ns = mns,
                         ev_payload = Some (RunFinalizing 0)\<rparr>\<rparr>\<rparr>;
             q = s_next_seq s1
         in (s1\<lparr>s_next_seq := wrap_add q 1, s_finalized := True,
                s_ring := place_terminal (s_ring s1)
                  \<lparr>seq = q, event = \<lparr>ev_seq = q, epoch_ms = epoch, mono_ns = mns,
                     ev_payload = Some (RunCompleted result)\<rparr>\<rparr>\<rparr>, q)))"

section \<open>Composing batches\<close>

definition batch_name :: "string \<Rightarrow> nat \<Rightarrow> string" where
  "batch_name run n = run @ ''-b'' @ show_nat n"

fun contiguous :: "'x run_event list \<Rightarrow> 'x pending_event list \<Rightarrow> 'x run_event list" where
  "contiguous evs [] = evs"
| "contiguous evs (p # ps) =
     (if evs \<noteq> [] \<and> ev_seq (last evs) + 1 \<noteq> seq p then evs
      else contiguous (evs @ [event p]) ps)"

fun add_gaps :: "('x batch \<Rightarrow> nat) \<Rightarrow> nat \<Rightarrow> 'x batch \<Rightarrow> gap_advance list \<Rightarrow> 'x batch" where
  "add_gaps blen max_bytes b [] = b"
| "add_gaps blen max_bytes b (g # gs) =
     (let b' = b\<lparr>b_gaps := b_gaps b @ [g]\<rparr>
      in if blen b' > max_bytes then b else add_gaps blen max_bytes b' gs)"

fun add_events :: "('x batch \<Rightarrow> nat) \<Rightarrow> nat \<Rightarrow> 'x batch \<Rightarrow> 'x run_event list \<Rightarrow> 'x batch" where
  "add_events blen max_bytes b [] = b"
| "add_events blen max_bytes b (e # es) =
     (let b' = b\<lparr>b_events := b_events b @ [e]\<rparr>
      in if blen b' > max_bytes then b else add_events blen max_bytes b' es)"

definition next_batch :: "('x batch \<Rightarrow> nat) \<Rightarrow> 'x session \<Rightarrow> 'x session \<times> 'x batch option" where
  "next_batch blen s =
     (if s_next_seq s = 1 then (s, None)
      else
        (let s1 = s\<lparr>s_batch_counter := wrap_add (s_batch_counter s) 1, s_last_sent_loss := s_producer_dropped s\<rparr>;
             name = batch_name (s_run_id s) (wrap_add (s_batch_counter s) 1)
         in case s_started s of
              Some st \<Rightarrow>
                (s1, Some \<lparr>b_run_id = s_run_id s, b_batch_id = name, b_seq_from = 1, b_events = [st], b_gaps = [],
                           b_producer_dropped = s_producer_dropped s\<rparr>)
            | None \<Rightarrow>
                (let limit = max (max_events_per_batch (s_limits s)) 1;
                     snap = snapshot_up_to (s_ring s) limit;
                     first_seq = (case snap of [] \<Rightarrow> s_next_seq s | e # _ \<Rightarrow> seq e);
                     gaps = snapshot_before (s_loss s) first_seq
                 in if snap = [] \<and> gaps = [] \<and> \<not> s_loss_dirty s then (s, None)
                    else
                      (let evs = (if snap = [] then [] else contiguous [] (take limit snap));
                           seq_from = (if snap = [] then s_next_seq s else ev_seq (hd evs));
                           b0 = \<lparr>b_run_id = s_run_id s, b_batch_id = name, b_seq_from = seq_from, b_events = [],
                                 b_gaps = [], b_producer_dropped = s_producer_dropped s\<rparr>;
                           b1 = add_gaps blen (max_batch_bytes (s_limits s)) b0 gaps
                       in if length (b_gaps b1) < length gaps
                          then (s1, Some (b1\<lparr>b_seq_from :=
                                  (if b_gaps b1 = [] then s_expected s else last_dropped_seq (last (b_gaps b1)) + 1)\<rparr>))
                          else (s1, Some (add_events blen (max_batch_bytes (s_limits s)) b1 evs))))))"

section \<open>Acknowledgements\<close>

definition acknowledge :: "'x codec \<Rightarrow> 'x session \<Rightarrow> nat \<Rightarrow> 'x session option" where
  "acknowledge cd s q =
     map_option (\<lambda>r. s\<lparr>s_started := (if q \<ge> 1 then None else s_started s), s_ring := r,
                       s_loss := loss_acknowledge (s_loss s) q\<rparr>)
       (ring_acknowledge (event_len cd) (s_ring s) q)"

definition ack_invalid :: "'x session \<Rightarrow> string \<Rightarrow> nat \<Rightarrow> nat \<Rightarrow> bool" where
  "ack_invalid s run acked expected \<longleftrightarrow>
     run \<noteq> s_run_id s \<or> expected \<noteq> sat_add acked 1 \<or> expected > s_next_seq s \<or> expected < s_expected s"

definition handle_ack :: "'x codec \<Rightarrow> 'x session \<Rightarrow> batch_ack \<Rightarrow> ('x session \<times> ack_action) option" where
  "handle_ack cd s ack =
     (if ack_invalid s (ack_run_id ack) (acked_seq ack) (expected_next_seq ack)
      then Some (s, InvalidRejected)
      else case local_disposition (ack_disposition ack) of
        DispAccepted \<Rightarrow>
          map_option (\<lambda>s1. (s1\<lparr>s_loss_dirty := s_producer_dropped s1 > s_last_sent_loss s1\<rparr>, Continue (retry_after_ms ack)))
            (acknowledge cd (s\<lparr>s_expected := expected_next_seq ack\<rparr>) (acked_seq ack))
      | DispRejectedStale \<Rightarrow>
          map_option (\<lambda>s1. (s1, StaleDropped))
            (if expected_next_seq ack > 0
             then acknowledge cd (s\<lparr>s_expected := expected_next_seq ack\<rparr>) (expected_next_seq ack - 1)
             else Some (s\<lparr>s_expected := expected_next_seq ack\<rparr>))
      | DispRejectedInvalid \<Rightarrow> Some (s, InvalidRejected)
      | DispUnspecified \<Rightarrow> Some (s, InvalidRejected)
      | DispNeedsResync \<Rightarrow> Some (s, NeedsResync))"

definition handle_get_run_ack :: "'x codec \<Rightarrow> 'x session \<Rightarrow> run_event_ack \<Rightarrow> ('x session \<times> ack_action) option" where
  "handle_get_run_ack cd s ack =
     (if ack_invalid s (ra_run_id ack) (ra_acked_seq ack) (ra_expected_next_seq ack)
      then Some (s, InvalidRejected)
      else map_option (\<lambda>s1. (s1, Continue 0))
        (let s1 = s\<lparr>s_expected := ra_expected_next_seq ack, s_loss_dirty := s_producer_dropped s > 0\<rparr>
         in if ra_acked_seq ack > 0 then acknowledge cd s1 (ra_acked_seq ack) else Some s1))"

definition is_drained :: "'x session \<Rightarrow> bool" where
  "is_drained s \<longleftrightarrow> s_started s = None \<and> ring_is_empty (s_ring s) \<and> loss_is_empty (s_loss s) \<and> \<not> s_loss_dirty s"

section \<open>The invariant: every unacknowledged number is held or recorded as lost\<close>

definition heldset :: "'x session \<Rightarrow> nat set" where
  "heldset s = (if s_started s = None then {} else {1}) \<union> set (seqs (held_events (s_ring s)))"

definition lostset :: "'x session \<Rightarrow> nat set" where
  "lostset s = {q. \<exists>r. lost (s_loss s) q r}"

definition numbered :: "'x session \<Rightarrow> bool" where
  "numbered s \<longleftrightarrow> sorted_wrt (<) (seqs (held_events (s_ring s)))
     \<and> (\<forall>e\<in>set (held_events (s_ring s)). ev_seq (event e) = seq e)
     \<and> (\<forall>st. s_started s = Some st \<longrightarrow> ev_seq st = 1 \<and> s_expected s = 1 \<and> 1 \<notin> set (seqs (held_events (s_ring s))))
     \<and> (\<not> s_finalized s \<longrightarrow> finalizing_slot (s_ring s) = None \<and> terminal_slot (s_ring s) = None)"

definition session_ok :: "'x codec \<Rightarrow> 'x session \<Rightarrow> bool" where
  "session_ok cd s \<longleftrightarrow> ring_ok (event_len cd) (s_ring s) \<and> loss_ok (s_loss s) \<and> numbered s
     \<and> 1 \<le> s_expected s \<and> s_expected s \<le> s_next_seq s \<and> s_next_seq s \<le> u64_max
     \<and> heldset s \<inter> lostset s = {} \<and> heldset s \<union> lostset s = {s_expected s..<s_next_seq s}"

lemma session_okD:
  assumes "session_ok cd s"
  shows "ring_ok (event_len cd) (s_ring s)" and "loss_ok (s_loss s)" and "numbered s"
    and "1 \<le> s_expected s" and "s_expected s \<le> s_next_seq s" and "s_next_seq s \<le> u64_max"
    and "heldset s \<inter> lostset s = {}" and "heldset s \<union> lostset s = {s_expected s..<s_next_seq s}"
  using assms unfolding session_ok_def by blast+

lemma session_ok_new: "session_ok cd (session_new run l)"
  by (simp add: session_ok_def session_new_def ring_ok_def with_byte_capacity_def loss_new_def numbered_def
      held_events_def heldset_def lostset_def u64_max_def)

text \<open>Only the numbered part of the state matters.\<close>

lemma session_ok_cong:
  assumes "session_ok cd s" and "s_ring s' = s_ring s" and "s_loss s' = s_loss s" and "s_started s' = s_started s"
    and "s_expected s' = s_expected s" and "s_next_seq s' = s_next_seq s" and "s_finalized s' = s_finalized s"
  shows "session_ok cd s'"
  using assms by (simp add: session_ok_def numbered_def heldset_def lostset_def)

lemma unfinalized_held:
  "numbered s \<Longrightarrow> \<not> s_finalized s \<Longrightarrow> held_events (s_ring s) = events (s_ring s)"
  by (simp add: numbered_def held_events_def)

lemma record_loss_lostset:
  assumes "loss_ok (s_loss s)" and "first \<le> lst" and "lst \<le> u64_max" and "record_loss s first lst reason = Some s'"
  shows "loss_ok (s_loss s')" and "lostset s' = lostset s \<union> {first..lst}"
    and "s' = s\<lparr>s_loss := s_loss s'\<rparr>"
proof -
  obtain m oc where m: "loss_record (s_loss s) first lst reason = Some (m, oc)" "s' = s\<lparr>s_loss := m\<rparr>"
    using assms(4) by (auto simp: record_loss_def)
  show "loss_ok (s_loss s')" "s' = s\<lparr>s_loss := s_loss s'\<rparr>"
    using loss_record_ok [OF assms(1-3) m(1)] m(2) by simp_all
  show "lostset s' = lostset s \<union> {first..lst}"
    using loss_record_lost [OF assms(1-3) m(1)] m(2) by (auto simp: lostset_def)
qed

lemma record_loss_defined:
  assumes "loss_ok (s_loss s)" and "first \<le> lst" and "lst \<le> u64_max" and "lostset s \<inter> {first..lst} = {}"
  shows "record_loss s first lst reason \<noteq> None"
proof -
  have "\<not> (\<exists>q r. lost (s_loss s) q r \<and> first \<le> q \<and> q \<le> lst \<and> r \<noteq> reason)"
    using assms(4) by (auto simp: lostset_def)
  then have "loss_record (s_loss s) first lst reason \<noteq> None"
    using loss_record_None [OF assms(1-3)] by blast
  then show ?thesis by (simp add: record_loss_def)
qed

lemma seqs_at_most:
  assumes "sorted_wrt (<) (seqs evs)" and "0 < k" and "k \<le> length evs"
  shows "set (seqs (drop k evs)) = {q \<in> set (seqs evs). seq (evs ! (k - 1)) < q}"
    and "set (seqs (take k evs)) = {q \<in> set (seqs evs). q \<le> seq (evs ! (k - 1))}"
    and "q \<in> set (seqs evs) \<Longrightarrow> seq (evs ! 0) \<le> q" and "evs ! (k - 1) \<in> set evs" and "evs ! 0 \<in> set evs"
proof -
  let ?xs = "seqs evs"
  have nth: "?xs ! i = seq (evs ! i)" if "i < length evs" for i using that by (simp add: seqs_def)
  have lt: "?xs ! i < ?xs ! j" if "i < j" "j < length evs" for i j
    using assms(1) that by (simp add: sorted_wrt_nth_less)
  have split: "?xs = seqs (take k evs) @ seqs (drop k evs)" by (simp add: seqs_def flip: map_append)
  have hi: "seq (evs ! (k - 1)) < q" if q: "q \<in> set (seqs (drop k evs))" for q
  proof -
    obtain e where e: "e \<in> set (drop k evs)" "q = seq e" using q by auto
    then obtain i where "i < length evs - k" "q = seq (evs ! (k + i))" by (auto simp: in_set_conv_nth)
    then show ?thesis using lt [of "k - 1" "k + i"] nth assms(2) by simp
  qed
  have lo: "q \<le> seq (evs ! (k - 1))" if q: "q \<in> set (seqs (take k evs))" for q
  proof -
    obtain e where e: "e \<in> set (take k evs)" "q = seq e" using q by auto
    then obtain i where i: "i < k" "q = seq (evs ! i)" using assms(3) by (auto simp: in_set_conv_nth)
    then show ?thesis using lt [of i "k - 1"] nth assms(2,3) by (cases "i = k - 1") (auto intro: less_imp_le)
  qed
  have un: "set ?xs = set (seqs (take k evs)) \<union> set (seqs (drop k evs))" using split by (metis set_append)
  show "set (seqs (drop k evs)) = {q \<in> set ?xs. seq (evs ! (k - 1)) < q}"
    unfolding un using hi lo by (auto simp: not_le [symmetric])
  show "set (seqs (take k evs)) = {q \<in> set ?xs. q \<le> seq (evs ! (k - 1))}"
    unfolding un using hi lo by (auto simp: not_le [symmetric])
  show "evs ! (k - 1) \<in> set evs" "evs ! 0 \<in> set evs" using assms(2,3) by (auto intro!: nth_mem)
  show "seq (evs ! 0) \<le> q" if q: "q \<in> set ?xs"
  proof -
    obtain i where "i < length evs" "q = ?xs ! i" using q by (metis in_set_conv_nth seqs_simps(4))
    moreover have "seqs evs ! 0 = seq (evs ! 0)" using assms(2,3) by (intro nth) linarith
    ultimately show ?thesis using lt [of 0 i] by (cases "i = 0") auto
  qed
qed

lemma fit_keeps_seq: "ev_seq (fit_action_presentation cd e m) = ev_seq e"
  by (simp add: fit_action_presentation_def with_action_def Let_def split: option.split payload.split prod.split)

lemma wrap_next: "q < u64_max \<Longrightarrow> wrap_add q 1 = Suc q"
  by (simp add: wrap_add_id)

text \<open>An event that never enters the ring is recorded as lost.\<close>

lemma session_ok_lose:
  assumes "session_ok cd s" and "s_next_seq s < u64_max"
    and "record_loss (s\<lparr>s_next_seq := Suc (s_next_seq s)\<rparr>) (s_next_seq s) (s_next_seq s) reason = Some s'"
  shows "session_ok cd s'"
proof -
  let ?s1 = "s\<lparr>s_next_seq := Suc (s_next_seq s)\<rparr>" and ?q = "s_next_seq s"
  note ok = session_okD [OF assms(1)]
  have "loss_ok (s_loss ?s1)" using ok(2) by simp
  note rl = record_loss_lostset [OF this le_refl _ assms(3)]
  have s': "s' = ?s1\<lparr>s_loss := s_loss s'\<rparr>" "loss_ok (s_loss s')" "lostset s' = lostset s \<union> {?q}"
    using rl assms(2) by (simp_all add: lostset_def)
  have "heldset s' = heldset s" "numbered s'" using ok(3) by (subst s'(1), simp add: heldset_def numbered_def)+
  moreover have "{s_expected s..<Suc ?q} = insert ?q {s_expected s..<?q}" using ok(5) by auto
  moreover have "?q \<notin> heldset s" using ok(8) by auto
  moreover have "s_ring s' = s_ring s" "s_expected s' = s_expected s" "s_next_seq s' = Suc ?q"
    by (subst s'(1), simp)+
  ultimately show ?thesis using ok assms(2) s'(2,3) by (auto simp: session_ok_def)
qed

text \<open>Replacing a range of held numbers by a lost one keeps the partition of the outstanding
  numbers.\<close>

lemma overflow_sets:
  assumes "(S \<union> A) \<union> L = {x..<q::nat}" and "(S \<union> A) \<inter> L = {}" and "S \<subseteq> {1}" and "S \<noteq> {} \<longrightarrow> 1 < f"
    and "f \<in> A" and "l \<in> A" and "\<forall>a\<in>A. f \<le> a"
  shows "(S \<union> {a \<in> A. l < a} \<union> {q}) \<inter> (L \<union> {f..l}) = {}"
    and "(S \<union> {a \<in> A. l < a} \<union> {q}) \<union> (L \<union> {f..l}) = {x..<Suc q}"
proof -
  have mem: "y \<in> S \<or> y \<in> A \<or> y \<in> L \<longleftrightarrow> x \<le> y \<and> y < q" for y
    using assms(1) by (metis UnCI UnE atLeastLessThan_iff)
  have f: "x \<le> f" "f < q" "x \<le> l" "l < q" using mem [of f] mem [of l] assms(5,6) by auto
  have S: "y = 1 \<and> 1 < f" if "y \<in> S" for y using that assms(3,4) by auto
  show "(S \<union> {a \<in> A. l < a} \<union> {q}) \<inter> (L \<union> {f..l}) = {}"
  proof -
    have L: "y \<notin> L" if "y \<in> S \<or> y \<in> A \<or> y = q" for y
      using that assms(2) mem [of y] by (cases "y = q") (auto simp del: atLeastLessThan_iff)
    have "\<not> (f \<le> y \<and> y \<le> l)" if "y \<in> S \<or> l < y" for y using that S [of y] by (cases "l < y") auto
    then have "y \<notin> L \<union> {f..l}" if "y \<in> S \<union> {a \<in> A. l < a} \<union> {q}" for y
      using that f(4) L [of y] by (cases "y = q") auto
    then show ?thesis by blast
  qed
  show "(S \<union> {a \<in> A. l < a} \<union> {q}) \<union> (L \<union> {f..l}) = {x..<Suc q}" (is "?all = _")
  proof (rule set_eqI)
    fix y
    consider "y = q" | "y \<in> {f..l}" "y \<noteq> q" | "y \<noteq> q" "y \<notin> {f..l}" by blast
    then show "y \<in> ?all \<longleftrightarrow> y \<in> {x..<Suc q}"
    proof cases
      case 1 then show ?thesis using f(1,2) by simp
    next
      case 2 then show ?thesis using f(1,4) by simp
    next
      case 3
      have "y \<in> A \<Longrightarrow> l < y" using 3(2) assms(7) by auto
      then have "y \<in> ?all \<longleftrightarrow> y \<in> S \<or> y \<in> A \<or> y \<in> L" using 3 by blast
      then show ?thesis using mem [of y] 3(1) by (simp add: less_Suc_eq)
    qed
  qed
qed

text \<open>An event enters the ring; what it pushed out is recorded as lost.\<close>

lemma session_ok_enter:
  assumes sok: "session_ok cd s" and fin: "\<not> s_finalized s" and lt: "s_next_seq s < u64_max"
    and e: "ev_seq e = s_next_seq s" and small: "event_len cd e \<le> max_encoded_bytes (s_ring s)"
  obtains k r where "k \<le> length (events (s_ring s))"
    and "push_ordinary (event_len cd) (s_ring s) \<lparr>seq = s_next_seq s, event = e\<rparr> = Some (r, if k = 0 then Accepted
      else OverflowDropped (seq (events (s_ring s) ! 0)) (seq (events (s_ring s) ! (k - 1))))"
    and "k = 0 \<Longrightarrow> session_ok cd (s\<lparr>s_next_seq := Suc (s_next_seq s), s_ring := r\<rparr>)"
    and "\<And>s'. 0 < k \<Longrightarrow> record_loss (s\<lparr>s_next_seq := Suc (s_next_seq s), s_ring := r\<rparr>)
      (seq (events (s_ring s) ! 0)) (seq (events (s_ring s) ! (k - 1))) ''buffer_overflow'' = Some s' \<Longrightarrow> session_ok cd s'"
proof -
  let ?q = "s_next_seq s" and ?evs = "events (s_ring s)"
  let ?p = "\<lparr>seq = ?q, event = e\<rparr>"
  note ok = session_okD [OF sok]
  have slots: "finalizing_slot (s_ring s) = None" "terminal_slot (s_ring s) = None"
    using ok(3) fin by (simp_all add: numbered_def)
  have held: "held_events (s_ring s) = ?evs" using unfinalized_held [OF ok(3) fin] .
  have below: "x < ?q" if "x \<in> set (seqs ?evs)" for x using ok(8) that held by (fastforce simp: heldset_def)
  have srt: "sorted_wrt (<) (seqs ?evs)" using ok(1) by (simp add: ring_ok_def)
  have new: "\<forall>x\<in>set (seqs ?evs). x < seq ?p" "seq ?p \<le> u64_max" "event_len cd (event ?p) \<le> max_encoded_bytes (s_ring s)"
    using below lt small by auto
  obtain k r where k: "k \<le> length ?evs"
    "push_ordinary (event_len cd) (s_ring s) ?p = Some (r, if k = 0 then Accepted
      else OverflowDropped (seq (?evs ! 0)) (seq (?evs ! (k - 1))))"
    and r: "r = (s_ring s)\<lparr>encoded_bytes := total_len (event_len cd) (drop k ?evs) + event_len cd (event ?p), events := drop k ?evs @ [?p]\<rparr>"
    and rok: "ring_ok (event_len cd) r"
    by (rule push_ordinary_spec [OF ok(1) new]) (rule that)
  let ?s1 = "s\<lparr>s_next_seq := Suc ?q, s_ring := r\<rparr>"
  have held1: "held_events r = drop k ?evs @ [?p]" using slots by (simp add: r held_events_def)
  have evs_r: "events r = drop k ?evs @ [?p]" by (simp add: r)
  have num: "numbered ?s1"
    unfolding numbered_def
  proof (intro conjI allI impI ballI)
    show "sorted_wrt (<) (seqs (held_events (s_ring ?s1)))"
      using rok by (simp add: held1 ring_ok_def evs_r)
    show "ev_seq (event x) = seq x" if "x \<in> set (held_events (s_ring ?s1))" for x
      using that ok(3) e in_set_dropD [of x k ?evs] by (auto simp: held1 numbered_def held)
    show "finalizing_slot (s_ring ?s1) = None" "terminal_slot (s_ring ?s1) = None" using slots by (simp_all add: r)
    fix st assume st: "s_started ?s1 = Some st"
    then show "ev_seq st = 1" "s_expected ?s1 = 1" using ok(3) by (simp_all add: numbered_def)
    have "1 < ?q" using ok(8) st by (auto simp: heldset_def)
    moreover have "1 \<notin> set (seqs ?evs)" using ok(3) st by (simp add: numbered_def held)
    ultimately show "1 \<notin> set (seqs (held_events (s_ring ?s1)))"
      using in_set_dropD [of _ k ?evs] by (auto simp: held1)
  qed
  have range: "{s_expected s..<Suc ?q} = insert ?q {s_expected s..<?q}" using ok(5) by auto
  have hs: "heldset s = (if s_started s = None then {} else {1}) \<union> set (seqs ?evs)"
    and hs1: "heldset ?s1 = (if s_started s = None then {} else {1}) \<union> set (seqs (drop k ?evs)) \<union> {?q}"
    by (auto simp: heldset_def held held1)
  have frontier: "?q \<notin> heldset s \<union> lostset s" using ok(8) by auto
  have base: "session_ok cd s'" if "s' = ?s1\<lparr>s_loss := s_loss s'\<rparr>" "loss_ok (s_loss s')"
    "heldset ?s1 \<inter> lostset s' = {}" "heldset ?s1 \<union> lostset s' = {s_expected s..<Suc ?q}" for s'
  proof -
    have "heldset s' = heldset ?s1" "numbered s'" using num by (subst that(1), simp add: heldset_def numbered_def)+
    moreover have "s_ring s' = r" "s_expected s' = s_expected s" "s_next_seq s' = Suc ?q" by (subst that(1), simp)+
    ultimately show ?thesis using ok(4,5) lt rok that(2-4) by (simp add: session_ok_def)
  qed
  show ?thesis
  proof (rule that [OF k])
    assume "k = 0"
    then have "heldset ?s1 = insert ?q (heldset s)" using hs hs1 by auto
    moreover have "lostset ?s1 = lostset s" by (simp add: lostset_def)
    ultimately show "session_ok cd ?s1"
      using base [of ?s1] ok(2,7,8) frontier range by auto
  next
    fix s' assume pos: "0 < k"
      and rl: "record_loss ?s1 (seq (?evs ! 0)) (seq (?evs ! (k - 1))) ''buffer_overflow'' = Some s'"
    let ?f = "seq (?evs ! 0)" and ?l = "seq (?evs ! (k - 1))"
    note am = seqs_at_most [OF srt pos k(1)]
    have fl: "?f \<le> ?l" "?l \<in> set (seqs ?evs)" "?f \<in> set (seqs ?evs)" using am(3-5) by auto
    have "?l \<le> u64_max" using below [OF fl(2)] lt by simp
    have l1: "loss_ok (s_loss ?s1)" using ok(2) by simp
    note rec = record_loss_lostset [OF l1 fl(1) \<open>?l \<le> u64_max\<close> rl]
    have lost': "lostset s' = lostset s \<union> {?f..?l}" using rec(2) by (simp add: lostset_def)
    have one: "1 < ?f" if "s_started s \<noteq> None"
    proof -
      have "s_expected s = 1" "1 \<notin> set (seqs ?evs)" using that ok(3) by (auto simp: numbered_def held)
      moreover have "s_expected s \<le> ?f" using ok(8) fl(3) hs by auto
      ultimately show ?thesis using fl(3) by (metis le_neq_implies_less)
    qed
    let ?S = "if s_started s = None then {} else {1::nat}"
    have S: "?S \<subseteq> {1}" "?S \<noteq> {} \<longrightarrow> 1 < ?f" using one by simp_all
    have "\<forall>a\<in>set (seqs ?evs). ?f \<le> a" using am(3) by blast
    note sets = overflow_sets [OF ok(8) [unfolded hs] ok(7) [unfolded hs] S fl(3,2) this]
    have "heldset ?s1 \<inter> lostset s' = {}" "heldset ?s1 \<union> lostset s' = {s_expected s..<Suc ?q}"
      unfolding hs1 lost' am(1) by (rule sets)+
    then show "session_ok cd s'" using base [OF rec(3,1)] by blast
  qed
qed

lemma session_ok_push_event:
  assumes sok: "session_ok cd s" and lt: "s_next_seq s < u64_max" and push: "push_event cd s p epoch mns = Some (s', q)"
  shows "session_ok cd s'" and "s_next_seq s \<le> s_next_seq s'" and "s_next_seq s' \<le> Suc (s_next_seq s)"
    and "s_limits s' = s_limits s"
proof -
  have "session_ok cd s' \<and> s_next_seq s \<le> s_next_seq s' \<and> s_next_seq s' \<le> Suc (s_next_seq s) \<and> s_limits s' = s_limits s"
  proof (cases "s_finalized s")
    case True
    then show ?thesis using push sok by (simp add: push_event_def)
  next
    case fin: False
    let ?q = "s_next_seq s"
    define s1 where "s1 = s\<lparr>s_next_seq := Suc ?q\<rparr>"
    note push' = push [unfolded push_event_def Let_def, unfolded wrap_next [OF lt], folded s1_def]
    have lose: "?thesis" if "record_loss s1 ?q ?q reason = Some s'" for reason
    proof -
      have "record_loss s1 ?q ?q reason = Some (s1\<lparr>s_loss := s_loss s'\<rparr>)"
        using that by (auto simp: record_loss_def)
      then have "s' = s1\<lparr>s_loss := s_loss s'\<rparr>" using that by simp
      moreover have "session_ok cd s'" using session_ok_lose [OF sok lt] that by (simp add: s1_def)
      moreover have "s_next_seq (s1\<lparr>s_loss := m\<rparr>) = Suc ?q" "s_limits (s1\<lparr>s_loss := m\<rparr>) = s_limits s" for m
        by (simp_all add: s1_def)
      ultimately show ?thesis by (metis Suc_n_not_le_n le_refl nat_le_linear)
    qed
    show ?thesis
    proof (cases "?q = 1 \<and> is_run_started p")
      case True
      then have s': "s' = s1\<lparr>s_started := Some \<lparr>ev_seq = ?q, epoch_ms = epoch, mono_ns = mns, ev_payload = Some p\<rparr>\<rparr>"
        using push' fin by (auto split: if_splits)
      note ok = session_okD [OF sok]
      have e1: "s_expected s = 1" using ok(4,5) True by simp
      then have none: "heldset s = {}" "lostset s = {}" using ok(8) True by auto
      then have none': "held_events (s_ring s) = []" by (auto simp: heldset_def)
      have "{1..<Suc 1} = {1::nat}" by auto
      then have "session_ok cd s'"
        using ok(1,2) lt True e1 none(2) ok(3)
        by (simp add: s' s1_def session_ok_def numbered_def heldset_def lostset_def none')
      then show ?thesis by (simp add: s' s1_def)
    next
      case nst: False
      have nc: "\<not> is_run_completed p" and ring1: "s_ring s1 = s_ring s"
        using push' fin by (auto simp: s1_def split: if_splits)
      define e where "e = fit_action_presentation cd
                     \<lparr>ev_seq = ?q, epoch_ms = epoch, mono_ns = mns,
                      ev_payload = Some (classify_payload (s_source_files s) p)\<rparr>
                     (max_event_bytes (s_limits s))"
      have body: "(if event_len cd e > max_event_bytes (s_limits s)
                  then map_option (\<lambda>s2. (s2, ?q)) (record_loss s1 ?q ?q ''oversized_event'')
                  else
                    (case push_ordinary (event_len cd) (s_ring s) \<lparr>seq = ?q, event = e\<rparr> of
                       None \<Rightarrow> None
                     | Some (r, Accepted) \<Rightarrow> Some (s1\<lparr>s_ring := r\<rparr>, ?q)
                     | Some (r, OverflowDropped first lst) \<Rightarrow>
                         map_option (\<lambda>s2. (s2, ?q)) (record_loss (s1\<lparr>s_ring := r\<rparr>) first lst ''buffer_overflow'')
                     | Some (r, OversizedDropped q') \<Rightarrow>
                         map_option (\<lambda>s2. (s2, ?q)) (record_loss (s1\<lparr>s_ring := r\<rparr>) q' q' ''buffer_byte_limit'')))
            = Some (s', q)" (is "?body = _")
        using push' unfolding e_def [symmetric] by (simp only: fin nst nc ring1 if_False)
      consider (big) "event_len cd e > max_event_bytes (s_limits s)"
        | (huge) "event_len cd e \<le> max_event_bytes (s_limits s)" "max_encoded_bytes (s_ring s) < event_len cd e"
        | (fits) "event_len cd e \<le> max_event_bytes (s_limits s)" "event_len cd e \<le> max_encoded_bytes (s_ring s)"
        by linarith
      then show ?thesis
      proof cases
        case big
        then have "record_loss s1 ?q ?q ''oversized_event'' = Some s'" using body by auto
        then show ?thesis by (rule lose)
      next
        case huge
        have "s1\<lparr>s_ring := s_ring s\<rparr> = s1" by (simp add: s1_def)
        then have "record_loss s1 ?q ?q ''buffer_byte_limit'' = Some s'"
          using body huge by (auto simp: push_ordinary_def)
        then show ?thesis by (rule lose)
      next
        case fits
        have eq: "ev_seq e = ?q" by (simp add: e_def fit_keeps_seq)
        obtain k r where k: "k \<le> length (events (s_ring s))"
          and po: "push_ordinary (event_len cd) (s_ring s) \<lparr>seq = ?q, event = e\<rparr> = Some (r, if k = 0 then Accepted
            else OverflowDropped (seq (events (s_ring s) ! 0)) (seq (events (s_ring s) ! (k - 1))))"
          and k0: "k = 0 \<Longrightarrow> session_ok cd (s\<lparr>s_next_seq := Suc ?q, s_ring := r\<rparr>)"
          and kp: "\<And>s'. 0 < k \<Longrightarrow> record_loss (s\<lparr>s_next_seq := Suc ?q, s_ring := r\<rparr>)
            (seq (events (s_ring s) ! 0)) (seq (events (s_ring s) ! (k - 1))) ''buffer_overflow'' = Some s' \<Longrightarrow> session_ok cd s'"
          by (rule session_ok_enter [OF sok fin lt eq fits(2)]) (rule that)
        show ?thesis
        proof (cases "k = 0")
          case True
          then have "s' = s1\<lparr>s_ring := r\<rparr>" using body po fits by auto
          then show ?thesis using k0 True by (simp add: s1_def)
        next
          case False
          then have rl: "record_loss (s1\<lparr>s_ring := r\<rparr>) (seq (events (s_ring s) ! 0)) (seq (events (s_ring s) ! (k - 1)))
              ''buffer_overflow'' = Some s'"
            using body po fits by auto
          then obtain m where "s' = s1\<lparr>s_ring := r, s_loss := m\<rparr>" by (auto simp: record_loss_def)
          then show ?thesis using kp False rl by (simp add: s1_def)
        qed
      qed
    qed
  qed
  then show "session_ok cd s'" "s_next_seq s \<le> s_next_seq s'" "s_next_seq s' \<le> Suc (s_next_seq s)" "s_limits s' = s_limits s"
    by blast+
qed

lemma session_ok_push_fragments:
  assumes "session_ok cd s" and "s_next_seq s + length fs \<le> u64_max" and "push_fragments cd s lst fs epoch mns = Some (s', q)"
  shows "session_ok cd s'"
  using assms
proof (induction fs arbitrary: s lst)
  case (Cons f fs)
  obtain s1 q1 where p: "push_event cd s (LogChunk f) epoch mns = Some (s1, q1)"
    and rest: "push_fragments cd s1 q1 fs epoch mns = Some (s', q)"
    using Cons.prems(3) by (auto split: option.splits)
  have lt: "s_next_seq s < u64_max" using Cons.prems(2) by simp
  note ok = session_ok_push_event [OF Cons.prems(1) lt p]
  show ?case using Cons.IH [OF ok(1) _ rest] ok(3) Cons.prems(2) by simp
qed simp

text \<open>The sequence numbers a payload takes.\<close>

definition numbers_needed :: "session_limits \<Rightarrow> 'x payload \<Rightarrow> nat" where
  "numbers_needed l p = (case p of LogChunk c \<Rightarrow> length (log_fragments l c) | _ \<Rightarrow> 1)"

lemma log_fragments_length: "length (log_fragments l (c\<lparr>offset := off\<rparr>)) = length (log_fragments l c)"
  by (simp add: log_fragments_def Let_def)

lemma session_ok_push_ordinary:
  assumes sok: "session_ok cd s" and room: "s_next_seq s + numbers_needed (s_limits s) p \<le> u64_max"
    and push: "session_push_ordinary cd s p epoch mns = Some (s', q)"
  shows "session_ok cd s'"
proof (cases "\<exists>c. p = LogChunk c")
  case True
  then obtain c where c: "p = LogChunk c" by blast
  show ?thesis
  proof (cases "s_finalized s")
    case True
    then show ?thesis using push sok by (simp add: session_push_ordinary_def c)
  next
    case False
    define s1 where "s1 = s\<lparr>s_log_offsets := ((scope c, stream c),
      offset_add (log_offset s (scope c, stream c)) (length (chunk_bytes c))) # s_log_offsets s\<rparr>"
    have ok1: "session_ok cd s1" by (rule session_ok_cong [OF sok]) (simp_all add: s1_def)
    have frags: "push_fragments cd s1 (s_next_seq s1 - 1)
        (log_fragments (s_limits s) (c\<lparr>offset := log_offset s (scope c, stream c)\<rparr>)) epoch mns = Some (s', q)"
      using push False by (simp add: session_push_ordinary_def c s1_def Let_def)
    show ?thesis
      by (rule session_ok_push_fragments [OF ok1 _ frags])
        (use room in \<open>simp add: c numbers_needed_def log_fragments_length s1_def\<close>)
  qed
next
  case False
  then have "push_event cd s p epoch mns = Some (s', q)" "numbers_needed (s_limits s) p = 1"
    using push by (cases p; simp add: session_push_ordinary_def numbers_needed_def)+
  then show ?thesis using session_ok_push_event(1) [OF sok] room by simp
qed

lemma session_ok_push_terminal:
  assumes sok: "session_ok cd s" and room: "s_next_seq s + 2 \<le> u64_max"
  shows "session_ok cd (fst (push_terminal s x epoch mns))"
proof (cases "s_finalized s")
  case True
  then show ?thesis using sok by (simp add: push_terminal_def)
next
  case fin: False
  note ok = session_okD [OF sok]
  let ?q = "s_next_seq s" and ?r = "s_ring s"
  have slots: "finalizing_slot ?r = None" "terminal_slot ?r = None" using ok(3) fin by (simp_all add: numbered_def)
  have w: "wrap_add ?q 1 = Suc ?q" "wrap_add (Suc ?q) 1 = Suc (Suc ?q)" using room by (simp_all add: wrap_next [simplified])
  define f where "f = \<lparr>seq = ?q, event = \<lparr>ev_seq = ?q, epoch_ms = epoch, mono_ns = mns,
    ev_payload = Some (RunFinalizing 0 :: 'a payload)\<rparr>\<rparr>"
  define t where "t = \<lparr>seq = Suc ?q, event = \<lparr>ev_seq = Suc ?q, epoch_ms = epoch, mono_ns = mns,
    ev_payload = Some (RunCompleted x)\<rparr>\<rparr>"
  define s' where "s' = fst (push_terminal s x epoch mns)"
  have s': "s' = s\<lparr>s_next_seq := Suc (Suc ?q), s_finalized := True,
      s_ring := ?r\<lparr>finalizing_slot := Some f, terminal_slot := Some t\<rparr>\<rparr>"
    using fin by (simp add: s'_def push_terminal_def Let_def slots w [simplified] place_finalizing_def place_terminal_def f_def t_def)
  have ft: "seq f = ?q" "seq t = Suc ?q" "ev_seq (event f) = ?q" "ev_seq (event t) = Suc ?q"
    by (simp_all add: f_def t_def)
  have held: "held_events ?r = events ?r" "held_events (s_ring s') = events ?r @ [f, t]"
    by (simp_all add: s' held_events_def slots)
  have st: "s_started s' = s_started s" by (simp add: s')
  have below: "q < ?q" if "q \<in> set (seqs (events ?r))" for q
    using ok(8) that held(1) by (auto simp: heldset_def)
  have one: "1 < ?q" if "s_started s \<noteq> None" using ok(8) that by (auto simp: heldset_def)
  have num: "numbered s'"
    using ok(3) below one unfolding numbered_def held
    by (auto simp: s' ft sorted_wrt_append less_Suc_eq)
  have hl: "heldset s' = heldset s \<union> {?q, Suc ?q}" "lostset s' = lostset s"
    unfolding heldset_def held st lostset_def by (auto simp: ft s')
  have rg: "{s_expected s..<Suc (Suc ?q)} = {s_expected s..<?q} \<union> {?q, Suc ?q}" using ok(5) by auto
  have "q \<notin> lostset s" if "?q \<le> q" for q using ok(8) that by (metis UnCI atLeastLessThan_iff not_le)
  then have "{?q, Suc ?q} \<inter> lostset s = {}" by simp
  then have "heldset s' \<inter> lostset s' = {}" "heldset s' \<union> lostset s' = {s_expected s..<Suc (Suc ?q)}"
    unfolding hl rg using ok(7,8) by (simp add: Int_Un_distrib2, metis Un_assoc Un_commute)
  moreover have "ring_ok (event_len cd) (s_ring s')" using ok(1) by (simp add: s' ring_ok_def)
  moreover have "s_expected s' = s_expected s" "s_next_seq s' = Suc (Suc ?q)" "s_loss s' = s_loss s" by (simp_all add: s')
  ultimately show ?thesis
    unfolding s'_def [symmetric] session_ok_def using ok(2,4,5) num room by simp
qed

lemma session_ok_next_batch:
  assumes "session_ok cd s"
  shows "session_ok cd (fst (next_batch blen s))"
proof -
  have "fst (next_batch blen s) \<in> {s, s\<lparr>s_batch_counter := wrap_add (s_batch_counter s) 1, s_last_sent_loss := s_producer_dropped s\<rparr>}"
    unfolding next_batch_def Let_def
    by (simp only: if_distrib [of fst] option.case_distrib [of fst] fst_conv if_cancel) (simp split: option.split)
  then show ?thesis using assms by (auto intro!: session_ok_cong [OF assms])
qed

lemma held_events_acked:
  "held_events (r\<lparr>events := filter (\<lambda>e. acked < seq e) (events r), encoded_bytes := b,
      terminal_slot := ack_slot acked (terminal_slot r), finalizing_slot := ack_slot acked (finalizing_slot r)\<rparr>)
     = filter (\<lambda>e. acked < seq e) (held_events r)"
  by (auto simp: held_events_def ack_slot_def split: option.split)

lemma session_ok_acknowledge:
  assumes sok: "session_ok cd s" and e: "expd = sat_add acked 1" "s_expected s \<le> expd" "expd \<le> s_next_seq s"
  obtains s' where "acknowledge cd (s\<lparr>s_expected := expd\<rparr>) acked = Some s'" and "session_ok cd s'"
    and "s_run_id s' = s_run_id s" and "s_expected s' = expd" and "s_next_seq s' = s_next_seq s" and "s_limits s' = s_limits s"
    and "s_producer_dropped s' = s_producer_dropped s" and "s_last_sent_loss s' = s_last_sent_loss s"
proof -
  note ok = session_okD [OF sok]
  have past: "acked < x \<longleftrightarrow> expd \<le> x" if "x < s_next_seq s" for x
    using that e(1) ok(6) by (auto simp: sat_add_def)
  let ?r = "(s_ring s)\<lparr>events := filter (\<lambda>e. acked < seq e) (events (s_ring s)),
         encoded_bytes := total_len (event_len cd) (filter (\<lambda>e. acked < seq e) (events (s_ring s))),
         terminal_slot := ack_slot acked (terminal_slot (s_ring s)), finalizing_slot := ack_slot acked (finalizing_slot (s_ring s))\<rparr>"
  define s' where "s' = s\<lparr>s_expected := expd, s_started := (if acked \<ge> 1 then None else s_started s), s_ring := ?r,
                       s_loss := loss_acknowledge (s_loss s) acked\<rparr>"
  have ack: "acknowledge cd (s\<lparr>s_expected := expd\<rparr>) acked = Some s'"
    using ring_acknowledge_spec(1) [OF ok(1), of acked] by (simp add: acknowledge_def s'_def)
  have held: "held_events (s_ring s') = filter (\<lambda>e. acked < seq e) (held_events (s_ring s))"
    by (simp add: s'_def held_events_acked del: filter_True)
  have sub: "set (seqs (filter P xs)) \<subseteq> set (seqs xs)" for P and xs :: "'a pending_event list" by auto
  have hs: "heldset s' = {x \<in> heldset s. acked < x}"
    unfolding heldset_def held by (auto simp: s'_def)
  have ls: "lostset s' = {x \<in> lostset s. acked < x}"
    using loss_acknowledge_spec(2) [OF ok(2)] by (auto simp: lostset_def s'_def)
  have "sorted_wrt (<) (seqs (filter P xs))" if "sorted_wrt (<) (seqs xs)" for P and xs :: "'a pending_event list"
    using that by (simp add: seqs_def sorted_wrt_map sorted_wrt_filter)
  moreover have "expd = 1" if "acked = 0" using that e(1) by (simp add: sat_add_def u64_max_def)
  ultimately have "numbered s'"
    using ok(3) unfolding numbered_def held by (auto simp: s'_def ack_slot_def)
  moreover have "heldset s' \<inter> lostset s' = {}" using ok(7) unfolding hs ls by blast
  moreover have "heldset s' \<union> lostset s' = {expd..<s_next_seq s}"
  proof -
    have "heldset s' \<union> lostset s' = {x \<in> heldset s \<union> lostset s. acked < x}" unfolding hs ls by blast
    also have "\<dots> = {x. s_expected s \<le> x \<and> x < s_next_seq s \<and> acked < x}" unfolding ok(8) by auto
    also have "\<dots> = {expd..<s_next_seq s}" using past e(2) by (auto intro: order_trans)
    finally show ?thesis .
  qed
  moreover have "ring_ok (event_len cd) (s_ring s')" using ring_acknowledge_spec(2) [OF ok(1)] by (simp add: s'_def)
  moreover have "loss_ok (s_loss s')" using loss_acknowledge_spec(1) [OF ok(2)] by (simp add: s'_def)
  moreover have fields: "s_run_id s' = s_run_id s" "s_expected s' = expd" "s_next_seq s' = s_next_seq s" "s_limits s' = s_limits s"
    "s_producer_dropped s' = s_producer_dropped s" "s_last_sent_loss s' = s_last_sent_loss s"
    by (simp_all add: s'_def)
  ultimately have "session_ok cd s'" using ok(4,6) e(2,3) by (simp add: session_ok_def)
  then show ?thesis by (rule that [OF ack _ fields])
qed

lemma ack_valid_bounds:
  assumes "\<not> ack_invalid s run acked expd"
  shows "expd = sat_add acked 1" and "s_expected s \<le> expd" and "expd \<le> s_next_seq s"
  using assms by (simp_all add: ack_invalid_def)

lemma session_ok_handle_ack:
  assumes sok: "session_ok cd s"
  obtains s' act where "handle_ack cd s ack = Some (s', act)" and "session_ok cd s'"
    and "act = Continue (retry_after_ms ack) \<or> act = StaleDropped \<longrightarrow> s_expected s' = expected_next_seq ack"
    and "act = InvalidRejected \<or> act = NeedsResync \<longrightarrow> s' = s"
proof (cases "ack_invalid s (ack_run_id ack) (acked_seq ack) (expected_next_seq ack)")
  case True
  then show ?thesis using that [of s InvalidRejected] sok by (simp add: handle_ack_def)
next
  case False
  let ?e = "expected_next_seq ack"
  note v = ack_valid_bounds [OF False]
  note ok = session_okD [OF sok]
  have pos: "0 < ?e" using v(2) ok(4) by simp
  have e': "?e = sat_add (?e - 1) 1" using pos v(3) ok(6) by (simp add: sat_add_def)
  obtain s1 where s1: "acknowledge cd (s\<lparr>s_expected := ?e\<rparr>) (acked_seq ack) = Some s1" "session_ok cd s1" "s_expected s1 = ?e"
    by (rule session_ok_acknowledge [OF sok v])
  obtain s2 where s2: "acknowledge cd (s\<lparr>s_expected := ?e\<rparr>) (?e - 1) = Some s2" "session_ok cd s2" "s_expected s2 = ?e"
    by (rule session_ok_acknowledge [OF sok e' v(2,3)])
  show ?thesis
  proof (cases "local_disposition (ack_disposition ack)")
    case DispAccepted
    let ?s = "s1\<lparr>s_loss_dirty := s_producer_dropped s1 > s_last_sent_loss s1\<rparr>"
    have "session_ok cd ?s" by (rule session_ok_cong [OF s1(2)]) simp_all
    then show ?thesis using that [of ?s "Continue (retry_after_ms ack)"] False DispAccepted s1 by (simp add: handle_ack_def)
  next
    case DispRejectedStale
    then show ?thesis using that [of s2 StaleDropped] False s2 pos by (simp add: handle_ack_def)
  qed (use that [of s] sok False in \<open>simp_all add: handle_ack_def\<close>)
qed

lemma session_ok_handle_get_run_ack:
  assumes sok: "session_ok cd s"
  obtains s' act where "handle_get_run_ack cd s ack = Some (s', act)" and "session_ok cd s'"
    and "act = InvalidRejected \<and> s' = s \<or> act = Continue 0 \<and> s_expected s' = ra_expected_next_seq ack"
proof (cases "ack_invalid s (ra_run_id ack) (ra_acked_seq ack) (ra_expected_next_seq ack)")
  case True
  then show ?thesis using that [of s InvalidRejected] sok by (simp add: handle_get_run_ack_def)
next
  case False
  let ?e = "ra_expected_next_seq ack"
  note v = ack_valid_bounds [OF False]
  define s0 where "s0 = s\<lparr>s_loss_dirty := s_producer_dropped s > 0\<rparr>"
  have ok0: "session_ok cd s0" by (rule session_ok_cong [OF sok]) (simp_all add: s0_def)
  have v0: "s_expected s0 \<le> ?e" "?e \<le> s_next_seq s0" using v by (simp_all add: s0_def)
  have upd: "s\<lparr>s_expected := ?e, s_loss_dirty := s_producer_dropped s > 0\<rparr> = s0\<lparr>s_expected := ?e\<rparr>" by (simp add: s0_def)
  show ?thesis
  proof (cases "ra_acked_seq ack > 0")
    case True
    obtain s1 where "acknowledge cd (s0\<lparr>s_expected := ?e\<rparr>) (ra_acked_seq ack) = Some s1" "session_ok cd s1" "s_expected s1 = ?e"
      by (rule session_ok_acknowledge [OF ok0 v(1) v0])
    then show ?thesis using that [of s1 "Continue 0"] False True by (simp add: handle_get_run_ack_def Let_def upd)
  next
    case no: False
    then have "?e = 1" using v(1) by (simp add: sat_add_def u64_max_def)
    then have "s_expected s = ?e" using v(2) session_okD(4) [OF sok] by simp
    then have "s0\<lparr>s_expected := ?e\<rparr> = s0" by (simp add: s0_def)
    then show ?thesis using that [of s0 "Continue 0"] False no ok0 \<open>s_expected s = ?e\<close>
      by (simp add: handle_get_run_ack_def Let_def upd) (simp add: s0_def)
  qed
qed

section \<open>Reachable sessions\<close>

text \<open>The sessions a transport can produce through the public operations. Sequence numbers are 64 bit;
  a push happens only while enough of them are left.\<close>

inductive session_reach :: "'x codec \<Rightarrow> ('x batch \<Rightarrow> nat) \<Rightarrow> 'x session \<Rightarrow> bool" for cd blen where
  reach_new: "session_reach cd blen (session_new run l)"
| reach_source_files: "session_reach cd blen s \<Longrightarrow> session_reach cd blen (with_source_files s snapshot)"
| reach_producer_loss: "session_reach cd blen s \<Longrightarrow> session_reach cd blen (record_producer_loss s count)"
| reach_push: "session_reach cd blen s \<Longrightarrow> s_next_seq s + numbers_needed (s_limits s) p \<le> u64_max \<Longrightarrow>
    session_push_ordinary cd s p epoch mns = Some (s', q) \<Longrightarrow> session_reach cd blen s'"
| reach_terminal: "session_reach cd blen s \<Longrightarrow> s_next_seq s + 2 \<le> u64_max \<Longrightarrow>
    push_terminal s x epoch mns = (s', q) \<Longrightarrow> session_reach cd blen s'"
| reach_batch: "session_reach cd blen s \<Longrightarrow> next_batch blen s = (s', b) \<Longrightarrow> session_reach cd blen s'"
| reach_ack: "session_reach cd blen s \<Longrightarrow> handle_ack cd s ack = Some (s', act) \<Longrightarrow> session_reach cd blen s'"
| reach_run_ack: "session_reach cd blen s \<Longrightarrow> handle_get_run_ack cd s rack = Some (s', act) \<Longrightarrow> session_reach cd blen s'"

lemma session_reach_ok: "session_reach cd blen s \<Longrightarrow> session_ok cd s"
proof (induction rule: session_reach.induct)
  case (reach_new run l)
  then show ?case by (rule session_ok_new)
next
  case (reach_source_files s snapshot)
  show ?case by (rule session_ok_cong [OF reach_source_files.IH]) (simp_all add: with_source_files_def)
next
  case (reach_producer_loss s count)
  show ?case by (rule session_ok_cong [OF reach_producer_loss.IH]) (simp_all add: record_producer_loss_def)
next
  case (reach_push s p epoch mns s' q)
  show ?case by (rule session_ok_push_ordinary [OF reach_push.IH reach_push.hyps(2,3)])
next
  case (reach_terminal s x epoch mns s' q)
  then show ?case using session_ok_push_terminal [of cd s x epoch mns] by simp
next
  case (reach_batch s s' b)
  then show ?case using session_ok_next_batch [of cd s blen] by simp
next
  case (reach_ack s ack s' act)
  show ?case by (rule session_ok_handle_ack [OF reach_ack.IH, of ack]) (use reach_ack.hyps in simp)
next
  case (reach_run_ack s rack s' act)
  show ?case by (rule session_ok_handle_get_run_ack [OF reach_run_ack.IH, of rack]) (use reach_run_ack.hyps in simp)
qed

lemma no_loss_iff:
  assumes "loss_ok m"
  shows "m = [] \<longleftrightarrow> (\<nexists>q r. lost m q r)"
proof (cases m)
  case (Cons a m')
  obtain f l r where a: "a = (f, l, r)" by (cases a)
  then have "lost m f r" using assms Cons loss_okD(1) [OF assms] by (auto simp: lost_def loss_ok_Cons bm_get_in_iff)
  then show ?thesis using Cons by blast
qed (simp add: lost_def)

end
