(* ===== verification/Event_Batch.thy ===== *)
theory Event_Batch
  imports Event_Session
begin

text \<open>
  What a batch composed by the session promises the server, and what the session does with log
  chunks. The definitions are those of the session
  (\<open>crates/once-events-client/src/session.rs\<close>); this theory holds the properties that relate
  a batch to the numbers the session still owes.
\<close>

section \<open>Every number is accounted for\<close>

text \<open>C5. In every session the transport can reach, each number between the server's acknowledged
  frontier and the next number to mint is accounted for exactly once: it is either still held (in the
  start slot, the ring or the two terminal slots) or recorded as lost, never both and never neither; the
  ring respects its event and byte capacities; and when the frontier has caught up nothing is left to
  send but a dirty producer loss counter.\<close>

theorem session_accounts_for_every_number:
  assumes "session_reach cd blen s"
  shows "(\<forall>q. s_expected s \<le> q \<and> q < s_next_seq s \<longleftrightarrow> q \<in> heldset s \<or> q \<in> lostset s)
     \<and> (\<forall>q. \<not> (q \<in> heldset s \<and> q \<in> lostset s))
     \<and> length (events (s_ring s)) \<le> ordinary_capacity (s_ring s)
     \<and> total_len (event_len cd) (events (s_ring s)) \<le> max_encoded_bytes (s_ring s)
     \<and> (s_expected s = s_next_seq s \<longrightarrow> is_drained s = (\<not> s_loss_dirty s))"
proof (intro conjI allI impI)
  note ok = session_okD [OF session_reach_ok [OF assms]]
  show "s_expected s \<le> q \<and> q < s_next_seq s \<longleftrightarrow> q \<in> heldset s \<or> q \<in> lostset s" for q
    using ok(8) by (metis Un_iff atLeastLessThan_iff)
  show "\<not> (q \<in> heldset s \<and> q \<in> lostset s)" for q using ok(7) by blast
  show "length (events (s_ring s)) \<le> ordinary_capacity (s_ring s)"
    "total_len (event_len cd) (events (s_ring s)) \<le> max_encoded_bytes (s_ring s)"
    using ok(1) by (simp_all add: ring_ok_def)
  assume "s_expected s = s_next_seq s"
  then have "heldset s = {}" "lostset s = {}" using ok(8) by auto
  then have "s_started s = None" "held_events (s_ring s) = []" "\<nexists>q r. lost (s_loss s) q r"
    by (auto simp: heldset_def lostset_def split: if_splits)
  moreover have "ring_is_empty (s_ring s) \<longleftrightarrow> held_events (s_ring s) = []"
    by (auto simp: ring_is_empty_def held_events_def split: option.split)
  moreover have "s_loss s = [] \<longleftrightarrow> (\<nexists>q r. lost (s_loss s) q r)"
    by (rule no_loss_iff [OF ok(2)])
  ultimately show "is_drained s = (\<not> s_loss_dirty s)" by (simp add: is_drained_def loss_is_empty_def)
qed

section \<open>The loops of \<open>next_batch\<close>\<close>

lemma add_gaps_prefix: "\<exists>j\<le>length gs. add_gaps blen m b gs = b\<lparr>b_gaps := b_gaps b @ take j gs\<rparr>"
proof (induction gs arbitrary: b)
  case (Cons g gs)
  show ?case
  proof (cases "blen (b\<lparr>b_gaps := b_gaps b @ [g]\<rparr>) > m")
    case True
    then show ?thesis by (intro exI [of _ 0]) simp
  next
    case False
    obtain j where "j \<le> length gs" "add_gaps blen m (b\<lparr>b_gaps := b_gaps b @ [g]\<rparr>) gs = b\<lparr>b_gaps := b_gaps b @ [g] @ take j gs\<rparr>"
      using Cons.IH [of "b\<lparr>b_gaps := b_gaps b @ [g]\<rparr>"] by auto
    then show ?thesis using False by (intro exI [of _ "Suc j"]) simp
  qed
qed simp

lemma add_events_prefix: "\<exists>j\<le>length es. add_events blen m b es = b\<lparr>b_events := b_events b @ take j es\<rparr>"
proof (induction es arbitrary: b)
  case (Cons e es)
  show ?case
  proof (cases "blen (b\<lparr>b_events := b_events b @ [e]\<rparr>) > m")
    case True
    then show ?thesis by (intro exI [of _ 0]) simp
  next
    case False
    obtain j where "j \<le> length es" "add_events blen m (b\<lparr>b_events := b_events b @ [e]\<rparr>) es = b\<lparr>b_events := b_events b @ [e] @ take j es\<rparr>"
      using Cons.IH [of "b\<lparr>b_events := b_events b @ [e]\<rparr>"] by auto
    then show ?thesis using False by (intro exI [of _ "Suc j"]) simp
  qed
qed simp

text \<open>The events picked from a snapshot are its longest run of consecutive numbers.\<close>

lemma contiguous_numbers:
  assumes "evs \<noteq> []" and "map ev_seq evs = [a..<a + length evs]" and "\<forall>p\<in>set ps. ev_seq (event p) = seq p"
  shows "map ev_seq (contiguous evs ps) = [a..<a + length (contiguous evs ps)]"
    and "length (contiguous evs ps) \<le> length evs + length ps"
    and "\<exists>j. contiguous evs ps = evs @ map event (take j ps)"
proof -
  have "map ev_seq (contiguous evs ps) = [a..<a + length (contiguous evs ps)]
      \<and> length (contiguous evs ps) \<le> length evs + length ps \<and> (\<exists>j. contiguous evs ps = evs @ map event (take j ps))"
    using assms
  proof (induction ps arbitrary: evs)
    case (Cons p ps)
    show ?case
    proof (cases "ev_seq (last evs) + 1 = seq p")
      case False
      then have "contiguous evs (p # ps) = evs @ map event (take 0 (p # ps))" using Cons.prems(1) by simp
      then show ?thesis using Cons.prems(2) by (metis append_Nil2 le_add1 list.simps(8) take0)
    next
      case True
      have "ev_seq (last evs) = a + length evs - 1"
        using Cons.prems(1,2) by (metis add_diff_cancel_left' last_map last_upt length_greater_0_conv length_upt less_add_same_cancel1)
      then have "seq p = a + length evs" using True Cons.prems(1) by simp
      then have "map ev_seq (evs @ [event p]) = [a..<a + length (evs @ [event p])]" using Cons.prems(2,3) by simp
      then obtain j where ih: "map ev_seq (contiguous (evs @ [event p]) ps) = [a..<a + length (contiguous (evs @ [event p]) ps)]"
        "length (contiguous (evs @ [event p]) ps) \<le> length (evs @ [event p]) + length ps"
        "contiguous (evs @ [event p]) ps = (evs @ [event p]) @ map event (take j ps)"
        using Cons.IH [of "evs @ [event p]"] Cons.prems(3) by auto
      have "contiguous evs (p # ps) = evs @ map event (take (Suc j) (p # ps))" using True ih(3) by simp
      then show ?thesis using True ih(1,2) by (auto simp del: take_Suc_Cons)
    qed
  qed (intro conjI exI [of _ 0]; simp)
  then show "map ev_seq (contiguous evs ps) = [a..<a + length (contiguous evs ps)]"
    "length (contiguous evs ps) \<le> length evs + length ps" "\<exists>j. contiguous evs ps = evs @ map event (take j ps)"
    by blast+
qed

section \<open>Batches\<close>

text \<open>A number before the first held one is covered by the gaps declared before it.\<close>

lemma gaps_before_first:
  assumes "session_ok cd s" and "s_started s = None"
    and "first_seq = (case held_events (s_ring s) of [] \<Rightarrow> s_next_seq s | e # _ \<Rightarrow> seq e)"
    and "s_expected s \<le> q" and "q < first_seq"
  shows "gap_covers (snapshot_before (s_loss s) first_seq) q"
proof -
  note ok = session_okD [OF assms(1)]
  have hs: "heldset s = set (seqs (held_events (s_ring s)))" using assms(2) by (simp add: heldset_def)
  have "first_seq = s_next_seq s \<or> first_seq \<in> heldset s"
    unfolding hs using assms(3) by (auto split: list.splits)
  moreover have "s_next_seq s \<notin> lostset s" using ok(8) by (metis UnCI atLeastLessThan_iff less_irrefl)
  ultimately have first: "\<not> (\<exists>r. lost (s_loss s) first_seq r)" using ok(7) by (auto simp: lostset_def)
  have "q \<notin> heldset s"
  proof (cases "held_events (s_ring s)")
    case (Cons e es)
    have "sorted_wrt (<) (seqs (e # es))" using ok(3) by (simp add: numbered_def Cons)
    then show ?thesis using assms(3,5) unfolding hs Cons by (auto simp: seqs_def)
  qed (simp add: hs)
  moreover have "q < s_next_seq s"
    using assms(3,5) ok(8) hs by (cases "held_events (s_ring s)") (auto dest: equalityD1)
  then have "q \<in> heldset s \<union> lostset s" unfolding ok(8) using assms(4) by simp
  ultimately have "\<exists>r. lost (s_loss s) q r" by (auto simp: lostset_def)
  then show ?thesis using snapshot_before_covers [OF ok(2) first] assms(5) by simp
qed

lemma gaps_prefix_covers:
  assumes "gaps_ordered gs" and "gap_covers gs q" and "take j gs \<noteq> []" and "q \<le> last_dropped_seq (last (take j gs))"
  shows "gap_covers (take j gs) q"
proof -
  obtain g where g: "g \<in> set gs" "first_dropped_seq g \<le> q" "q \<le> last_dropped_seq g"
    using assms(2) by (auto simp: gap_covers_def)
  have "last (take j gs) \<in> set (take j gs)" using assms(3) by simp
  moreover have "sorted_wrt (\<lambda>g h. last_dropped_seq g < first_dropped_seq h) (take j gs @ drop j gs)"
    using assms(1) by (simp add: gaps_ordered_def)
  ultimately have "\<forall>h\<in>set (drop j gs). last_dropped_seq (last (take j gs)) < first_dropped_seq h"
    unfolding sorted_wrt_append by blast
  then have "g \<notin> set (drop j gs)" using g assms(4) by force
  moreover have "g \<in> set (take j gs) \<union> set (drop j gs)" using g(1) by (metis append_take_drop_id set_append)
  ultimately show ?thesis using g by (auto simp: gap_covers_def)
qed

lemma gaps_last:
  assumes "gaps_ordered gs" and "g \<in> set gs"
  shows "last_dropped_seq g \<le> last_dropped_seq (last gs)"
  using assms
proof (induction gs rule: rev_induct)
  case (snoc h gs)
  then show ?case by (fastforce simp: gaps_ordered_def sorted_wrt_append)
qed simp

lemma take_upt_min: "take i [a..<b] = [a..<min (a + i) b]"
  by (metis linorder_le_cases min_absorb1 min_absorb2 take_all take_upt length_upt le_diff_conv2 add.commute upt_conv_Nil take_Nil nat_le_linear)

text \<open>What is left to compose once the start event is acknowledged.\<close>

lemma compose_spec:
  assumes sok: "session_ok cd s" and st: "s_started s = None"
    and snap: "snap = snapshot_up_to (s_ring s) limit" "0 < limit"
    and first: "first_seq = (case snap of [] \<Rightarrow> s_next_seq s | e # _ \<Rightarrow> seq e)"
    and gaps: "gaps = snapshot_before (s_loss s) first_seq"
    and evs: "evs = (if snap = [] then [] else contiguous [] (take limit snap))"
  shows "(if snap = [] then s_next_seq s else ev_seq (hd evs)) = first_seq"
    and "map ev_seq evs = [first_seq..<first_seq + length evs]"
    and "first_seq + length evs \<le> s_next_seq s" and "length evs \<le> limit"
    and "gaps_ordered gaps" and "g \<in> set gaps \<Longrightarrow> last_dropped_seq g < first_seq"
    and "s_expected s \<le> q \<Longrightarrow> q < first_seq \<Longrightarrow> gap_covers gaps q"
    and "s_expected s \<le> first_seq"
proof -
  note ok = session_okD [OF sok]
  let ?held = "held_events (s_ring s)"
  have take: "snap = take limit ?held" using snap by (simp add: snapshot_up_to_take)
  have first': "first_seq = (case ?held of [] \<Rightarrow> s_next_seq s | e # _ \<Rightarrow> seq e)"
    using first snap(2) by (cases ?held; cases limit) (simp_all add: take)
  show "gaps_ordered gaps" "g \<in> set gaps \<Longrightarrow> last_dropped_seq g < first_seq"
    using snapshot_before_ordered [OF ok(2)] by (simp_all add: gaps)
  show "s_expected s \<le> q \<Longrightarrow> q < first_seq \<Longrightarrow> gap_covers gaps q"
    using gaps_before_first [OF sok st first'] by (simp add: gaps)
  have inrange: "s_expected s \<le> seq e \<and> seq e < s_next_seq s" if "e \<in> set ?held" for e
  proof -
    have "seq e \<in> heldset s \<union> lostset s" using that by (simp add: heldset_def)
    then show ?thesis unfolding ok(8) by simp
  qed
  show "s_expected s \<le> first_seq" using first' inrange ok(5) by (cases ?held) auto
  have all: "(if snap = [] then s_next_seq s else ev_seq (hd evs)) = first_seq
    \<and> map ev_seq evs = [first_seq..<first_seq + length evs] \<and> first_seq + length evs \<le> s_next_seq s \<and> length evs \<le> limit"
  proof (cases snap)
    case Nil
    then show ?thesis using first evs by simp
  next
    case (Cons e es)
    have sub: "set snap \<subseteq> set ?held" unfolding take by (rule set_take_subset)
    have num: "ev_seq (event p) = seq p" if "p \<in> set snap" for p using ok(3) sub that by (auto simp: numbered_def)
    have len: "length snap \<le> limit" by (simp add: take)
    have evs': "evs = contiguous [event e] es" using evs len Cons by simp
    have f: "first_seq = seq e" "ev_seq (event e) = seq e" using first Cons num by simp_all
    have "\<forall>p\<in>set es. ev_seq (event p) = seq p" using num Cons by simp
    then obtain j where c: "map ev_seq evs = [first_seq..<first_seq + length evs]"
      "length evs \<le> Suc (length es)" "evs = event e # map event (take j es)"
      using contiguous_numbers [of "[event e]" first_seq es] f unfolding evs' by auto
    have "set evs \<subseteq> event ` set snap" using c(3) Cons by (auto dest: in_set_takeD)
    moreover have "last evs \<in> set evs" using c(3) by (intro last_in_set) simp
    ultimately have "last evs \<in> event ` set snap" ..
    then obtain p where p: "p \<in> set snap" "last evs = event p" by auto
    have "ev_seq (last evs) = first_seq + length evs - 1"
      using c(1,3) by (metis last_map last_upt length_greater_0_conv less_add_same_cancel1 list.distinct(1))
    then have "first_seq + length evs - 1 < s_next_seq s" using inrange [of p] sub p num [of p] by auto
    then show ?thesis using c Cons len f by simp
  qed
  then show "(if snap = [] then s_next_seq s else ev_seq (hd evs)) = first_seq"
    "map ev_seq evs = [first_seq..<first_seq + length evs]" "first_seq + length evs \<le> s_next_seq s" "length evs \<le> limit"
    by blast+
qed

lemma next_batch_spec:
  assumes sok: "session_ok cd s" and nb: "next_batch blen s = (s', Some b)"
  shows "map ev_seq (b_events b) = [b_seq_from b..<b_seq_from b + length (b_events b)]
    \<and> b_seq_from b + length (b_events b) \<le> s_next_seq s
    \<and> gaps_ordered (b_gaps b) \<and> (\<forall>g\<in>set (b_gaps b). last_dropped_seq g < b_seq_from b)
    \<and> (\<forall>q. s_expected s \<le> q \<longrightarrow> q < b_seq_from b \<longrightarrow> gap_covers (b_gaps b) q)
    \<and> length (b_events b) \<le> max (max_events_per_batch (s_limits s)) 1"
proof (cases "s_started s")
  case (Some st)
  note ok = session_okD [OF sok]
  have "s_next_seq s \<noteq> 1" using nb by (auto simp: next_batch_def)
  then have b: "b_seq_from b = 1" "b_events b = [st]" "b_gaps b = []"
    using nb Some by (auto simp: next_batch_def Let_def)
  have "ev_seq st = 1" "s_expected s = 1" using ok(3) Some by (simp_all add: numbered_def)
  moreover have "1 < s_next_seq s" using ok(4,5) \<open>s_next_seq s \<noteq> 1\<close> by simp
  ultimately show ?thesis by (simp add: b gaps_ordered_def)
next
  case None
  define limit where "limit = max (max_events_per_batch (s_limits s)) 1"
  define snap where "snap = snapshot_up_to (s_ring s) limit"
  define first_seq where "first_seq = (case snap of [] \<Rightarrow> s_next_seq s | e # _ \<Rightarrow> seq e)"
  define gaps where "gaps = snapshot_before (s_loss s) first_seq"
  define evs where "evs = (if snap = [] then [] else contiguous [] (take limit snap))"
  have "0 < limit" by (simp add: limit_def)
  note c = compose_spec [OF sok None snap_def this first_seq_def gaps_def evs_def]
  define b0 :: "'a batch" where "b0 = \<lparr>b_run_id = s_run_id s, b_batch_id = batch_name (s_run_id s) (wrap_add (s_batch_counter s) 1),
    b_seq_from = first_seq, b_events = [], b_gaps = [], b_producer_dropped = s_producer_dropped s\<rparr>"
  define b1 where "b1 = add_gaps blen (max_batch_bytes (s_limits s)) b0 gaps"
  have b: "b = (if length (b_gaps b1) < length gaps
        then b1\<lparr>b_seq_from := (if b_gaps b1 = [] then s_expected s else last_dropped_seq (last (b_gaps b1)) + 1)\<rparr>
        else add_events blen (max_batch_bytes (s_limits s)) b1 evs)"
    using nb unfolding next_batch_def Let_def None option.case limit_def [symmetric] snap_def [symmetric]
      first_seq_def [symmetric] gaps_def [symmetric] evs_def [symmetric] c(1) b0_def [symmetric] b1_def [symmetric]
    by (simp only: split: if_splits) simp_all
  obtain j where j: "j \<le> length gaps" "b1 = b0\<lparr>b_gaps := take j gaps\<rparr>"
    using add_gaps_prefix [of gaps blen _ b0] by (auto simp: b1_def b0_def)
  have ord: "gaps_ordered (take j gaps)" using c(5) by (auto simp: gaps_ordered_def sorted_wrt_take dest: in_set_takeD)
  show ?thesis
  proof (cases "j < length gaps")
    case True
    then have b': "b_events b = []" "b_gaps b = take j gaps"
      "b_seq_from b = (if take j gaps = [] then s_expected s else last_dropped_seq (last (take j gaps)) + 1)"
      using b j by (simp_all add: b0_def)
    have before: "last_dropped_seq g \<le> last_dropped_seq (last (take j gaps))" if "g \<in> set (take j gaps)" for g
      using ord that by (rule gaps_last)
    have fs: "first_seq \<le> s_next_seq s" using c(3) by simp
    have lst: "last_dropped_seq (last (take j gaps)) < first_seq" if "take j gaps \<noteq> []"
      using c(6) last_in_set [OF that] by (meson in_set_takeD)
    have cov: "gap_covers (take j gaps) q" if "take j gaps \<noteq> []" "s_expected s \<le> q" "q \<le> last_dropped_seq (last (take j gaps))" for q
      using gaps_prefix_covers [OF c(5) c(7) that(1,3)] that lst by simp
    show ?thesis
    proof (cases "take j gaps = []")
      case True
      then show ?thesis using c(8) fs unfolding b' True by (simp add: gaps_ordered_def)
    next
      case False
      have sf: "b_seq_from b = Suc (last_dropped_seq (last (take j gaps)))" using False b'(3) by simp
      have "b_seq_from b \<le> s_next_seq s" using lst [OF False] fs sf by simp
      moreover have "\<forall>g\<in>set (b_gaps b). last_dropped_seq g < b_seq_from b"
        unfolding b'(2) sf using before by (simp add: less_Suc_eq_le)
      moreover have "gap_covers (b_gaps b) q" if "s_expected s \<le> q" "q < b_seq_from b" for q
        unfolding b'(2) using cov [OF False that(1)] that(2) by (simp add: sf less_Suc_eq_le)
      ultimately show ?thesis using ord by (simp add: b'(1,2))
    qed
  next
    case False
    obtain i where i: "b = b1\<lparr>b_events := take i evs\<rparr>"
      using add_events_prefix [of evs blen _ b1] b j False by (auto simp: b0_def)
    then have b': "b_events b = take i evs" "b_gaps b = gaps" "b_seq_from b = first_seq"
      using j False by (simp_all add: b0_def)
    have "map ev_seq (take i evs) = take i [first_seq..<first_seq + length evs]" by (simp add: take_map flip: c(2))
    then have "map ev_seq (take i evs) = [first_seq..<first_seq + length (take i evs)]"
      by (simp add: take_upt_min min_add_distrib_right min.commute)
    moreover have "length (take i evs) \<le> length evs" by simp
    then have "first_seq + length (take i evs) \<le> s_next_seq s" "length (take i evs) \<le> limit" using c(3,4) by linarith+
    ultimately show ?thesis unfolding b' limit_def using c(5-7) by blast
  qed
qed

text \<open>C26. Every batch a reachable session composes is one the server can apply without a hole. Its
  events carry consecutive numbers starting at \<open>seq_from\<close> and below the next number to mint; its
  gaps are ordered, disjoint and all end before \<open>seq_from\<close>; every unacknowledged number before
  \<open>seq_from\<close> is covered by one of those gaps; and it holds at most the configured number of
  events.\<close>

theorem next_batch_leaves_no_hole:
  assumes "session_reach cd blen s" and "next_batch blen s = (s', Some b)"
  shows "map ev_seq (b_events b) = [b_seq_from b..<b_seq_from b + length (b_events b)]
    \<and> b_seq_from b + length (b_events b) \<le> s_next_seq s
    \<and> gaps_ordered (b_gaps b) \<and> (\<forall>g\<in>set (b_gaps b). last_dropped_seq g < b_seq_from b)
    \<and> (\<forall>q. s_expected s \<le> q \<longrightarrow> q < b_seq_from b \<longrightarrow> gap_covers (b_gaps b) q)
    \<and> length (b_events b) \<le> max (max_events_per_batch (s_limits s)) 1"
  by (rule next_batch_spec [OF session_reach_ok [OF assms(1)] assms(2)])

section \<open>Log fragments\<close>

lemma chunks_Nil [simp]: "chunks n [] = []"
  by (simp add: chunks.simps)

lemma concat_chunks: "0 < n \<Longrightarrow> concat (chunks n xs) = xs"
  by (induction n xs rule: chunks.induct) (subst chunks.simps, simp)

lemma length_chunks: "0 < n \<Longrightarrow> length (chunks n xs) = div_ceil (length xs) n"
proof (induction n xs rule: chunks.induct)
  case (1 n xs)
  show ?case
  proof (cases "xs = []")
    case True
    then show ?thesis by (simp add: chunks.simps [of n xs] div_ceil_def)
  next
    case xs: False
    have ih: "length (chunks n (drop n xs)) = div_ceil (length xs - n) n" using "1.IH" "1.prems" xs by simp
    show ?thesis
    proof (cases "n \<le> length xs")
      case True
      then show ?thesis using ih "1.prems" xs
        by (simp add: chunks.simps [of n xs] div_ceil_def le_div_geq le_mod_geq)
    next
      case False
      then have "drop n xs = []" by simp
      then show ?thesis using False xs "1.prems" by (simp add: chunks.simps [of n xs] div_ceil_def)
    qed
  qed
qed

lemma nth_chunks: "0 < n \<Longrightarrow> i < length (chunks n xs) \<Longrightarrow> chunks n xs ! i = take n (drop (i * n) xs) \<and> i * n < length xs"
proof (induction n xs arbitrary: i rule: chunks.induct)
  case (1 n xs)
  have xs: "xs \<noteq> []" using "1.prems" by (auto simp: chunks.simps [of n xs])
  have ch: "chunks n xs = take n xs # chunks n (drop n xs)" using xs "1.prems"(1) by (simp add: chunks.simps [of n xs])
  show ?case
  proof (cases i)
    case 0
    then show ?thesis using xs by (simp add: ch)
  next
    case (Suc j)
    then have "j < length (chunks n (drop n xs))" using "1.prems"(2) ch by simp
    then have "chunks n (drop n xs) ! j = take n (drop (j * n) (drop n xs)) \<and> j * n < length (drop n xs)"
      using "1.IH" xs "1.prems"(1) by simp
    then show ?thesis by (auto simp: ch Suc add.commute)
  qed
qed

lemma concat_take_chunks:
  assumes "0 < n" and "i \<le> length (chunks n xs)"
  shows "concat (take i (chunks n xs)) = take (i * n) xs"
  using assms(2)
proof (induction i)
  case (Suc i)
  then have i: "i < length (chunks n xs)" by simp
  have "concat (take (Suc i) (chunks n xs)) = take (i * n) xs @ chunks n xs ! i"
    using Suc i by (simp add: take_Suc_conv_app_nth)
  then show ?case using nth_chunks [OF assms(1) i] take_add [of "i * n" n xs] by (simp add: add.commute)
qed simp

lemma div_ceil_mono: "a \<le> b \<Longrightarrow> div_ceil a n \<le> div_ceil b n"
proof -
  assume "a \<le> b"
  then have d: "a div n \<le> b div n" by (rule div_le_mono)
  show ?thesis
  proof (cases "a div n = b div n")
    case True
    have "n * (a div n) + a mod n \<le> n * (b div n) + b mod n" using \<open>a \<le> b\<close> by simp
    then have "a mod n \<le> b mod n" unfolding True by (simp only: nat_add_left_cancel_le)
    then show ?thesis using True by (simp add: div_ceil_def)
  next
    case False
    then show ?thesis using d by (auto simp: div_ceil_def)
  qed
qed

text \<open>C33. Splitting a log chunk loses nothing and keeps every byte's place in its stream: the fragments,
  in order, concatenate to the chunk's bytes; each is non-empty and within the fragment size; each
  keeps the chunk's scope and stream; and each starts at the offset where the previous one ended.\<close>

theorem log_fragments_reassemble:
  assumes "offset c + int (length (chunk_bytes c)) \<le> i64_max" and "0 \<le> offset c"
  shows "concat (map chunk_bytes (log_fragments l c)) = chunk_bytes c
    \<and> (\<forall>i<length (log_fragments l c).
        offset (log_fragments l c ! i) = offset c + int (length (concat (map chunk_bytes (take i (log_fragments l c))))))
    \<and> (\<forall>f\<in>set (log_fragments l c). chunk_bytes f \<noteq> [] \<and> length (chunk_bytes f) \<le> max (max_log_chunk_bytes l) 1
        \<and> scope f = scope c \<and> stream f = stream c)"
proof (intro conjI allI impI ballI)
  define n where "n = max (max_log_chunk_bytes l) 1"
  have n: "0 < n" by (simp add: n_def)
  let ?xs = "chunk_bytes c"
  have frags: "log_fragments l c = map (\<lambda>(index, part). c\<lparr>offset := offset_add (offset c) (sat_mul index n), chunk_bytes := part\<rparr>)
      (enumerate 0 (chunks n ?xs))"
    by (simp add: log_fragments_def n_def Let_def)
  have bytes: "map chunk_bytes (log_fragments l c) = chunks n ?xs"
    unfolding frags by (auto intro: nth_equalityI simp: nth_enumerate_eq)
  then show "concat (map chunk_bytes (log_fragments l c)) = chunk_bytes c" using concat_chunks [OF n] by metis
  have len: "length (log_fragments l c) = length (chunks n ?xs)" by (simp add: frags)
  have nth: "log_fragments l c ! i = c\<lparr>offset := offset_add (offset c) (sat_mul i n), chunk_bytes := take n (drop (i * n) ?xs)\<rparr>
      \<and> i * n < length ?xs" if "i < length (log_fragments l c)" for i
    using nth_chunks [OF n, of i ?xs] that len by (simp add: frags nth_enumerate_eq)
  {
    fix f assume f: "f \<in> set (log_fragments l c)"
    obtain i where "i < length (log_fragments l c)" "f = log_fragments l c ! i" using f by (metis in_set_conv_nth)
    then show "chunk_bytes f \<noteq> []" "length (chunk_bytes f) \<le> max (max_log_chunk_bytes l) 1"
      "scope f = scope c" "stream f = stream c" using nth [of i] n by (auto simp: n_def)
  }
  show "offset (log_fragments l c ! i) = offset c + int (length (concat (map chunk_bytes (take i (log_fragments l c)))))"
    if i: "i < length (log_fragments l c)" for i
  proof -
    have "concat (take i (chunks n ?xs)) = take (i * n) ?xs"
      using i len by (intro concat_take_chunks [OF n]) simp
    then have "length (concat (map chunk_bytes (take i (log_fragments l c)))) = i * n"
      using nth [OF i] by (simp add: bytes flip: take_map)
    moreover have "offset_add (offset c) (sat_mul i n) = offset c + int (i * n)"
    proof -
      define k where "k = i * n"
      have "int k < int (length ?xs)" using nth [OF i] unfolding k_def of_nat_less_iff by blast
      then have "offset c + int k \<le> i64_max" "int k \<le> i64_max" using assms by linarith+
      moreover have "k \<le> u64_max" using \<open>int k \<le> i64_max\<close> by (simp add: i64_max_def u64_max_def)
      ultimately show ?thesis unfolding offset_add_def sat_mul_def k_def [symmetric] by simp
    qed
    ultimately show ?thesis using nth [OF i] by simp
  qed
qed

section \<open>Back-pressure\<close>

text \<open>What a push with room leaves: everything held stays held, only the new number can be lost.\<close>

definition pushed :: "'x session \<Rightarrow> nat \<Rightarrow> 'x session \<Rightarrow> bool" where
  "pushed s n s' \<longleftrightarrow> s_limits s' = s_limits s \<and> \<not> s_finalized s'
     \<and> ordinary_capacity (s_ring s') = ordinary_capacity (s_ring s)
     \<and> max_encoded_bytes (s_ring s') = max_encoded_bytes (s_ring s)
     \<and> length (events (s_ring s')) \<le> length (events (s_ring s)) + n
     \<and> encoded_bytes (s_ring s') \<le> encoded_bytes (s_ring s) + n * max_event_bytes (s_limits s)
     \<and> s_next_seq s' = s_next_seq s + n \<and> heldset s \<subseteq> heldset s'
     \<and> lostset s' \<subseteq> lostset s \<union> {s_next_seq s..<s_next_seq s'}"

lemma pushed_trans:
  assumes "pushed s n s1" and "pushed s1 m s2"
  shows "pushed s (n + m) s2"
proof -
  have "lostset s2 \<subseteq> lostset s \<union> {s_next_seq s..<s_next_seq s2}"
    using assms unfolding pushed_def by (auto dest!: subsetD)
  then show ?thesis using assms by (auto simp: pushed_def algebra_simps)
qed

lemma push_event_with_room:
  assumes sok: "session_ok cd s" and fin: "\<not> s_finalized s" and nc: "\<not> is_run_completed p" and lt: "s_next_seq s < u64_max"
    and room: "length (events (s_ring s)) < ordinary_capacity (s_ring s)"
      "encoded_bytes (s_ring s) + max_event_bytes (s_limits s) \<le> max_encoded_bytes (s_ring s)"
  obtains s' where "push_event cd s p epoch mns = Some (s', s_next_seq s)" and "session_ok cd s'" and "pushed s 1 s'"
proof -
  let ?q = "s_next_seq s"
  define s1 where "s1 = s\<lparr>s_next_seq := Suc ?q\<rparr>"
  note ok = session_okD [OF sok]
  note enough = that
  have found: thesis if "push_event cd s p epoch mns = Some (s', ?q)" "pushed s 1 s'" for s'
    by (rule enough [OF that(1) session_ok_push_event(1) [OF sok lt that(1)] that(2)])
  have base: "pushed s 1 (s1\<lparr>s_loss := m\<rparr>)" if "\<forall>q r. lost m q r \<longrightarrow> q \<in> lostset s \<or> q = ?q" for m
    using that fin by (auto simp: pushed_def s1_def heldset_def lostset_def)
  have pe: "push_event cd s p epoch mns =
      (if ?q = 1 \<and> is_run_started p
       then Some (s1\<lparr>s_started := Some \<lparr>ev_seq = ?q, epoch_ms = epoch, mono_ns = mns, ev_payload = Some p\<rparr>\<rparr>, ?q)
       else (let e = fit_action_presentation cd
                     \<lparr>ev_seq = ?q, epoch_ms = epoch, mono_ns = mns,
                      ev_payload = Some (classify_payload (s_source_files s) p)\<rparr>
                     (max_event_bytes (s_limits s))
         in if event_len cd e > max_event_bytes (s_limits s)
            then map_option (\<lambda>s2. (s2, ?q)) (record_loss s1 ?q ?q ''oversized_event'')
            else Some (s1\<lparr>s_ring := (s_ring s)\<lparr>encoded_bytes := encoded_bytes (s_ring s) + event_len cd e,
              events := events (s_ring s) @ [\<lparr>seq = ?q, event = e\<rparr>]\<rparr>\<rparr>, ?q)))"
    using room unfolding push_event_def Let_def wrap_next [OF lt] s1_def [symmetric]
    by (simp add: fin nc push_ordinary_def s1_def)
  show thesis
  proof (cases "?q = 1 \<and> is_run_started p")
    case True
    then have "heldset s = {}" using ok(4,8) by auto
    then have "pushed s 1 (s1\<lparr>s_started := Some st\<rparr>)" for st
      using fin by (auto simp: pushed_def s1_def lostset_def)
    then show thesis using found pe True by simp
  next
    case False
    define e where "e = fit_action_presentation cd
                     \<lparr>ev_seq = ?q, epoch_ms = epoch, mono_ns = mns,
                      ev_payload = Some (classify_payload (s_source_files s) p)\<rparr>
                     (max_event_bytes (s_limits s))"
    note pe' = pe [unfolded Let_def, folded e_def]
    show thesis
    proof (cases "event_len cd e > max_event_bytes (s_limits s)")
      case True
      have l1: "loss_ok (s_loss s1)" "lostset s1 = lostset s" using ok(2) by (simp_all add: s1_def lostset_def)
      have "?q \<notin> lostset s" using ok(8) by (metis UnCI atLeastLessThan_iff less_irrefl)
      then obtain s' where s': "record_loss s1 ?q ?q ''oversized_event'' = Some s'"
        using record_loss_defined [OF l1(1) le_refl, of ?q] l1(2) lt by fastforce
      note rl = record_loss_lostset [OF l1(1) le_refl less_imp_le [OF lt] s']
      have "pushed s 1 s'"
        using base [of "s_loss s'"] rl(2,3) l1(2) by (auto simp: lostset_def)
      moreover have "push_event cd s p epoch mns = Some (s', ?q)" unfolding pe' using False True s' by auto
      ultimately show thesis using found by blast
    next
      case fits: False
      let ?r = "(s_ring s)\<lparr>encoded_bytes := encoded_bytes (s_ring s) + event_len cd e,
              events := events (s_ring s) @ [\<lparr>seq = ?q, event = e\<rparr>]\<rparr>"
      have "set (seqs (held_events (s_ring s))) \<subseteq> set (seqs (held_events ?r))" by (auto simp: held_events_def)
      then have "pushed s 1 (s1\<lparr>s_ring := ?r\<rparr>)"
        using fin fits by (auto simp: pushed_def s1_def lostset_def heldset_def)
      moreover have "push_event cd s p epoch mns = Some (s1\<lparr>s_ring := ?r\<rparr>, ?q)" unfolding pe' using False fits by auto
      ultimately show thesis using found by blast
    qed
  qed
qed

lemma push_fragments_with_room:
  assumes "session_ok cd s" and "\<not> s_finalized s" and "s_next_seq s + length fs \<le> u64_max"
    and "length (events (s_ring s)) + length fs \<le> ordinary_capacity (s_ring s)"
    and "encoded_bytes (s_ring s) + length fs * max_event_bytes (s_limits s) \<le> max_encoded_bytes (s_ring s)"
  shows "\<exists>s' q. push_fragments cd s lst fs epoch mns = Some (s', q) \<and> pushed s (length fs) s'"
  using assms
proof (induction fs arbitrary: s lst)
  case Nil
  then show ?case by (simp add: pushed_def)
next
  case (Cons f fs)
  have lt: "s_next_seq s < u64_max" "length (events (s_ring s)) < ordinary_capacity (s_ring s)"
    "encoded_bytes (s_ring s) + max_event_bytes (s_limits s) \<le> max_encoded_bytes (s_ring s)"
    using Cons.prems(3-5) by (simp_all add: algebra_simps)
  have nc: "\<not> is_run_completed (LogChunk f)" by simp
  obtain s1 where s1: "push_event cd s (LogChunk f) epoch mns = Some (s1, s_next_seq s)" "session_ok cd s1" "pushed s 1 s1"
    by (rule push_event_with_room [OF Cons.prems(1,2) nc lt])
  have "\<exists>s' q. push_fragments cd s1 (s_next_seq s) fs epoch mns = Some (s', q) \<and> pushed s1 (length fs) s'"
  proof (rule Cons.IH [OF s1(2)])
    show "\<not> s_finalized s1" using s1(3) by (simp add: pushed_def)
    show "s_next_seq s1 + length fs \<le> u64_max" "length (events (s_ring s1)) + length fs \<le> ordinary_capacity (s_ring s1)"
      "encoded_bytes (s_ring s1) + length fs * max_event_bytes (s_limits s1) \<le> max_encoded_bytes (s_ring s1)"
      using s1(3) Cons.prems(3-5) by (simp_all add: pushed_def)
  qed
  then show ?case using s1(1) pushed_trans [OF s1(3)] by auto
qed

definition limits_match :: "'x session \<Rightarrow> bool" where
  "limits_match s \<longleftrightarrow> ordinary_capacity (s_ring s) = max (lim_ordinary_capacity (s_limits s)) 1
     \<and> max_encoded_bytes (s_ring s) = max_unacked_bytes (s_limits s)"

lemma limits_match_record_loss: "record_loss s f l r = Some s' \<Longrightarrow> limits_match s' = limits_match s"
  by (auto simp: record_loss_def limits_match_def)

lemma push_ordinary_capacity:
  "push_ordinary el r e = Some (r', oc) \<Longrightarrow> ordinary_capacity r' = ordinary_capacity r \<and> max_encoded_bytes r' = max_encoded_bytes r"
  by (auto simp: push_ordinary_def Let_def split: if_splits option.splits)

lemma limits_match_push_event:
  assumes "push_event cd s p epoch mns = Some (s', q)" and "limits_match s"
  shows "limits_match s'"
proof -
  have s1: "limits_match (s\<lparr>s_next_seq := n, s_ring := r\<rparr>)" if "push_ordinary el (s_ring s) e = Some (r, oc)" for n r el e oc
    using push_ordinary_capacity [OF that] assms(2) by (simp add: limits_match_def)
  have s2: "limits_match (s\<lparr>s_next_seq := n\<rparr>)" "limits_match (s\<lparr>s_next_seq := n, s_started := st\<rparr>)" for n st
    using assms(2) by (simp_all add: limits_match_def)
  show ?thesis
    using assms unfolding push_event_def Let_def
    by (auto simp: s2 limits_match_record_loss dest!: s1 split: if_splits option.splits ring_push_outcome.splits)
qed

lemma limits_match_fragments:
  "push_fragments cd s lst fs epoch mns = Some (s', q) \<Longrightarrow> limits_match s \<Longrightarrow> limits_match s'"
  by (induction cd s lst fs epoch mns rule: push_fragments.induct)
    (auto split: option.splits dest: limits_match_push_event)

lemma limits_match_push_ordinary:
  assumes "session_push_ordinary cd s p epoch mns = Some (s', q)" and "limits_match s"
  shows "limits_match s'"
proof -
  have off: "limits_match (s\<lparr>s_log_offsets := o'\<rparr>)" for o' using assms(2) by (simp add: limits_match_def)
  show ?thesis
  proof (cases p)
    case (LogChunk c)
    then show ?thesis
      using assms limits_match_fragments [OF _ off]
      by (auto simp: session_push_ordinary_def Let_def split: if_splits)
  qed (use assms limits_match_push_event in \<open>auto simp: session_push_ordinary_def\<close>)
qed

lemma limits_match_acknowledge:
  "acknowledge cd s q = Some s' \<Longrightarrow> limits_match s' = limits_match s"
  by (auto simp: acknowledge_def ring_acknowledge_def limits_match_def)

lemma session_reach_limits: "session_reach cd blen s \<Longrightarrow> limits_match s"
proof (induction rule: session_reach.induct)
  case (reach_push s p epoch mns s' q)
  then show ?case by (blast intro: limits_match_push_ordinary)
next
  case (reach_terminal s x epoch mns s' q)
  then show ?case
    by (auto simp: push_terminal_def Let_def limits_match_def place_terminal_def place_finalizing_def split: if_splits option.splits)
next
  case (reach_batch s s' b)
  have "s_ring (fst (next_batch blen s)) = s_ring s" "s_limits (fst (next_batch blen s)) = s_limits s"
    unfolding next_batch_def Let_def
    by (simp only: if_distrib [of fst] option.case_distrib [of fst] fst_conv if_cancel, simp split: option.split)+
  then show ?case using reach_batch by (simp add: limits_match_def)
next
  case (reach_ack s ack s' act)
  have upd: "limits_match (s\<lparr>s_expected := e\<rparr>)" for e using reach_ack.IH by (simp add: limits_match_def)
  have d: "limits_match (s1\<lparr>s_loss_dirty := d\<rparr>) = limits_match s1" for s1 :: "'a session" and d by (simp add: limits_match_def)
  show ?case using reach_ack upd
    by (auto simp: handle_ack_def limits_match_acknowledge d split: if_splits disposition.splits)
next
  case (reach_run_ack s rack s' act)
  have upd: "limits_match (s\<lparr>s_expected := e, s_loss_dirty := d\<rparr>)" for e d using reach_run_ack.IH by (simp add: limits_match_def)
  show ?case using reach_run_ack upd
    by (auto simp: handle_get_run_ack_def Let_def limits_match_acknowledge split: if_splits)
qed (simp_all add: limits_match_def session_new_def with_byte_capacity_def with_source_files_def record_producer_loss_def)

lemma numbers_needed_bound:
  assumes "0 < bus" and "\<And>c. p = LogChunk c \<Longrightarrow> length (chunk_bytes c) \<le> bus"
  shows "numbers_needed l p \<le> div_ceil bus (max (max_log_chunk_bytes l) 1)"
proof (cases "\<exists>c. p = LogChunk c")
  case True
  then show ?thesis
    using assms(2) div_ceil_mono by (auto simp: numbers_needed_def log_fragments_def Let_def length_chunks)
next
  case False
  then have "numbers_needed l p = 1" by (cases p) (auto simp: numbers_needed_def)
  moreover have "div_ceil bus n \<noteq> 0" if "0 < n" for n using assms(1) that by (auto simp: div_ceil_def)
  ultimately show ?thesis by (simp add: Suc_leI)
qed

text \<open>C32. Back-pressure keeps the stream lossless. While \<open>can_receive\<close> holds, pushing any
  payload the event bus can deliver neither panics nor drops anything already held: the push returns,
  every held number stays held, and the only numbers that can become lost are the ones just minted (an
  event over the size limit). This needs the limits to leave room for one log chunk's fragments: at
  most half the ring's slots and at most the ring's bytes.\<close>

theorem backpressure_is_lossless:
  assumes reach: "session_reach cd blen s" and recv: "can_receive bus s"
    and live: "\<not> s_finalized s" "\<not> is_run_completed p"
    and bus: "0 < bus" "\<And>c. p = LogChunk c \<Longrightarrow> length (chunk_bytes c) \<le> bus"
    and slots: "2 * div_ceil bus (max (max_log_chunk_bytes (s_limits s)) 1) \<le> lim_ordinary_capacity (s_limits s)"
    and bytes: "max_event_bytes (s_limits s) * div_ceil bus (max (max_log_chunk_bytes (s_limits s)) 1) \<le> max_unacked_bytes (s_limits s)"
    and sized: "max_unacked_bytes (s_limits s) \<le> u64_max"
    and left: "s_next_seq s + numbers_needed (s_limits s) p \<le> u64_max"
  shows "\<exists>s' q. session_push_ordinary cd s p epoch mns = Some (s', q) \<and> heldset s \<subseteq> heldset s'
     \<and> lostset s' \<subseteq> lostset s \<union> {s_next_seq s..<s_next_seq s'}
     \<and> s_next_seq s' = s_next_seq s + numbers_needed (s_limits s) p"
proof -
  let ?l = "s_limits s" and ?n = "numbers_needed (s_limits s) p"
  define k where "k = div_ceil bus (max (max_log_chunk_bytes ?l) 1)"
  have nk: "?n \<le> k" unfolding k_def by (rule numbers_needed_bound [OF bus])
  note lm = session_reach_limits [OF reach, unfolded limits_match_def]
  note sok = session_reach_ok [OF reach]
  have "sat_mul (max_event_bytes ?l) k = max_event_bytes ?l * k" using bytes sized by (simp add: sat_mul_def k_def)
  then have cr: "length (events (s_ring s)) < max (lim_ordinary_capacity ?l div 2) 1"
    "encoded_bytes (s_ring s) \<le> max_unacked_bytes ?l - max_event_bytes ?l * k"
    using recv by (simp_all add: can_receive_def Let_def ordinary_len_def sat_sub_def k_def)
  have mult: "?n * max_event_bytes ?l \<le> max_event_bytes ?l * k" using nk by (simp add: mult.commute)
  note limits = slots [folded k_def] bytes [folded k_def]
  have "length (events (s_ring s)) + ?n \<le> max (lim_ordinary_capacity ?l) 1"
  proof -
    have "a + n \<le> max c 1" if "a < max (c div 2) 1" "2 * j \<le> c" "n \<le> j" for a n j c :: nat
      using that by (auto simp: max_def split: if_splits)
    then show ?thesis using cr(1) limits(1) nk by blast
  qed
  then have room: "length (events (s_ring s)) + ?n \<le> ordinary_capacity (s_ring s)" using lm by simp
  have "encoded_bytes (s_ring s) + ?n * max_event_bytes ?l \<le> max_unacked_bytes ?l"
    using cr(2) mult limits(2) by linarith
  then have room': "encoded_bytes (s_ring s) + ?n * max_event_bytes ?l \<le> max_encoded_bytes (s_ring s)" using lm by simp
  have finish: ?thesis if "session_push_ordinary cd s p epoch mns = Some (s', q)" "heldset s1 = heldset s" "lostset s1 = lostset s"
    "s_next_seq s1 = s_next_seq s" "pushed s1 ?n s'" for s' q s1
    using that unfolding pushed_def by (intro exI [of _ s'] exI [of _ q]) metis
  show ?thesis
  proof (cases "\<exists>c. p = LogChunk c")
    case True
    then obtain c where c: "p = LogChunk c" by blast
    define s1 where "s1 = s\<lparr>s_log_offsets := ((scope c, stream c),
      offset_add (log_offset s (scope c, stream c)) (length (chunk_bytes c))) # s_log_offsets s\<rparr>"
    define fs where "fs = log_fragments ?l (c\<lparr>offset := log_offset s (scope c, stream c)\<rparr>)"
    have n: "length fs = ?n" by (simp add: fs_def c numbers_needed_def log_fragments_length)
    have same: "s_ring s1 = s_ring s" "s_limits s1 = ?l" "s_next_seq s1 = s_next_seq s" "\<not> s_finalized s1"
      "heldset s1 = heldset s" "lostset s1 = lostset s"
      using live(1) by (simp_all add: s1_def heldset_def lostset_def)
    have ok1: "session_ok cd s1" by (rule session_ok_cong [OF sok]) (simp_all add: s1_def)
    obtain s' q where "push_fragments cd s1 (s_next_seq s1 - 1) fs epoch mns = Some (s', q)" "pushed s1 ?n s'"
      using push_fragments_with_room [OF ok1 same(4), of fs] room room' left unfolding same(1-3) n by blast
    moreover have "session_push_ordinary cd s p epoch mns = push_fragments cd s1 (s_next_seq s1 - 1) fs epoch mns"
      using live(1) by (simp add: session_push_ordinary_def c s1_def fs_def Let_def)
    ultimately show ?thesis using finish same(3,5,6) by metis
  next
    case False
    then have one: "?n = 1" and pe: "session_push_ordinary cd s p epoch mns = push_event cd s p epoch mns"
      by (cases p; simp add: numbers_needed_def session_push_ordinary_def)+
    have lt: "s_next_seq s < u64_max" using left one by simp
    have rm: "length (events (s_ring s)) < ordinary_capacity (s_ring s)"
      "encoded_bytes (s_ring s) + max_event_bytes ?l \<le> max_encoded_bytes (s_ring s)" using room room' one by simp_all
    obtain s' where "push_event cd s p epoch mns = Some (s', s_next_seq s)" "pushed s 1 s'"
      by (rule push_event_with_room [OF sok live lt rm])
    then have "session_push_ordinary cd s p epoch mns = Some (s', s_next_seq s)" "pushed s ?n s'" by (simp_all only: pe one)
    then show ?thesis using finish by blast
  qed
qed

section \<open>An overflow that panics\<close>

text \<open>The event that a payload becomes, and the oldest events that have to leave before it fits.\<close>

definition fitted_event :: "'x codec \<Rightarrow> 'x session \<Rightarrow> 'x payload \<Rightarrow> int \<Rightarrow> int \<Rightarrow> 'x run_event" where
  "fitted_event cd s p epoch mns =
     fit_action_presentation cd
       \<lparr>ev_seq = s_next_seq s, epoch_ms = epoch, mono_ns = mns, ev_payload = Some (classify_payload (s_source_files s) p)\<rparr>
       (max_event_bytes (s_limits s))"

fun evicted :: "('x run_event \<Rightarrow> nat) \<Rightarrow> nat \<Rightarrow> nat \<Rightarrow> nat \<Rightarrow> 'x pending_event list \<Rightarrow> 'x pending_event list" where
  "evicted elen cap max_bytes bytes [] = []"
| "evicted elen cap max_bytes bytes (d # ds) =
     (if has_room elen cap max_bytes bytes (d # ds) then [] else d # evicted elen cap max_bytes bytes ds)"

lemma evicted_take:
  assumes "k \<le> length evs" and "has_room elen cap m bytes (drop k evs)"
    and "\<forall>j<k. \<not> has_room elen cap m bytes (drop j evs)"
  shows "evicted elen cap m bytes evs = take k evs"
  using assms
proof (induction evs arbitrary: k)
  case (Cons d ds)
  show ?case
  proof (cases k)
    case 0
    then show ?thesis using Cons.prems(2) by simp
  next
    case (Suc n)
    then have "\<not> has_room elen cap m bytes (d # ds)" "\<forall>j<n. \<not> has_room elen cap m bytes (drop j ds)"
      using Cons.prems(3) by force+
    then show ?thesis using Cons.IH [of n] Cons.prems(1,2) Suc by simp
  qed
qed simp

text \<open>Recording the newest number as lost never fails; recording an evicted range fails on a number lost for another reason.\<close>

lemma newest_loss_recorded:
  assumes "session_ok cd s" and "s_next_seq s < u64_max" and "s_loss s1 = s_loss s"
  shows "record_loss s1 (s_next_seq s) (s_next_seq s) reason \<noteq> None"
proof (rule record_loss_defined)
  note ok = session_okD [OF assms(1)]
  show "loss_ok (s_loss s1)" using ok(2) assms(3) by simp
  have "s_next_seq s \<notin> lostset s" using ok(8) by (metis UnCI atLeastLessThan_iff less_irrefl)
  then show "lostset s1 \<inter> {s_next_seq s..s_next_seq s} = {}" using assms(3) by (simp add: lostset_def)
qed (use assms(2) in simp_all)

lemma overflow_panics:
  assumes sok: "session_ok cd s" and fin: "\<not> s_finalized s" and lt: "s_next_seq s < u64_max"
    and small: "event_len cd e \<le> max_encoded_bytes (s_ring s)"
  defines "out \<equiv> evicted (event_len cd) (ordinary_capacity (s_ring s)) (max_encoded_bytes (s_ring s)) (event_len cd e) (events (s_ring s))"
  shows "\<exists>r. push_ordinary (event_len cd) (s_ring s) \<lparr>seq = s_next_seq s, event = e\<rparr>
      = Some (r, if out = [] then Accepted else OverflowDropped (seq (hd out)) (seq (last out)))"
    and "out \<noteq> [] \<Longrightarrow> s_loss s1 = s_loss s \<Longrightarrow> record_loss s1 (seq (hd out)) (seq (last out)) reason = None \<longleftrightarrow>
      (\<exists>n r. lost (s_loss s) n r \<and> seq (hd out) \<le> n \<and> n \<le> seq (last out) \<and> r \<noteq> reason)"
proof -
  let ?q = "s_next_seq s" and ?evs = "events (s_ring s)"
  note ok = session_okD [OF sok]
  have held: "set (seqs ?evs) \<subseteq> heldset s"
    by (auto simp: heldset_def held_events_def)
  then have below: "\<forall>n\<in>set (seqs ?evs). n < ?q" using ok(8) by fastforce
  obtain k r where k: "k \<le> length ?evs"
    and po: "push_ordinary (event_len cd) (s_ring s) \<lparr>seq = ?q, event = e\<rparr> = Some (r, if k = 0 then Accepted
      else OverflowDropped (seq (?evs ! 0)) (seq (?evs ! (k - 1))))"
    and r: "r = (s_ring s)\<lparr>encoded_bytes := total_len (event_len cd) (drop k ?evs) + event_len cd e,
      events := drop k ?evs @ [\<lparr>seq = ?q, event = e\<rparr>]\<rparr>"
    and rok: "ring_ok (event_len cd) r"
    and full: "\<forall>j<k. \<not> has_room (event_len cd) (ordinary_capacity (s_ring s)) (max_encoded_bytes (s_ring s)) (event_len cd e) (drop j ?evs)"
    using push_ordinary_spec [OF ok(1), of "\<lparr>seq = ?q, event = e\<rparr>"] below lt small by auto
  have "has_room (event_len cd) (ordinary_capacity (s_ring s)) (max_encoded_bytes (s_ring s)) (event_len cd e) (drop k ?evs)"
    using rok by (auto simp: r ring_ok_def has_room_def)
  then have out: "out = take k ?evs" unfolding out_def by (rule evicted_take [OF k _ full])
  have ends: "hd out = ?evs ! 0" "last out = ?evs ! (k - 1)" if "0 < k"
  proof -
    have "out \<noteq> []" "length out = k" using out that k by auto
    then show "hd out = ?evs ! 0" "last out = ?evs ! (k - 1)" using out that by (simp_all add: hd_conv_nth last_conv_nth)
  qed
  have "out = [] \<longleftrightarrow> k = 0" using out k by auto
  then show "\<exists>r. push_ordinary (event_len cd) (s_ring s) \<lparr>seq = ?q, event = e\<rparr>
      = Some (r, if out = [] then Accepted else OverflowDropped (seq (hd out)) (seq (last out)))"
    using po ends by auto
  assume ne: "out \<noteq> []" and loss: "s_loss s1 = s_loss s"
  then have kp: "0 < k" using out by auto
  have sorted: "sorted_wrt (<) (seqs ?evs)" using ok(1) by (simp add: ring_ok_def)
  note at = seqs_at_most [OF sorted kp k]
  have "seq (hd out) \<le> seq (last out)" "seq (last out) \<le> u64_max"
    using at(3) [of "seq (last out)"] at(4) ends [OF kp] below lt by auto
  then show "record_loss s1 (seq (hd out)) (seq (last out)) reason = None \<longleftrightarrow>
      (\<exists>n r. lost (s_loss s) n r \<and> seq (hd out) \<le> n \<and> n \<le> seq (last out) \<and> r \<noteq> reason)"
    using loss_record_None [OF ok(2)] by (simp add: record_loss_def loss)
qed

text \<open>C38. When a push panics, exactly. In every reachable session with numbers left, pushing a payload on an unfinished run
  panics in two cases only. One is a terminal payload, which has a call of its own. The other is an overflow: the payload
  becomes an event that fits both limits, the oldest events have to leave, and a number between the first
  and the last of them was lost earlier for a reason other than an overflow, so that the range the handler records under its own
  reason is refused by the interval set. No other push panics, whatever the payload and the limits are.\<close>

theorem push_event_panics_exactly:
  assumes "session_reach cd blen s" and "s_next_seq s < u64_max"
  shows "push_event cd s p epoch mns = None \<longleftrightarrow>
    \<not> s_finalized s \<and> (is_run_completed p
      \<or> \<not> (s_next_seq s = 1 \<and> is_run_started p)
        \<and> (let e = fitted_event cd s p epoch mns;
               out = evicted (event_len cd) (ordinary_capacity (s_ring s)) (max_encoded_bytes (s_ring s)) (event_len cd e) (events (s_ring s))
           in event_len cd e \<le> max_event_bytes (s_limits s) \<and> event_len cd e \<le> max_encoded_bytes (s_ring s) \<and> out \<noteq> []
              \<and> (\<exists>n r. lost (s_loss s) n r \<and> seq (hd out) \<le> n \<and> n \<le> seq (last out) \<and> r \<noteq> ''buffer_overflow'')))"
proof (cases "s_finalized s \<or> is_run_completed p \<or> s_next_seq s = 1 \<and> is_run_started p")
  case True
  then show ?thesis by (auto simp: push_event_def Let_def)
next
  case False
  note sok = session_reach_ok [OF assms(1)]
  define e where "e = fitted_event cd s p epoch mns"
  define s1 where "s1 = s\<lparr>s_next_seq := wrap_add (s_next_seq s) 1\<rparr>"
  have live: "\<not> s_finalized s" "\<not> is_run_completed p" "\<not> (s_next_seq s = 1 \<and> is_run_started p)" and ring1: "s_ring s1 = s_ring s"
    using False by (auto simp: s1_def)
  have body: "push_event cd s p epoch mns =
      (if event_len cd e > max_event_bytes (s_limits s)
       then map_option (\<lambda>s2. (s2, s_next_seq s)) (record_loss s1 (s_next_seq s) (s_next_seq s) ''oversized_event'')
       else case push_ordinary (event_len cd) (s_ring s) \<lparr>seq = s_next_seq s, event = e\<rparr> of
              None \<Rightarrow> None
            | Some (r, Accepted) \<Rightarrow> Some (s1\<lparr>s_ring := r\<rparr>, s_next_seq s)
            | Some (r, OverflowDropped first lst) \<Rightarrow>
                map_option (\<lambda>s2. (s2, s_next_seq s)) (record_loss (s1\<lparr>s_ring := r\<rparr>) first lst ''buffer_overflow'')
            | Some (r, OversizedDropped q') \<Rightarrow>
                map_option (\<lambda>s2. (s2, s_next_seq s)) (record_loss (s1\<lparr>s_ring := r\<rparr>) q' q' ''buffer_byte_limit''))"
    unfolding push_event_def Let_def fitted_event_def [symmetric] e_def [symmetric] s1_def [symmetric]
    by (simp only: live ring1 if_False)
  have kept: "s_loss s1 = s_loss s" "s_loss (s1\<lparr>s_ring := r\<rparr>) = s_loss s" for r by (simp_all add: s1_def)
  note newest = newest_loss_recorded [OF sok assms(2)]
  consider (big) "event_len cd e > max_event_bytes (s_limits s)"
    | (huge) "event_len cd e \<le> max_event_bytes (s_limits s)" "max_encoded_bytes (s_ring s) < event_len cd e"
    | (fits) "event_len cd e \<le> max_event_bytes (s_limits s)" "event_len cd e \<le> max_encoded_bytes (s_ring s)"
    by linarith
  then show ?thesis
  proof cases
    case big
    then show ?thesis using newest [OF kept(1), of "''oversized_event''"] live unfolding body e_def [symmetric] by (auto simp: Let_def)
  next
    case huge
    then show ?thesis using newest [OF kept(2), of "s_ring s" "''buffer_byte_limit''"] live unfolding body e_def [symmetric] by (auto simp: push_ordinary_def Let_def)
  next
    case fits
    note over = overflow_panics [OF sok _ assms(2) fits(2)]
    obtain r where "push_ordinary (event_len cd) (s_ring s) \<lparr>seq = s_next_seq s, event = e\<rparr> = Some (r,
        if evicted (event_len cd) (ordinary_capacity (s_ring s)) (max_encoded_bytes (s_ring s)) (event_len cd e) (events (s_ring s)) = []
        then Accepted else OverflowDropped
          (seq (hd (evicted (event_len cd) (ordinary_capacity (s_ring s)) (max_encoded_bytes (s_ring s)) (event_len cd e) (events (s_ring s)))))
          (seq (last (evicted (event_len cd) (ordinary_capacity (s_ring s)) (max_encoded_bytes (s_ring s)) (event_len cd e) (events (s_ring s))))))"
      using over(1) False by blast
    then show ?thesis
      using over(2) [OF live(1) _ kept(2), of r "''buffer_overflow''"] live fits unfolding body e_def [symmetric] by (auto simp: Let_def)
  qed
qed

text \<open>A codec in which an opaque payload encodes to its own size.\<close>

definition sized_codec :: "nat codec" where
  "sized_codec = \<lparr>event_len = (\<lambda>e. case ev_payload e of Some (OtherPayload n) \<Rightarrow> n | _ \<Rightarrow> 1),
     action_len = (\<lambda>a. 0), varint_len = (\<lambda>n. 1), key_len = (\<lambda>t. 1), string_len = (\<lambda>t s. length s + 2)\<rparr>"

definition tight_limits :: session_limits where
  "tight_limits = \<lparr>lim_ordinary_capacity = 8, max_events_per_batch = 4, max_event_bytes = 9, max_batch_bytes = 50,
     max_log_chunk_bytes = 2, max_unacked_bytes = 10\<rparr>"

definition count_len :: "'x batch \<Rightarrow> nat" where
  "count_len b = length (b_events b) + length (b_gaps b)"

fun push_sizes :: "nat session \<Rightarrow> nat list \<Rightarrow> nat session option" where
  "push_sizes s [] = Some s"
| "push_sizes s (n # ns) =
     (case session_push_ordinary sized_codec s (OtherPayload n) 0 0 of None \<Rightarrow> None | Some (s', _) \<Rightarrow> push_sizes s' ns)"

lemmas session_eval = session_push_ordinary_def push_event_def session_new_def with_byte_capacity_def loss_new_def Let_def
  tight_limits_def sized_codec_def push_ordinary_def fit_action_presentation_def record_loss_def loss_record_def
  merge_left_def left_neighbour_def overlapping_def wrap_add_def sat_add_def u64_max_def

lemma reach_push_size:
  assumes "session_reach sized_codec blen s" and "s_next_seq s < u64_max"
    and "session_push_ordinary sized_codec s (OtherPayload n) 0 0 = Some (s', q)"
  shows "session_reach sized_codec blen s'"
  using assms by (intro session_reach.reach_push [OF assms(1) _ assms(3)]) (simp add: numbers_needed_def)

lemma reach_push_sizes:
  "session_reach sized_codec blen s \<Longrightarrow> s_next_seq s + length ns \<le> u64_max \<Longrightarrow> push_sizes s ns = Some s' \<Longrightarrow>
     session_reach sized_codec blen s'"
proof (induction s ns rule: push_sizes.induct)
  case (2 s n ns)
  obtain s1 q where s1: "session_push_ordinary sized_codec s (OtherPayload n) 0 0 = Some (s1, q)" "push_sizes s1 ns = Some s'"
    using "2.prems"(3) by (auto split: option.splits)
  have lt: "s_next_seq s < u64_max" using "2.prems"(2) by simp
  have "push_event sized_codec s (OtherPayload n) 0 0 = Some (s1, q)" using s1(1) by (simp add: session_push_ordinary_def)
  then have "s_next_seq s1 \<le> Suc (s_next_seq s)"
    using session_ok_push_event(3) [OF session_reach_ok [OF "2.prems"(1)] lt] by simp
  then show ?case using "2.IH" [OF s1(1) refl reach_push_size [OF "2.prems"(1) lt s1(1)] _ s1(2)] "2.prems"(2) by simp
qed simp

text \<open>Three events of 4, 20 and 4 bytes under a limit of 9 bytes per event and 10 in the ring: the second
  one is recorded as lost.\<close>

definition demo_session :: "nat session" where
  "demo_session = the (push_sizes (session_new ''r'' tight_limits) [4, 20, 4])"

lemma demo_session_eq: "push_sizes (session_new ''r'' tight_limits) [4, 20, 4] = Some demo_session"
  unfolding demo_session_def by (simp add: session_eval)

lemmas demo_fields = demo_session_def [simplified session_eval push_sizes.simps, simplified]

lemma demo_session_reach: "session_reach sized_codec count_len demo_session"
  by (rule reach_push_sizes [OF reach_new _ demo_session_eq]) (simp add: session_new_def u64_max_def)

section \<open>Witnesses\<close>

text \<open>The events before and after the lost number 2 have to leave for one of 9 bytes.\<close>

theorem push_event_panics_exactly_witness:
  "session_reach sized_codec count_len demo_session \<and> s_next_seq demo_session < u64_max \<and> \<not> s_finalized demo_session
     \<and> push_event sized_codec demo_session (OtherPayload 9) 0 0 = None
     \<and> push_event sized_codec demo_session (OtherPayload 6) 0 0 \<noteq> None"
proof -
  have f: "s_next_seq demo_session = 4" "\<not> s_finalized demo_session" "s_loss demo_session = [(2, 2, ''oversized_event'')]"
      "max_event_bytes (s_limits demo_session) = 9" "max_encoded_bytes (s_ring demo_session) = 10"
    by (simp_all add: demo_fields)
  have lt: "s_next_seq demo_session < u64_max" using f(1) by (simp add: u64_max_def)
  have size: "event_len sized_codec (fitted_event sized_codec demo_session (OtherPayload n) 0 0) = n" for n
    by (simp add: fitted_event_def fit_action_presentation_def sized_codec_def)
  let ?out = "\<lambda>n. evicted (event_len sized_codec) (ordinary_capacity (s_ring demo_session)) 10 n (events (s_ring demo_session))"
  have out: "map seq (?out 9) = [1, 3]" "map seq (?out 6) = [1]"
    by (simp_all add: demo_fields has_room_def sized_codec_def)
  then have ends: "?out 9 \<noteq> []" "seq (hd (?out 9)) = 1" "seq (last (?out 9)) = 3" "?out 6 \<noteq> []" "seq (hd (?out 6)) = 1" "seq (last (?out 6)) = 1"
    by (auto simp: map_eq_Cons_conv)
  have lost: "lost (s_loss demo_session) n r \<longleftrightarrow> n = 2 \<and> r = ''oversized_event''" for n r
    by (auto simp: f(3) lost_def)
  have "push_event sized_codec demo_session (OtherPayload 9) 0 0 = None"
    unfolding push_event_panics_exactly [OF demo_session_reach lt] Let_def size f(5) ends(2,3) lost using f ends(1) by simp
  moreover have "push_event sized_codec demo_session (OtherPayload 6) 0 0 \<noteq> None"
    unfolding push_event_panics_exactly [OF demo_session_reach lt] Let_def size f(5) ends(5,6) lost by simp
  ultimately show ?thesis using demo_session_reach lt f(2) by blast
qed

theorem session_accounts_for_every_number_witness:
  "s_expected demo_session \<le> 2 \<and> 2 < s_next_seq demo_session \<and> 2 \<in> lostset demo_session
     \<and> (2 \<in> heldset demo_session \<or> 2 \<in> lostset demo_session)
     \<and> is_drained (session_new ''r'' tight_limits :: nat session)"
proof -
  have f: "s_expected demo_session = 1" "s_next_seq demo_session = 4" "s_loss demo_session = [(2, 2, ''oversized_event'')]"
    by (simp_all add: demo_fields)
  then have "2 \<in> lostset demo_session" by (simp add: lostset_def lost_def)
  moreover have "is_drained (session_new ''r'' tight_limits :: nat session)"
    using session_accounts_for_every_number [OF reach_new [of sized_codec count_len "''r''" tight_limits]]
    by (simp add: session_new_def)
  ultimately show ?thesis
    using session_accounts_for_every_number [OF demo_session_reach] f by simp
qed

theorem next_batch_leaves_no_hole_witness:
  "\<exists>b. next_batch count_len demo_session = (fst (next_batch count_len demo_session), Some b)
     \<and> map ev_seq (b_events b) = [b_seq_from b..<b_seq_from b + length (b_events b)] \<and> b_seq_from b = 1 \<and> length (b_events b) = 1"
proof -
  obtain b where b: "next_batch count_len demo_session = (fst (next_batch count_len demo_session), Some b)"
    "b_seq_from b = 1" "length (b_events b) = 1"
    by (simp add: next_batch_def demo_fields Let_def snapshot_up_to_def snapshot_before_def count_len_def)
  show ?thesis using next_batch_leaves_no_hole [OF demo_session_reach b(1)] b by blast
qed

definition demo_chunk :: log_chunk where
  "demo_chunk = \<lparr>scope = ''build'', stream = 1, offset = 7, chunk_bytes = [1, 2, 3, 4, 5]\<rparr>"

theorem log_fragments_reassemble_witness:
  "0 \<le> offset demo_chunk \<and> concat (map chunk_bytes (log_fragments tight_limits demo_chunk)) = [1, 2, 3, 4, 5]
     \<and> map offset (log_fragments tight_limits demo_chunk) = [7, 9, 11]
     \<and> length (log_fragments tight_limits demo_chunk) = 3
     \<and> offset (log_fragments tight_limits demo_chunk ! 2)
         = 7 + int (length (concat (map chunk_bytes (take 2 (log_fragments tight_limits demo_chunk)))))"
proof -
  have o: "offset demo_chunk + int (length (chunk_bytes demo_chunk)) \<le> i64_max" "0 \<le> offset demo_chunk"
    by (simp_all add: demo_chunk_def i64_max_def)
  have l: "map offset (log_fragments tight_limits demo_chunk) = [7, 9, 11]"
    by (simp add: log_fragments_def tight_limits_def demo_chunk_def chunks.simps offset_add_def sat_mul_def i64_max_def u64_max_def Let_def)
  then have n: "length (log_fragments tight_limits demo_chunk) = 3" by (metis length_map list.size(3,4) numeral_3_eq_3 One_nat_def add.right_neutral add_Suc_right)
  show ?thesis
    using log_fragments_reassemble [OF o, of tight_limits] l n
    by (simp add: demo_chunk_def)
qed

theorem backpressure_is_lossless_witness:
  "\<exists>s' q. session_push_ordinary sized_codec (session_new ''r'' tight_limits) (OtherPayload 4) 0 0 = Some (s', q)
     \<and> s_next_seq s' = 2"
proof -
  let ?s = "session_new ''r'' tight_limits :: nat session"
  have u: "u64_max = 18446744073709551615" by (simp add: u64_max_def)
  have "can_receive 2 ?s"
    by (simp add: can_receive_def session_new_def tight_limits_def with_byte_capacity_def ordinary_len_def div_ceil_def
        sat_mul_def sat_sub_def u64_max_def Let_def)
  note bp = backpressure_is_lossless [OF reach_new [of sized_codec count_len] this, where p = "OtherPayload 4" and epoch = 0 and mns = 0]
  have "\<exists>s' q. session_push_ordinary sized_codec ?s (OtherPayload 4) 0 0 = Some (s', q) \<and> heldset ?s \<subseteq> heldset s'
     \<and> lostset s' \<subseteq> lostset ?s \<union> {s_next_seq ?s..<s_next_seq s'}
     \<and> s_next_seq s' = s_next_seq ?s + numbers_needed (s_limits ?s) (OtherPayload (4::nat))"
    by (rule bp) (simp_all add: session_new_def tight_limits_def div_ceil_def numbers_needed_def u numeral_2_eq_2)
  moreover have "s_next_seq ?s + numbers_needed (s_limits ?s) (OtherPayload (4::nat)) = 2"
    by (simp add: session_new_def numbers_needed_def)
  ultimately show ?thesis by auto
qed

end
