(* ===== verification/Query_Scan.thy ===== *)
theory Query_Scan
  imports Text_Utils
begin

text \<open>
  The quote- and delimiter-aware scanning helpers of the query language:
  \<open>crates/once-cli/src/commands/query/expression/scan.rs\<close>. Text is its sequence of bytes. \<open>char_indices\<close>
  visits the bytes that start a character; every character the scanners compare with is ASCII, so any other one takes the
  default branch, and so do its continuation bytes. A slice that is out of range or cuts a character is the error \<open>Panic\<close>;
  \<open>str::get\<close> answers \<open>None\<close> instead.
\<close>

datatype query_error =
    Panic
  | UnbalancedDelimiters
  | UnterminatedString
  | ExpectedDelimiter
  | UnclosedDelimiter
  | NotReadOnly
  | BadSyntax
  | Unsupported

section \<open>Text\<close>

definition is_ascii_digit :: "char \<Rightarrow> bool" where
  "is_ascii_digit c = (let n = (of_char c :: nat) in 48 \<le> n \<and> n \<le> 57)"

definition is_ascii_alphanumeric :: "char \<Rightarrow> bool" where
  "is_ascii_alphanumeric c \<longleftrightarrow> is_ascii_alphabetic c \<or> is_ascii_digit c"

text \<open>\<open>&s[a..b]\<close>; \<open>&s[a..]\<close> has the length as its upper end.\<close>

definition slice :: "string \<Rightarrow> nat \<Rightarrow> nat \<Rightarrow> query_error + string" where
  "slice s a b = (case str_get s a b of Some t \<Rightarrow> Inr t | None \<Rightarrow> Inl Panic)"

definition strip_trailing_semicolon :: "string \<Rightarrow> string" where
  "strip_trailing_semicolon raw = (if ends_with '';'' raw then trim_end (butlast raw) else raw)"

section \<open>Quotes\<close>

definition backslash :: char where
  "backslash = CHR 0x5C"

definition quotes :: "char list" where
  "quotes = [CHR 0x22, CHR 0x27]"

text \<open>What every scanner does with a character inside an open quote. A continuation byte belongs to the character
  before it and changes nothing.\<close>

definition in_quote :: "char \<Rightarrow> bool \<Rightarrow> char \<Rightarrow> char option \<times> bool" where
  "in_quote q escaped c =
     (if is_continuation c then (Some q, escaped)
      else if escaped then (Some q, False)
      else if c = backslash then (Some q, True)
      else if c = q then (None, False)
      else (Some q, False))"

section \<open>Keywords\<close>

definition is_identifier_char :: "char \<Rightarrow> bool" where
  "is_identifier_char c \<longleftrightarrow> c = CHR ''_'' \<or> is_ascii_alphanumeric c"

text \<open>The last character of the text before and the first of the text after; only an ASCII character can be part of an
  identifier, so that one byte decides.\<close>

definition keyword_boundary :: "string \<Rightarrow> nat \<Rightarrow> nat \<Rightarrow> query_error + bool" where
  "keyword_boundary inp start len =
     rbind (slice inp 0 start) (\<lambda>head.
     rbind (slice inp (start + len) (length inp)) (\<lambda>tail.
       Inr ((head = [] \<or> \<not> is_identifier_char (last head)) \<and> (tail = [] \<or> \<not> is_identifier_char (hd tail)))))"

definition keyword_at :: "string \<Rightarrow> string \<Rightarrow> nat \<Rightarrow> query_error + bool" where
  "keyword_at inp kw idx =
     rbind (slice inp idx (length inp)) (\<lambda>from.
       case str_get from 0 (length kw) of
         None \<Rightarrow> Inr False
       | Some part \<Rightarrow> if eq_ignore_ascii_case part kw then keyword_boundary inp idx (length kw) else Inr False)"

fun keyword_from :: "string \<Rightarrow> string \<Rightarrow> nat \<Rightarrow> string \<Rightarrow> char option \<Rightarrow> bool \<Rightarrow> query_error + nat option" where
  "keyword_from inp kw idx [] quote escaped = Inr None"
| "keyword_from inp kw idx (c # cs) (Some q) escaped =
     (case in_quote q escaped c of (quote', escaped') \<Rightarrow> keyword_from inp kw (Suc idx) cs quote' escaped')"
| "keyword_from inp kw idx (c # cs) None escaped =
     (if is_continuation c then keyword_from inp kw (Suc idx) cs None escaped
      else if c \<in> set quotes then keyword_from inp kw (Suc idx) cs (Some c) escaped
      else rbind (keyword_at inp kw idx) (\<lambda>here.
             if here then Inr (Some idx) else keyword_from inp kw (Suc idx) cs None escaped))"

definition keyword_pos :: "string \<Rightarrow> string \<Rightarrow> nat \<Rightarrow> query_error + nat option" where
  "keyword_pos inp kw start = keyword_from inp kw start (drop start inp) None False"

definition starts_with_keyword :: "string \<Rightarrow> string \<Rightarrow> query_error + bool" where
  "starts_with_keyword inp kw =
     (case str_get inp 0 (length kw) of
        None \<Rightarrow> Inr False
      | Some part \<Rightarrow> if eq_ignore_ascii_case part kw then keyword_boundary inp 0 (length kw) else Inr False)"

section \<open>Delimiters\<close>

definition opens :: "char list" where
  "opens = ''([{''"

definition closes :: "char list" where
  "closes = '')]}''"

fun split_scan ::
  "string \<Rightarrow> char \<Rightarrow> nat \<Rightarrow> string \<Rightarrow> nat \<Rightarrow> int \<Rightarrow> char option \<Rightarrow> bool \<Rightarrow> string list \<Rightarrow> query_error + string list" where
  "split_scan inp sep idx [] start depth quote escaped parts =
     (if quote \<noteq> None then Inl UnterminatedString
      else if depth \<noteq> 0 then Inl UnbalancedDelimiters
      else rbind (slice inp start (length inp)) (\<lambda>part. Inr (parts @ [trim part])))"
| "split_scan inp sep idx (c # cs) start depth (Some q) escaped parts =
     (case in_quote q escaped c of (quote', escaped') \<Rightarrow>
        split_scan inp sep (Suc idx) cs start depth quote' escaped' parts)"
| "split_scan inp sep idx (c # cs) start depth None escaped parts =
     (if c \<in> set quotes then split_scan inp sep (Suc idx) cs start depth (Some c) escaped parts
      else if c \<in> set opens then split_scan inp sep (Suc idx) cs start (depth + 1) None escaped parts
      else if c \<in> set closes
      then (if depth - 1 < 0 then Inl UnbalancedDelimiters
            else split_scan inp sep (Suc idx) cs start (depth - 1) None escaped parts)
      else if c = sep \<and> depth = 0
      then rbind (slice inp start idx) (\<lambda>part.
             split_scan inp sep (Suc idx) cs (Suc idx) depth None escaped (parts @ [trim part]))
      else split_scan inp sep (Suc idx) cs start depth None escaped parts)"

definition split_top_level :: "string \<Rightarrow> char \<Rightarrow> query_error + string list" where
  "split_top_level inp sep = split_scan inp sep 0 inp 0 0 None False []"

fun top_level_from :: "char \<Rightarrow> nat \<Rightarrow> string \<Rightarrow> int \<Rightarrow> char option \<Rightarrow> bool \<Rightarrow> nat option" where
  "top_level_from needle idx [] depth quote escaped = None"
| "top_level_from needle idx (c # cs) depth (Some q) escaped =
     (case in_quote q escaped c of (quote', escaped') \<Rightarrow> top_level_from needle (Suc idx) cs depth quote' escaped')"
| "top_level_from needle idx (c # cs) depth None escaped =
     (if c \<in> set quotes then top_level_from needle (Suc idx) cs depth (Some c) escaped
      else if c = needle \<and> depth = 0 then Some idx
      else if c \<in> set opens then top_level_from needle (Suc idx) cs (depth + 1) None escaped
      else if c \<in> set closes then top_level_from needle (Suc idx) cs (depth - 1) None escaped
      else top_level_from needle (Suc idx) cs depth None escaped)"

definition top_level_char :: "string \<Rightarrow> char \<Rightarrow> nat option" where
  "top_level_char inp needle = top_level_from needle 0 inp 0 None False"

fun matching_from :: "char \<Rightarrow> char \<Rightarrow> nat \<Rightarrow> string \<Rightarrow> int \<Rightarrow> char option \<Rightarrow> bool \<Rightarrow> query_error + nat" where
  "matching_from l r idx [] depth quote escaped = Inl UnclosedDelimiter"
| "matching_from l r idx (c # cs) depth (Some q) escaped =
     (case in_quote q escaped c of (quote', escaped') \<Rightarrow> matching_from l r (Suc idx) cs depth quote' escaped')"
| "matching_from l r idx (c # cs) depth None escaped =
     (if c \<in> set quotes then matching_from l r (Suc idx) cs depth (Some c) escaped
      else if c = l then matching_from l r (Suc idx) cs (depth + 1) None escaped
      else if c = r
      then (if depth - 1 = 0 then Inr idx else matching_from l r (Suc idx) cs (depth - 1) None escaped)
      else matching_from l r (Suc idx) cs depth None escaped)"

definition matching_delimiter :: "string \<Rightarrow> nat \<Rightarrow> char \<Rightarrow> char \<Rightarrow> query_error + nat" where
  "matching_delimiter inp open_at l r =
     rbind (slice inp open_at (length inp)) (\<lambda>from.
       if \<not> starts_with [l] from then Inl ExpectedDelimiter
       else matching_from l r open_at from 0 None False)"

section \<open>Where keywords are found\<close>

lemma slice_Inr: "slice s a b = Inr t \<longleftrightarrow> a \<le> b \<and> is_char_boundary s a \<and> is_char_boundary s b \<and> t = take (b - a) (drop a s)"
  by (auto simp: slice_def str_get_def)

lemma slice_ok: "a \<le> b \<Longrightarrow> is_char_boundary s a \<Longrightarrow> is_char_boundary s b \<Longrightarrow> slice s a b = Inr (take (b - a) (drop a s))"
  by (simp add: slice_Inr)

lemma slice_from: "is_char_boundary s a \<Longrightarrow> slice s a (length s) = Inr (drop a s)"
  by (simp add: slice_Inr boundary_le)

lemma slice_str: "is_str s \<Longrightarrow> slice s a b = Inr t \<Longrightarrow> is_str t"
  by (auto simp: slice_Inr is_str_slice)

lemma keyword_at_total:
  assumes "is_char_boundary inp idx"
  shows "\<exists>b. keyword_at inp kw idx = Inr b"
proof (cases "str_get (drop idx inp) 0 (length kw)")
  case None
  then show ?thesis using assms by (intro exI [of _ False]) (simp add: keyword_at_def slice_from)
next
  case (Some part)
  then have "is_char_boundary (drop idx inp) (length kw)" by (simp add: str_get_def split: if_splits)
  then have "is_char_boundary inp (idx + length kw)" by (rule boundary_shift [OF assms])
  then show ?thesis using assms Some
    by (cases "eq_ignore_ascii_case part kw") (auto simp: keyword_at_def keyword_boundary_def slice_from slice_ok)
qed

text \<open>A keyword that is found stands on boundaries and is not part of a longer identifier.\<close>

lemma keyword_at_True:
  assumes "keyword_at inp kw p = Inr True"
  shows "is_char_boundary inp p" and "is_char_boundary inp (p + length kw)" and "length kw \<le> length (drop p inp)"
    and "eq_ignore_ascii_case (take (length kw) (drop p inp)) kw" and "0 < p \<Longrightarrow> \<not> is_identifier_char (inp ! (p - 1))"
proof -
  have at: "is_char_boundary inp p" using assms by (auto simp: keyword_at_def slice_Inr rbind_Inr)
  show "is_char_boundary inp p" by (rule at)
  have b: "str_get (drop p inp) 0 (length kw) = Some (take (length kw) (drop p inp))"
      "eq_ignore_ascii_case (take (length kw) (drop p inp)) kw" "keyword_boundary inp p (length kw) = Inr True"
    using assms at by (auto simp: keyword_at_def slice_from str_get_def split: if_splits)
  show "eq_ignore_ascii_case (take (length kw) (drop p inp)) kw" by (rule b(2))
  have w: "is_char_boundary (drop p inp) (length kw)" using b(1) by (simp add: str_get_def split: if_splits)
  show "length kw \<le> length (drop p inp)" by (rule boundary_le [OF w])
  show "is_char_boundary inp (p + length kw)" by (rule boundary_shift [OF at w])
  show "\<not> is_identifier_char (inp ! (p - 1))" if p: "0 < p"
  proof -
    have "take p inp \<noteq> []" "last (take p inp) = inp ! (p - 1)"
      using p boundary_le [OF at] w boundary_le [OF w] by (cases p; simp add: take_Suc_conv_app_nth)+
    then show ?thesis using b(3) by (auto simp: keyword_boundary_def rbind_Inr slice_Inr)
  qed
qed

lemma drop_Cons_step: "c # cs = drop idx inp \<Longrightarrow> cs = drop (Suc idx) inp \<and> idx < length inp \<and> inp ! idx = c"
  by (metis Cons_nth_drop_Suc drop_eq_Nil leI list.distinct(1) list.inject)

lemma keyword_from_total: "cs = drop idx inp \<Longrightarrow> \<exists>hit. keyword_from inp kw idx cs quote escaped = Inr hit"
proof (induction inp kw idx cs quote escaped rule: keyword_from.induct)
  case (2 inp kw idx c cs q escaped)
  obtain q' e' where q': "in_quote q escaped c = (q', e')" by fastforce
  then show ?case using "2.IH" [OF q' [symmetric]] drop_Cons_step [OF "2.prems"] by simp
next
  case (3 inp kw idx c cs escaped)
  note step = drop_Cons_step [OF "3.prems"]
  show ?case
  proof (cases "is_continuation c")
    case True
    then show ?thesis using "3.IH"(1) step by simp
  next
    case False
    then have "is_char_boundary inp idx" using step by (simp add: is_char_boundary_def)
    then obtain b where "keyword_at inp kw idx = Inr b" using keyword_at_total by blast
    then show ?thesis using "3.IH"(2,3) False step by (cases b) auto
  qed
qed simp

lemma keyword_pos_total: "\<exists>hit. keyword_pos inp kw start = Inr hit"
  unfolding keyword_pos_def by (rule keyword_from_total) simp

lemma keyword_from_bounds:
  "keyword_from inp kw idx cs quote escaped = Inr (Some p) \<Longrightarrow> cs = drop idx inp \<Longrightarrow>
   idx \<le> p \<and> p < length inp \<and> keyword_at inp kw p = Inr True"
proof (induction inp kw idx cs quote escaped rule: keyword_from.induct)
  case (2 inp kw idx c cs q escaped)
  obtain q' e' where q': "in_quote q escaped c = (q', e')" by fastforce
  then show ?case using "2.IH" [OF q' [symmetric]] "2.prems"(1) drop_Cons_step [OF "2.prems"(2)] by auto
next
  case (3 inp kw idx c cs escaped)
  note step = drop_Cons_step [OF "3.prems"(2)]
  consider "is_continuation c" | "\<not> is_continuation c" "c \<in> set quotes" | "\<not> is_continuation c" "c \<notin> set quotes" by blast
  then show ?case
  proof cases
    case 3
    then obtain here where "keyword_at inp kw idx = Inr here" using "3.prems"(1) by (auto simp: rbind_Inr)
    then show ?thesis using "3.IH"(3) [of here] "3.prems"(1) step 3 by (cases here) auto
  qed (use "3.IH"(1,2) "3.prems"(1) step in auto)
qed simp

lemma keyword_pos_bounds:
  assumes "keyword_pos inp kw start = Inr (Some p)"
  shows "start \<le> p" and "p < length inp" and "p + length kw \<le> length inp" and "keyword_at inp kw p = Inr True"
    and "is_char_boundary inp p" and "is_char_boundary inp (p + length kw)"
proof -
  note b = keyword_from_bounds [OF assms [unfolded keyword_pos_def] refl]
  then show "start \<le> p" "p < length inp" "keyword_at inp kw p = Inr True" by auto
  then show "is_char_boundary inp p" "is_char_boundary inp (p + length kw)" "p + length kw \<le> length inp"
    using keyword_at_True(1,2,3) [of inp kw p] by auto
qed

text \<open>The loop advances past a non-empty keyword; an empty one is never passed.\<close>

function split_keyword_from :: "string \<Rightarrow> string \<Rightarrow> nat \<Rightarrow> query_error + string list" where
  "split_keyword_from inp kw start =
     rbind (keyword_pos inp kw start) (\<lambda>hit.
       case hit of
         Some pos \<Rightarrow>
           if kw = [] then Inl Panic
           else rbind (slice inp start pos) (\<lambda>part.
                  rbind (split_keyword_from inp kw (pos + length kw)) (\<lambda>parts. Inr (trim part # parts)))
       | None \<Rightarrow> rbind (slice inp start (length inp)) (\<lambda>part. Inr [trim part]))"
  by pat_completeness auto
termination
proof (relation "measure (\<lambda>(inp, kw, start). length inp - start)")
  fix inp kw start hit pos part
  assume "keyword_pos inp kw start = Inr hit" "hit = Some pos" "kw \<noteq> []"
  then show "((inp, kw, pos + length kw), (inp, kw, start)) \<in> measure (\<lambda>(inp, kw, start). length inp - start)"
    using keyword_pos_bounds(1,2) [of inp kw start pos] by (cases kw) auto
qed simp

declare split_keyword_from.simps [simp del]

definition split_top_level_keyword :: "string \<Rightarrow> string \<Rightarrow> query_error + string list" where
  "split_top_level_keyword inp kw = split_keyword_from inp kw 0"

section \<open>Balanced quotes\<close>

definition qstep :: "char option \<times> bool \<Rightarrow> char \<Rightarrow> char option \<times> bool" where
  "qstep st c = (case fst st of
       Some q \<Rightarrow> in_quote q (snd st) c
     | None \<Rightarrow> (if c \<in> set quotes then Some c else None, snd st))"

definition qrun :: "char option \<times> bool \<Rightarrow> string \<Rightarrow> char option \<times> bool" where
  "qrun st s = foldl qstep st s"

definition balanced :: "string \<Rightarrow> bool" where
  "balanced s \<longleftrightarrow> qrun (None, False) s = (None, False)"

definition quote_ok :: "char option \<times> bool \<Rightarrow> bool" where
  "quote_ok st \<longleftrightarrow> (case fst st of None \<Rightarrow> \<not> snd st | Some q \<Rightarrow> q \<in> set quotes)"

lemma qrun_simps [simp]:
  "qrun st [] = st" "qrun st (c # cs) = qrun (qstep st c) cs" "qrun st (xs @ ys) = qrun (qrun st xs) ys"
  by (simp_all add: qrun_def)

lemma qstep_simps [simp]:
  "qstep (Some q, e) c = in_quote q e c"
  "c \<in> set quotes \<Longrightarrow> qstep (None, e) c = (Some c, e)"
  "c \<notin> set quotes \<Longrightarrow> qstep (None, e) c = (None, e)"
  by (simp_all add: qstep_def)

lemma quote_ok_simps [simp]: "quote_ok (None, e) \<longleftrightarrow> \<not> e" "quote_ok (Some q, e) \<longleftrightarrow> q \<in> set quotes"
  by (simp_all add: quote_ok_def)

lemma quote_ascii: "q \<in> set quotes \<Longrightarrow> is_ascii q"
  by (auto simp: quotes_def is_ascii_def)

lemma quote_starts: "q \<in> set quotes \<Longrightarrow> \<not> is_continuation q"
  by (simp add: quote_ascii ascii_not_continuation)

lemma quote_ok_step: "quote_ok st \<Longrightarrow> quote_ok (qstep st c)"
  by (cases st; cases "fst st") (auto simp: qstep_def in_quote_def quote_ok_def)

lemma quote_ok_run: "quote_ok st \<Longrightarrow> quote_ok (qrun st s)"
  by (induction s arbitrary: st) (simp_all add: quote_ok_step)

lemma balanced_Nil [simp]: "balanced []"
  by (simp add: balanced_def)

lemma balanced_plain: "set s \<inter> set quotes = {} \<Longrightarrow> balanced s"
  by (induction s) (auto simp: balanced_def)

lemma balanced_append: "balanced xs \<Longrightarrow> balanced (xs @ ys) \<longleftrightarrow> balanced ys"
  by (simp add: balanced_def)

lemma lone_quote_not_balanced: "c \<in> set quotes \<Longrightarrow> \<not> balanced [c]"
  by (simp add: balanced_def)

text \<open>A character that is no quote cannot close one.\<close>

lemma plain_end: "quote_ok st \<Longrightarrow> c \<notin> set quotes \<Longrightarrow> fst (qstep st c) = None \<longleftrightarrow> fst st = None"
  by (cases st; cases "fst st") (auto simp: qstep_def in_quote_def quote_ok_def)

lemma balanced_snoc_plain:
  assumes "balanced (s @ [c])" and "c \<notin> set quotes"
  shows "balanced s"
proof -
  let ?st = "qrun (None, False) s"
  have ok: "quote_ok ?st" by (rule quote_ok_run) simp
  have "fst ?st = None" using plain_end [OF ok assms(2)] assms(1) by (simp add: balanced_def)
  then show ?thesis using ok by (cases ?st) (simp add: balanced_def)
qed

lemma balanced_cons_plain: "c \<notin> set quotes \<Longrightarrow> balanced (c # s) \<longleftrightarrow> balanced s"
  by (simp add: balanced_def)

lemma balanced_append_plain:
  assumes "balanced (s @ x)" and "set x \<inter> set quotes = {}"
  shows "balanced s"
  using assms
proof (induction x rule: rev_induct)
  case (snoc c x)
  then show ?case using balanced_snoc_plain [of "s @ x" c] by simp
qed simp

lemma whitespace_not_quote: "is_whitespace x \<Longrightarrow> set x \<inter> set quotes = {}"
proof -
  assume w: "is_whitespace x"
  have "\<not> is_whitespace [q]" if "q \<in> set quotes" for q
    using that by (auto simp: is_whitespace_def code_point_def quotes_def)
  then have one: "length x = 1 \<Longrightarrow> ?thesis" using w by (auto simp: length_Suc_conv)
  have "list_all (\<lambda>c. \<not> is_ascii c) x" if "length x \<noteq> 1"
  proof -
    have "utf8_char x" using w by (simp add: is_whitespace_def)
    moreover have "map (of_char :: char \<Rightarrow> nat) x \<noteq> [a]" for a using that by auto
    ultimately have "list_all (\<lambda>n. 0x80 \<le> n) (map (of_char :: char \<Rightarrow> nat) x)"
      unfolding utf8_char_def by (auto split: list.splits)
    then show ?thesis by (simp add: list_all_iff is_ascii_def not_less)
  qed
  then show ?thesis using one by (auto simp: list_all_iff dest: quote_ascii)
qed

lemma balanced_trim_start: "balanced (trim_start s) \<longleftrightarrow> balanced s"
proof -
  have "balanced (concat (dropWhile is_whitespace xs)) \<longleftrightarrow> balanced (concat xs)" for xs
    by (induction xs) (simp_all add: balanced_append balanced_plain whitespace_not_quote)
  from this [of "str_chars s"] show ?thesis by (simp add: trim_start_def)
qed

lemma balanced_trim_end: "balanced s \<Longrightarrow> balanced (trim_end s)"
proof -
  have "balanced (concat (rev xs)) \<Longrightarrow> balanced (concat (rev (dropWhile is_whitespace xs)))" for xs
    by (induction xs) (auto dest: balanced_append_plain whitespace_not_quote)
  from this [of "rev (str_chars s)"] show "balanced s \<Longrightarrow> ?thesis" by (simp add: trim_end_def)
qed

lemma balanced_trim: "balanced s \<Longrightarrow> balanced (trim s)"
  by (simp add: trim_def balanced_trim_end balanced_trim_start)

lemma length_concat_dropWhile: "length (concat (dropWhile P xs)) \<le> length (concat xs)"
  by (induction xs) simp_all

lemma length_trim_start: "length (trim_start s) \<le> length s"
  using length_concat_dropWhile [of is_whitespace "str_chars s"] by (simp add: trim_start_def)

lemma length_trim_end: "length (trim_end s) \<le> length s"
proof -
  have "length (concat (rev xs)) = length (concat xs)" for xs :: "'a list list"
    by (induction xs) simp_all
  then show ?thesis
    using length_concat_dropWhile [of is_whitespace "rev (str_chars s)"] by (metis concat_str_chars trim_end_def)
qed

lemma length_trim: "length (trim s) \<le> length s"
  unfolding trim_def by (rule order_trans [OF length_trim_end length_trim_start])

section \<open>Positions found outside of quotes\<close>

lemma advance:
  assumes "Suc idx \<le> p"
  shows "take (p - idx) (c # cs) = c # take (p - Suc idx) cs" and "(c # cs) ! (p - idx) = cs ! (p - Suc idx)"
  using assms by (auto simp: le_iff_add)

lemma keyword_from_outside:
  assumes "keyword_from inp kw idx cs quote escaped = Inr (Some p)" and "quote_ok (quote, escaped)"
  shows "idx \<le> p \<and> p < idx + length cs \<and> qrun (quote, escaped) (take (p - idx) cs) = (None, False)"
  using assms
proof (induction inp kw idx cs quote escaped rule: keyword_from.induct)
  case (2 inp kw idx c cs q escaped)
  obtain q' e' where q': "in_quote q escaped c = (q', e')" by fastforce
  have "quote_ok (q', e')" using quote_ok_step [OF "2.prems"(2), of c] q' by simp
  then have "Suc idx \<le> p \<and> p < Suc idx + length cs \<and> qrun (q', e') (take (p - Suc idx) cs) = (None, False)"
    using "2.IH" [OF q' [symmetric]] "2.prems"(1) q' by simp
  then show ?case using q' by (auto simp: advance)
next
  case (3 inp kw idx c cs escaped)
  show ?case
  proof (cases "\<not> is_continuation c \<and> c \<notin> set quotes \<and> keyword_at inp kw idx = Inr True")
    case True
    then show ?thesis using "3.prems" by auto
  next
    case False
    let ?st = "qstep (None, escaped) c"
    have "quote_ok ?st" using quote_ok_step [OF "3.prems"(2)] .
    moreover have "keyword_from inp kw (Suc idx) cs (fst ?st) (snd ?st) = Inr (Some p)"
      using "3.prems"(1) False quote_starts by (cases "c \<in> set quotes") (auto simp: rbind_Inr split: if_splits)
    ultimately have "Suc idx \<le> p \<and> p < Suc idx + length cs \<and> qrun ?st (take (p - Suc idx) cs) = (None, False)"
      using "3.IH" "3.prems"(1) False quote_starts by (cases "c \<in> set quotes") (auto simp: rbind_Inr split: if_splits)
    then show ?thesis by (auto simp: advance)
  qed
qed simp

lemma keyword_pos_outside:
  assumes "keyword_pos inp kw start = Inr (Some p)"
  shows "balanced (take (p - start) (drop start inp))"
  using keyword_from_outside [OF assms [unfolded keyword_pos_def]] by (simp add: balanced_def)

lemma top_level_from_outside:
  assumes "top_level_from needle idx cs depth quote escaped = Some p" and "quote_ok (quote, escaped)"
  shows "idx \<le> p \<and> p < idx + length cs \<and> cs ! (p - idx) = needle
    \<and> qrun (quote, escaped) (take (p - idx) cs) = (None, False)"
  using assms
proof (induction needle idx cs depth quote escaped rule: top_level_from.induct)
  case (2 needle idx c cs depth q escaped)
  obtain q' e' where q': "in_quote q escaped c = (q', e')" by fastforce
  have "quote_ok (q', e')" using quote_ok_step [OF "2.prems"(2), of c] q' by simp
  then have "Suc idx \<le> p \<and> p < Suc idx + length cs \<and> cs ! (p - Suc idx) = needle
      \<and> qrun (q', e') (take (p - Suc idx) cs) = (None, False)"
    using "2.IH" [OF q' [symmetric]] "2.prems"(1) q' by simp
  then show ?case using q' by (auto simp: advance)
next
  case (3 needle idx c cs depth escaped)
  show ?case
  proof (cases "c \<notin> set quotes \<and> c = needle \<and> depth = 0")
    case True
    then show ?thesis using "3.prems" by auto
  next
    case False
    let ?st = "qstep (None, escaped) c"
    have "quote_ok ?st" using quote_ok_step [OF "3.prems"(2)] .
    then have "Suc idx \<le> p \<and> p < Suc idx + length cs \<and> cs ! (p - Suc idx) = needle
        \<and> qrun ?st (take (p - Suc idx) cs) = (None, False)"
      using "3.IH" "3.prems"(1) False by (cases "c \<in> set quotes") (auto split: if_splits)
    then show ?thesis by (auto simp: advance)
  qed
qed simp

lemma top_level_char_outside:
  assumes "top_level_char inp needle = Some p"
  shows "p < length inp" and "inp ! p = needle" and "balanced (take p inp)"
  using top_level_from_outside [OF assms [unfolded top_level_char_def]] by (simp_all add: balanced_def)

lemma matching_from_outside:
  assumes "matching_from l r idx cs depth quote escaped = Inr p" and "quote_ok (quote, escaped)" 
  shows "idx \<le> p \<and> p < idx + length cs \<and> cs ! (p - idx) = r
    \<and> qrun (quote, escaped) (take (p - idx) cs) = (None, False)"
  using assms
proof (induction l r idx cs depth quote escaped rule: matching_from.induct)
  case (2 l r idx c cs depth q escaped)
  obtain q' e' where q': "in_quote q escaped c = (q', e')" by fastforce
  have "quote_ok (q', e')" using quote_ok_step [OF "2.prems"(2), of c] q' by simp
  then have "Suc idx \<le> p \<and> p < Suc idx + length cs \<and> cs ! (p - Suc idx) = r
      \<and> qrun (q', e') (take (p - Suc idx) cs) = (None, False)"
    using "2.IH" [OF q' [symmetric]] "2.prems"(1) q' by simp
  then show ?case using q' by (auto simp: advance)
next
  case (3 l r idx c cs depth escaped)
  show ?case
  proof (cases "c \<notin> set quotes \<and> c \<noteq> l \<and> c = r \<and> depth - 1 = 0")
    case True
    then show ?thesis using "3.prems" by auto
  next
    case False
    let ?st = "qstep (None, escaped) c"
    have "quote_ok ?st" using quote_ok_step [OF "3.prems"(2)] .
    then have "Suc idx \<le> p \<and> p < Suc idx + length cs \<and> cs ! (p - Suc idx) = r
        \<and> qrun ?st (take (p - Suc idx) cs) = (None, False)"
      using "3.IH" "3.prems"(1) False by (cases "c \<in> set quotes") (auto split: if_splits)
    then show ?thesis by (auto simp: advance)
  qed
qed simp

lemma matching_from_no_panic: "matching_from l r idx cs depth quote escaped \<noteq> Inl Panic"
  by (induction l r idx cs depth quote escaped rule: matching_from.induct) (auto split: prod.splits)

lemma matching_delimiter_outside:
  assumes "matching_delimiter inp open_at l r = Inr p" and "l \<noteq> r"
  shows "open_at < p" and "p < length inp" and "inp ! p = r" and "balanced (take (p - open_at) (drop open_at inp))"
    and "inp ! open_at = l"
proof -
  have f: "matching_from l r open_at (drop open_at inp) 0 None False = Inr p" "open_at \<le> length inp"
    "starts_with [l] (drop open_at inp)"
    using assms(1) by (auto simp: matching_delimiter_def rbind_Inr slice_Inr split: if_splits)
  note o = matching_from_outside [OF f(1), simplified]
  have "drop open_at inp \<noteq> []" "hd (drop open_at inp) = l"
    using f(3) by (cases "drop open_at inp"; simp add: starts_with_def)+
  then have l: "open_at < length inp" "inp ! open_at = l" by (auto simp: hd_drop_conv_nth)
  show "inp ! open_at = l" "p < length inp" "balanced (take (p - open_at) (drop open_at inp))"
    using o l f(2) by (auto simp: balanced_def)
  have eq: "open_at + (p - open_at) = p" using o by simp
  have "inp ! (open_at + (p - open_at)) = r" using o nth_drop [OF f(2), of "p - open_at"] by metis
  then show "inp ! p = r" unfolding eq .
  then have "p \<noteq> open_at" using l(2) assms(2) by auto
  then show "open_at < p" using o by simp
qed

lemma matching_delimiter_no_panic: "is_char_boundary inp open_at \<Longrightarrow> matching_delimiter inp open_at l r \<noteq> Inl Panic"
  by (simp add: matching_delimiter_def slice_from matching_from_no_panic)

section \<open>Splitting\<close>

lemma take_snoc_drop:
  assumes "start \<le> idx" and "c # cs = drop idx inp"
  shows "take (Suc idx - start) (drop start inp) = take (idx - start) (drop start inp) @ [c]"
    and "cs = drop (Suc idx) inp" and "idx < length inp"
proof -
  show idx: "idx < length inp" using assms(2) by (metis drop_eq_Nil list.distinct(1) not_le)
  show "cs = drop (Suc idx) inp" using assms(2) by (metis drop_Suc list.sel(3) tl_drop)
  have "inp ! idx = c" using assms(2) idx by (metis Cons_nth_drop_Suc list.inject)
  then show "take (Suc idx - start) (drop start inp) = take (idx - start) (drop start inp) @ [c]"
    using assms(1) idx by (simp add: Suc_diff_le take_Suc_conv_app_nth)
qed

lemma split_scan_parts:
  assumes "cs = drop idx inp" and "start \<le> idx" and "idx \<le> length inp"
    and "qrun (None, False) (take (idx - start) (drop start inp)) = (quote, escaped)"
    and "quote_ok (quote, escaped)" and "is_str inp" and "is_char_boundary inp start" and "is_ascii sep"
  shows "split_scan inp sep idx cs start depth quote escaped parts \<noteq> Inl Panic
    \<and> (\<forall>out. split_scan inp sep idx cs start depth quote escaped parts = Inr out \<longrightarrow>
         out \<noteq> [] \<and> (\<forall>x\<in>set out. x \<in> set parts \<or> balanced x \<and> is_str x))"
  using assms
proof (induction inp sep idx cs start depth quote escaped parts rule: split_scan.induct)
  case (1 inp sep idx start depth quote escaped parts)
  have "idx = length inp" using "1.prems"(1,3) by simp
  then have b: "balanced (drop start inp)" if "quote = None" using "1.prems"(4,5) that by (simp add: balanced_def)
  have "is_str (trim (drop start inp))" using is_str_split(2) "1.prems"(6,7) by (simp add: is_str_trim)
  then show ?case using b balanced_trim slice_from [OF "1.prems"(7)] by auto
next
  case (2 inp sep idx c cs start depth q escaped parts)
  obtain q' e' where q': "in_quote q escaped c = (q', e')" by fastforce
  note t = take_snoc_drop [OF "2.prems"(2,1)]
  have "quote_ok (q', e')" using quote_ok_step [OF "2.prems"(5), of c] q' by simp
  moreover have "qrun (None, False) (take (Suc idx - start) (drop start inp)) = (q', e')"
    unfolding t(1) using "2.prems"(4) q' by simp
  ultimately show ?case using "2.IH" [OF q' [symmetric] t(2)] "2.prems"(2,6,7,8) t(3) q' by simp
next
  case (3 inp sep idx c cs start depth escaped parts)
  note t = take_snoc_drop [OF "3.prems"(2,1)]
  let ?st = "qstep (None, escaped) c"
  have e: "\<not> escaped" using "3.prems"(5) by simp
  have ok: "quote_ok ?st" using quote_ok_step [OF "3.prems"(5)] .
  have run: "qrun (None, False) (take (Suc idx - start) (drop start inp)) = ?st"
    unfolding t(1) using "3.prems"(4) by simp
  have le: "start \<le> Suc idx" "Suc idx \<le> length inp" using "3.prems"(2) t(3) by simp_all
  let ?part = "take (idx - start) (drop start inp)"
  have bal: "balanced (trim ?part)" using "3.prems"(4) e balanced_trim [of ?part] by (simp add: balanced_def)
  have c: "inp ! idx = c" using drop_Cons_step [OF "3.prems"(1)] by simp
  show ?case
  proof (cases "c \<in> set quotes")
    case True
    then show ?thesis using "3.IH"(1) [OF True t(2) le] run ok "3.prems"(6,7,8) by simp
  next
    case nq: False
    then have st: "?st = (None, escaped)" by simp
    note rest = t(2) le run [unfolded st] ok [unfolded st] "3.prems"(6,7,8)
    show ?thesis
    proof (cases "c \<in> set opens")
      case True
      then show ?thesis using "3.IH"(2) [OF nq True rest] nq by simp
    next
      case no: False
      show ?thesis
      proof (cases "c \<in> set closes")
        case True
        then show ?thesis using "3.IH"(3) [OF nq no True _ rest] nq no by auto
      next
        case nc: False
        show ?thesis
        proof (cases "c = sep \<and> depth = 0")
          case True
          have edge: "is_char_boundary inp idx" "is_char_boundary inp (Suc idx)"
            using ascii_boundary [OF "3.prems"(6) t(3)] c True "3.prems"(8) by simp_all
          have sl: "slice inp start idx = Inr ?part" using "3.prems"(2,7) edge(1) by (simp add: slice_ok)
          have part: "balanced (trim ?part)" "is_str (trim ?part)"
            using bal slice_str [OF "3.prems"(6) sl] by (simp_all add: is_str_trim)
          have z: "Suc idx \<le> Suc idx" "qrun (None, False) (take (Suc idx - Suc idx) (drop (Suc idx) inp)) = (None, escaped)"
            using e by simp_all
          show ?thesis
            using "3.IH"(4) [OF nq no nc True sl t(2) z(1) le(2) z(2) rest(5) "3.prems"(6) edge(2) "3.prems"(8)] nq no nc True sl part
            by auto
        next
          case False
          then show ?thesis using "3.IH"(5) [OF nq no nc False rest] nq no nc by auto
        qed
      qed
    qed
  qed
qed

lemma split_top_level_parts:
  assumes "is_str inp" and "is_ascii sep"
  shows "split_top_level inp sep \<noteq> Inl Panic"
    and "split_top_level inp sep = Inr out \<Longrightarrow> out \<noteq> [] \<and> (\<forall>x\<in>set out. balanced x \<and> is_str x)"
  using split_scan_parts [of inp 0 inp 0 None False sep 0 "[]"] assms by (auto simp: split_top_level_def)

lemma split_scan_length:
  "split_scan inp sep idx cs start depth quote escaped parts = Inr out \<Longrightarrow> x \<in> set out \<Longrightarrow> x \<in> set parts \<or> length x \<le> length inp"
proof (induction inp sep idx cs start depth quote escaped parts rule: split_scan.induct)
  case (1 inp sep idx start depth quote escaped parts)
  have "length (trim (drop start inp)) \<le> length inp" by (rule order_trans [OF length_trim]) simp
  then show ?case using 1 by (auto simp: rbind_Inr slice_Inr split: if_splits)
next
  case (2 inp sep idx c cs start depth q escaped parts)
  then show ?case by (auto split: prod.splits)
next
  case (3 inp sep idx c cs start depth escaped parts)
  have "length (trim (take (idx - start) (drop start inp))) \<le> length inp" by (rule order_trans [OF length_trim]) simp
  then show ?case using 3 by (auto simp: rbind_Inr slice_Inr split: if_splits)
qed

lemma split_top_level_length: "split_top_level inp sep = Inr out \<Longrightarrow> x \<in> set out \<Longrightarrow> length x \<le> length inp"
  using split_scan_length [of inp sep 0 inp 0 0 None False "[]" out x] by (simp add: split_top_level_def)

lemma ascii_lower_code: "(of_char (ascii_lower c) :: nat) = (let n = of_char c in if 65 \<le> n \<and> n \<le> 90 then n + 32 else n)"
  by (simp add: ascii_lower_def Let_def of_char_of)

lemma char_eq_code: "c = d \<longleftrightarrow> (of_char c :: nat) = of_char d"
  by simp

lemma lower_quote: "ascii_lower c \<in> set quotes \<longleftrightarrow> c \<in> set quotes"
  unfolding quotes_def by (simp add: char_eq_code ascii_lower_code Let_def del: of_char_eq_iff)

lemma lower_identifier: "is_identifier_char (ascii_lower c) \<longleftrightarrow> is_identifier_char c"
  unfolding is_identifier_char_def is_ascii_alphanumeric_def is_ascii_alphabetic_def is_ascii_digit_def
  by (simp add: char_eq_code ascii_lower_code Let_def del: of_char_eq_iff)

text \<open>The text under a keyword has its kind of characters.\<close>

lemma keyword_at_text:
  assumes "keyword_at inp kw p = Inr True"
  shows "set kw \<inter> set quotes = {} \<Longrightarrow> set (take (length kw) (drop p inp)) \<inter> set quotes = {}"
    and "list_all is_identifier_char kw \<Longrightarrow> p \<le> i \<Longrightarrow> i < p + length kw \<Longrightarrow> is_identifier_char (inp ! i)"
proof -
  let ?t = "take (length kw) (drop p inp)"
  have eq: "map ascii_lower ?t = map ascii_lower kw" and len: "length kw \<le> length (drop p inp)"
    using keyword_at_True(3,4) [OF assms] by (simp_all add: eq_ignore_ascii_case_def)
  have img: "ascii_lower ` set ?t = ascii_lower ` set kw" using eq by (metis list.set_map)
  show "set ?t \<inter> set quotes = {}" if kw: "set kw \<inter> set quotes = {}"
  proof (rule equals0I)
    fix c assume "c \<in> set ?t \<inter> set quotes"
    then have "ascii_lower c \<in> ascii_lower ` set kw" "ascii_lower c \<in> set quotes"
      unfolding img [symmetric] by (auto simp: lower_quote)
    then obtain k where "k \<in> set kw" "ascii_lower k \<in> set quotes" by (elim imageE) simp
    then show False using kw by (auto simp: lower_quote)
  qed
  show "is_identifier_char (inp ! i)" if "list_all is_identifier_char kw" "p \<le> i" "i < p + length kw"
  proof -
    let ?j = "i - p"
    have j: "?j < length kw" "p + ?j = i" using that by auto
    have "ascii_lower (?t ! ?j) = ascii_lower (kw ! ?j)" using eq j len by (metis length_map length_take min.absorb2 nth_map)
    moreover have "?t ! ?j = inp ! i" using j len by simp
    moreover have "is_identifier_char (kw ! ?j)" using that(1) j by (simp add: list_all_length)
    ultimately show ?thesis by (metis lower_identifier)
  qed
qed

lemma keywords_apart:
  assumes "keyword_at inp kw p = Inr True" and "list_all is_identifier_char kw" and "keyword_at inp kw' r = Inr True" and "p < r"
  shows "p + length kw \<le> r"
proof (rule ccontr)
  assume "\<not> p + length kw \<le> r"
  then have "is_identifier_char (inp ! (r - 1))" using keyword_at_text(2) [OF assms(1,2), of "r - 1"] assms(4) by simp
  then show False using keyword_at_True(5) [OF assms(3)] assms(4) by simp
qed

lemma drop_split:
  assumes "start \<le> p" and "p + n \<le> length inp"
  shows "drop start inp = take (p - start) (drop start inp) @ take n (drop p inp) @ drop (p + n) inp"
proof -
  have "drop (p - start) (drop start inp) = drop p inp" using assms(1) by simp
  then show ?thesis by (metis append_take_drop_id drop_drop add.commute)
qed

text \<open>What follows a keyword found outside of quotes is balanced when the whole is.\<close>

lemma balanced_after_keyword:
  assumes "keyword_pos inp kw start = Inr (Some p)" and "balanced (drop start inp)" and "set kw \<inter> set quotes = {}"
  shows "balanced (drop (p + length kw) inp)"
proof -
  note b = keyword_pos_bounds [OF assms(1)]
  have "balanced (take (length kw) (drop p inp))" by (rule balanced_plain) (rule keyword_at_text(1) [OF b(4) assms(3)])
  then show ?thesis
    using assms(2) keyword_pos_outside [OF assms(1)] drop_split [OF b(1,3)] by (metis balanced_append)
qed

lemma split_keyword_parts:
  assumes "kw \<noteq> []" and "set kw \<inter> set quotes = {}" and "is_char_boundary inp start" and "balanced (drop start inp)" and "is_str inp"
  shows "\<exists>parts. split_keyword_from inp kw start = Inr parts \<and> (\<forall>x\<in>set parts. balanced x \<and> is_str x)"
  using assms
proof (induction inp kw start rule: split_keyword_from.induct)
  case (1 inp kw start)
  obtain hit where hit: "keyword_pos inp kw start = Inr hit" using keyword_pos_total by blast
  show ?case
  proof (cases hit)
    case None
    have "is_str (trim (drop start inp))" using is_str_split(2) "1.prems"(5,3) by (simp add: is_str_trim)
    then show ?thesis using hit None "1.prems"(3,4)
      by (simp add: split_keyword_from.simps [of inp kw start] slice_from balanced_trim)
  next
    case (Some pos)
    note found = hit [unfolded Some]
    note b = keyword_pos_bounds [OF found]
    let ?part = "take (pos - start) (drop start inp)"
    have sl: "slice inp start pos = Inr ?part" using b(1,5) "1.prems"(3) by (simp add: slice_ok)
    obtain parts where "split_keyword_from inp kw (pos + length kw) = Inr parts" "\<forall>x\<in>set parts. balanced x \<and> is_str x"
      using "1.IH" [OF hit Some "1.prems"(1) sl "1.prems"(1,2) b(6) balanced_after_keyword [OF found "1.prems"(4,2)] "1.prems"(5)] by blast
    then show ?thesis
      using found sl "1.prems"(1) balanced_trim [OF keyword_pos_outside [OF found]] slice_str [OF "1.prems"(5) sl]
      by (simp add: split_keyword_from.simps [of inp kw start] is_str_trim)
  qed
qed

lemma split_top_level_keyword_parts:
  assumes "kw \<noteq> []" and "set kw \<inter> set quotes = {}" and "balanced inp" and "is_str inp"
  obtains parts where "split_top_level_keyword inp kw = Inr parts" and "\<forall>x\<in>set parts. balanced x \<and> is_str x"
  using split_keyword_parts [OF assms(1,2), of inp 0] assms(3,4) by (auto simp: split_top_level_keyword_def)

text \<open>A position next to an ASCII delimiter found by a scan is a boundary.\<close>

lemma top_level_char_boundary:
  assumes "top_level_char inp needle = Some p" and "is_str inp" and "is_ascii needle"
  shows "is_char_boundary inp p" and "is_char_boundary inp (p + 1)"
  using ascii_boundary [OF assms(2) top_level_char_outside(1) [OF assms(1)]] top_level_char_outside(2) [OF assms(1)] assms(3)
  by simp_all

lemma matching_delimiter_boundary:
  assumes "matching_delimiter inp open_at l r = Inr p" and "l \<noteq> r" and "is_str inp" and "is_ascii l" and "is_ascii r"
  shows "is_char_boundary inp p" and "is_char_boundary inp (p + 1)" and "is_char_boundary inp (open_at + 1)"
proof -
  note m = matching_delimiter_outside [OF assms(1,2)]
  show "is_char_boundary inp p" "is_char_boundary inp (p + 1)"
    using ascii_boundary [OF assms(3) m(2)] m(3) assms(5) by simp_all
  have "open_at < length inp" using m(1,2) by simp
  then show "is_char_boundary inp (open_at + 1)" using ascii_boundary(2) [OF assms(3)] m(5) assms(4) by simp
qed

end
