(* ===== verification/Graph_Target.thy ===== *)
theory Graph_Target
  imports BTree_Map Complex_Main "HOL-Library.List_Lexorder" "HOL-Library.Char_ord"
begin

text \<open>
  The targets of the build graph the commands share: \<open>crates/once-frontend/src/graph.rs\<close>.
  Attributes are taken as the JSON their derived serialization gives. Tools and diagnostics, which
  no modelled command reads, are left out.
\<close>

text \<open>\<open>serde_json::Value\<close>. A finite float is its value; the integers the parser builds are
  \<open>i64\<close>. Objects are maps in key order.\<close>

datatype json = JNull | JBool bool | JInt int | JFloat rat | JStr string | JArr "json list" | JObj "(string \<times> json) list"

record capability =
  cap_name :: string
  cap_output_groups :: "string list"
  cap_requires_outputs :: "string list"

record graph_target =
  gt_id :: string
  gt_package :: string
  gt_name :: string
  gt_kind :: string
  gt_deps :: "string list"
  gt_dependency_edges :: "(string, string list) bmap"
  gt_srcs :: "string list"
  gt_visibility :: "string list"
  gt_attrs :: "(string, json) bmap"
  gt_capabilities :: "capability list"
  gt_providers :: "string list"

definition dependency_ids :: "graph_target \<Rightarrow> string list" where
  "dependency_ids t = gt_deps t @ concat (map snd (gt_dependency_edges t))"

definition has_capability :: "graph_target \<Rightarrow> string \<Rightarrow> bool" where
  "has_capability t name = list_ex (\<lambda>c. cap_name c = name) (gt_capabilities t)"

end
