(* ===== verification/Query_Parser.thy ===== *)
theory Query_Parser
  imports Query_Scan Graph_Target
begin

text \<open>
  The parser of the read-only query language: \<open>ast.rs\<close> and \<open>parser.rs\<close> under
  \<open>crates/once-cli/src/commands/query/expression\<close>. Two pieces of code outside the repository are
  arguments: the grammar that turns source text into a syntax tree (or rejects it), and the decimal
  to floating point conversion, which yields a rational or, for a value that is not finite, nothing.
\<close>

section \<open>Syntax\<close>

datatype direction = LeftToRight | RightToLeft

record node_pattern =
  np_alias :: "string option"
  np_label :: "string option"
  np_properties :: "(string, json) bmap"

record relationship_pattern =
  rel_ty :: string
  rel_direction :: direction
  rel_transitive :: bool

datatype match_pattern =
    NodeMatch node_pattern
  | RelationshipMatch node_pattern relationship_pattern node_pattern

datatype predicate_operator = OpEqual | OpNotEqual | OpContains | OpIn | OpStartsWith | OpEndsWith

record predicate =
  pr_alias :: string
  pr_property :: string
  pr_operator :: predicate_operator
  pr_value :: json

datatype projection = ProjNode string | ProjProperty string string

record return_item =
  ri_column :: string
  ri_projection :: projection

record parsed_query =
  pq_pattern :: match_pattern
  pq_predicate_groups :: "predicate list list"
  pq_returns :: "return_item list"

section \<open>Helpers\<close>

text \<open>\<open>collect\<close> into a \<open>Result\<close>: the first error wins.\<close>

fun mapr :: "('a \<Rightarrow> 'e + 'b) \<Rightarrow> 'a list \<Rightarrow> 'e + 'b list" where
  "mapr f [] = Inr []"
| "mapr f (x # xs) = rbind (f x) (\<lambda>y. rbind (mapr f xs) (\<lambda>ys. Inr (y # ys)))"

lemma mapr_cong [fundef_cong]:
  "xs = ys \<Longrightarrow> (\<And>x. x \<in> set ys \<Longrightarrow> f x = g x) \<Longrightarrow> mapr f xs = mapr g ys"
  by (induction ys arbitrary: xs) auto

definition find_char :: "char \<Rightarrow> string \<Rightarrow> nat option" where
  "find_char c s = (if c \<in> set s then Some (length (takeWhile (\<lambda>x. x \<noteq> c) s)) else None)"

definition opt_err :: "'e \<Rightarrow> 'a option \<Rightarrow> 'e + 'a" where
  "opt_err e x = (case x of None \<Rightarrow> Inl e | Some a \<Rightarrow> Inr a)"

definition parse_identifier :: "string \<Rightarrow> query_error + string" where
  "parse_identifier raw =
     (case raw of
        [] \<Rightarrow> Inl BadSyntax
      | first # cs \<Rightarrow>
          if \<not> (first = CHR ''_'' \<or> is_ascii_alphabetic first) then Inl BadSyntax
          else if \<not> list_all is_identifier_char cs then Inl BadSyntax
          else Inr raw)"

definition optional_identifier :: "string \<Rightarrow> query_error + string option" where
  "optional_identifier raw = (if raw = [] then Inr None else rbind (parse_identifier raw) (\<lambda>i. Inr (Some i)))"

definition supported_labels :: "string list" where
  "supported_labels = [''Target'', ''Capability'', ''Provider'']"

definition supported_relationships :: "string list" where
  "supported_relationships = [''DEPENDS_ON'', ''EXPOSES'', ''EMITS'']"

definition canonical_label :: "string \<Rightarrow> query_error + string" where
  "canonical_label raw = opt_err Unsupported (find (\<lambda>l. eq_ignore_ascii_case l raw) supported_labels)"

definition canonical_relationship :: "string \<Rightarrow> query_error + string" where
  "canonical_relationship raw = opt_err Unsupported (find (\<lambda>l. eq_ignore_ascii_case l raw) supported_relationships)"

definition property_path :: "string \<Rightarrow> query_error + string" where
  "property_path raw = rbind (mapr (\<lambda>p. parse_identifier (trim p)) (split_on (CHR ''.'') raw)) (\<lambda>parts. Inr (join_with ''.'' parts))"

section \<open>Literals\<close>

definition unescape_char :: "char \<Rightarrow> query_error + char" where
  "unescape_char c =
     (if c = CHR ''n'' then Inr (CHR 0x0A) else if c = CHR ''r'' then Inr (CHR 0x0D)
      else if c = CHR ''t'' then Inr (CHR 0x09) else if c = backslash \<or> c \<in> set quotes then Inr c
      else Inl Unsupported)"

fun unescape :: "string \<Rightarrow> bool \<Rightarrow> string \<Rightarrow> query_error + string" where
  "unescape [] escaped output = (if escaped then Inl UnterminatedString else Inr output)"
| "unescape (c # cs) escaped output =
     (if escaped then rbind (unescape_char c) (\<lambda>v. unescape cs False (output @ [v]))
      else if c = backslash then unescape cs True output
      else unescape cs False (output @ [c]))"

definition parse_string_literal :: "string \<Rightarrow> query_error + string" where
  "parse_string_literal raw =
     (case raw of
        [] \<Rightarrow> Inl BadSyntax
      | quote # _ \<Rightarrow>
          if quote \<notin> set quotes \<or> \<not> ends_with [quote] raw then Inl UnterminatedString
          else rbind (slice raw 1 (length raw - 1)) (\<lambda>inner. unescape inner False []))"

fun digits_value :: "nat \<Rightarrow> string \<Rightarrow> nat" where
  "digits_value acc [] = acc"
| "digits_value acc (c # cs) = digits_value (10 * acc + (of_char c - 48)) cs"

text \<open>\<open>i64::from_str\<close>.\<close>

definition parse_i64 :: "string \<Rightarrow> int option" where
  "parse_i64 raw =
     (let neg = starts_with ''-'' raw;
          ds = (if neg \<or> starts_with ''+'' raw then tl raw else raw)
      in if ds = [] \<or> \<not> list_all is_ascii_digit ds then None
         else let v = int (digits_value 0 ds); i = (if neg then - v else v)
              in if - (2 ^ 63) \<le> i \<and> i < 2 ^ 63 then Some i else None)"

function parse_literal :: "(string \<Rightarrow> rat option option) \<Rightarrow> string \<Rightarrow> query_error + json" where
  "parse_literal fp raw =
     (if starts_with ''['' raw \<and> ends_with '']'' raw
      then rbind (slice raw 1 (length raw - 1)) (\<lambda>inner.
             if trim inner = [] then Inr (JArr [])
             else rbind (split_top_level inner (CHR '','')) (\<lambda>parts.
                    rbind (mapr (parse_literal fp) parts) (\<lambda>vs. Inr (JArr vs))))
      else if starts_with [CHR 0x22] raw \<or> starts_with [CHR 0x27] raw
      then rbind (parse_string_literal raw) (\<lambda>s. Inr (JStr s))
      else if raw = ''true'' \<or> raw = ''TRUE'' then Inr (JBool True)
      else if raw = ''false'' \<or> raw = ''FALSE'' then Inr (JBool False)
      else if raw = ''null'' \<or> raw = ''NULL'' then Inr JNull
      else case parse_i64 raw of
        Some i \<Rightarrow> Inr (JInt i)
      | None \<Rightarrow>
          (case fp raw of
             Some (Some x) \<Rightarrow> Inr (JFloat x)
           | Some None \<Rightarrow> Inr JNull
           | None \<Rightarrow> Inl Unsupported))"
  by pat_completeness auto
termination
proof (relation "measure (\<lambda>(fp, raw). length raw)")
  fix fp :: "string \<Rightarrow> rat option option" and raw inner parts x
  assume "starts_with ''['' raw \<and> ends_with '']'' raw" and "slice raw 1 (length raw - 1) = Inr inner"
    and "split_top_level inner CHR '','' = Inr parts" and "x \<in> set parts"
  moreover from this have "length x \<le> length inner" using split_top_level_length by blast
  ultimately show "((fp, x), fp, raw) \<in> measure (\<lambda>(fp, raw). length raw)"
    by (cases raw) (auto simp: slice_Inr starts_with_def)
qed simp

declare parse_literal.simps [simp del]

section \<open>Patterns\<close>

fun parse_property_entries ::
  "(string \<Rightarrow> rat option option) \<Rightarrow> string list \<Rightarrow> (string, json) bmap \<Rightarrow> query_error + (string, json) bmap" where
  "parse_property_entries fp [] properties = Inr properties"
| "parse_property_entries fp (entry # entries) properties =
     rbind (opt_err BadSyntax (top_level_char entry (CHR '':''))) (\<lambda>colon.
     rbind (slice entry 0 colon) (\<lambda>k.
     rbind (parse_identifier (trim k)) (\<lambda>key.
     rbind (slice entry (colon + 1) (length entry)) (\<lambda>v.
     rbind (parse_literal fp (trim v)) (\<lambda>value.
       parse_property_entries fp entries (bm_insert key value properties))))))"

definition parse_property_map :: "(string \<Rightarrow> rat option option) \<Rightarrow> string \<Rightarrow> query_error + (string, json) bmap" where
  "parse_property_map fp raw =
     (if trim raw = [] then Inr []
      else rbind (split_top_level raw (CHR '','')) (\<lambda>entries. parse_property_entries fp entries []))"

definition split_node :: "(string \<Rightarrow> rat option option) \<Rightarrow> string \<Rightarrow> query_error + (string \<times> (string, json) bmap)" where
  "split_node fp raw =
     (case top_level_char raw (CHR ''{'') of
        Some open_at \<Rightarrow>
          rbind (matching_delimiter raw open_at (CHR ''{'') (CHR ''}'')) (\<lambda>close.
          rbind (slice raw (close + 1) (length raw)) (\<lambda>after.
            if trim after \<noteq> [] then Inl BadSyntax
            else rbind (slice raw 0 open_at) (\<lambda>head.
                 rbind (slice raw (open_at + 1) close) (\<lambda>body.
                 rbind (parse_property_map fp body) (\<lambda>properties. Inr (head, properties))))))
      | None \<Rightarrow> Inr (raw, []))"

definition parse_node :: "(string \<Rightarrow> rat option option) \<Rightarrow> string \<Rightarrow> query_error + node_pattern" where
  "parse_node fp raw =
     rbind (split_node fp raw) (\<lambda>(head0, properties).
       let head = trim head0 in
       case find_char (CHR '':'') head of
         Some colon \<Rightarrow>
           rbind (slice head 0 colon) (\<lambda>a.
           rbind (optional_identifier (trim a)) (\<lambda>alias.
           rbind (slice head (colon + 1) (length head)) (\<lambda>l.
           rbind (canonical_label (trim l)) (\<lambda>label.
             Inr \<lparr>np_alias = alias, np_label = Some label, np_properties = properties\<rparr>))))
       | None \<Rightarrow>
           rbind (optional_identifier head) (\<lambda>alias.
             Inr \<lparr>np_alias = alias, np_label = None, np_properties = properties\<rparr>))"

definition parse_node_at :: "(string \<Rightarrow> rat option option) \<Rightarrow> string \<Rightarrow> query_error + (node_pattern \<times> string)" where
  "parse_node_at fp raw0 =
     (let raw = trim_start raw0 in
      if \<not> starts_with ''('' raw then Inl BadSyntax
      else rbind (matching_delimiter raw 0 (CHR ''('') (CHR '')'')) (\<lambda>close.
           rbind (slice raw 1 close) (\<lambda>body.
           rbind (parse_node fp (trim body)) (\<lambda>node.
           rbind (slice raw (close + 1) (length raw)) (\<lambda>rest. Inr (node, rest))))))"

definition parse_relationship_body :: "string \<Rightarrow> direction \<Rightarrow> query_error + relationship_pattern" where
  "parse_relationship_body raw0 dir =
     (let raw = trim raw0 in
      rbind (opt_err BadSyntax (find_char (CHR '':'') raw)) (\<lambda>colon.
      rbind (slice raw (colon + 1) (length raw)) (\<lambda>after0.
        let after = trim_start after0;
            name_len = length (takeWhile is_identifier_char after)
        in if name_len = 0 then Inl BadSyntax
           else rbind (slice after 0 name_len) (\<lambda>name.
                rbind (canonical_relationship name) (\<lambda>ty.
                rbind (slice after name_len (length after)) (\<lambda>tail.
                  Inr \<lparr>rel_ty = ty, rel_direction = dir, rel_transitive = (CHR ''*'' \<in> set tail)\<rparr>))))))"

definition parse_relationship_at :: "string \<Rightarrow> query_error + (relationship_pattern \<times> string)" where
  "parse_relationship_at raw =
     (if starts_with ''-['' raw
      then rbind (matching_delimiter raw 1 (CHR ''['') (CHR '']'')) (\<lambda>close.
           rbind (slice raw 2 close) (\<lambda>body.
           rbind (slice raw (close + 1) (length raw)) (\<lambda>rest0.
           rbind (opt_err BadSyntax (strip_prefix ''->'' (trim_start rest0))) (\<lambda>rest.
           rbind (parse_relationship_body body LeftToRight) (\<lambda>r. Inr (r, rest))))))
      else if starts_with ''<-['' raw
      then rbind (matching_delimiter raw 2 (CHR ''['') (CHR '']'')) (\<lambda>close.
           rbind (slice raw 3 close) (\<lambda>body.
           rbind (slice raw (close + 1) (length raw)) (\<lambda>rest0.
           rbind (opt_err BadSyntax (strip_prefix ''-'' (trim_start rest0))) (\<lambda>rest.
           rbind (parse_relationship_body body RightToLeft) (\<lambda>r. Inr (r, rest))))))
      else Inl BadSyntax)"

definition reject_duplicate_relationship_aliases :: "node_pattern \<Rightarrow> node_pattern \<Rightarrow> query_error + unit" where
  "reject_duplicate_relationship_aliases l r =
     (case (np_alias l, np_alias r) of (Some a, Some b) \<Rightarrow> if a = b then Inl Unsupported else Inr () | _ \<Rightarrow> Inr ())"

definition parse_match_pattern :: "(string \<Rightarrow> rat option option) \<Rightarrow> string \<Rightarrow> query_error + match_pattern" where
  "parse_match_pattern fp raw =
     rbind (split_top_level raw (CHR '','')) (\<lambda>parts.
       if length parts \<noteq> 1 then Inl Unsupported
       else rbind (parse_node_at fp (trim (hd parts))) (\<lambda>(l, rest0).
              let rest = trim rest0 in
              if rest = [] then Inr (NodeMatch l)
              else rbind (parse_relationship_at rest) (\<lambda>(rel, rest1).
                   rbind (parse_node_at fp rest1) (\<lambda>(r, rest2).
                   rbind (reject_duplicate_relationship_aliases l r) (\<lambda>_.
                     if trim rest2 \<noteq> [] then Inl Unsupported
                     else Inr (RelationshipMatch l rel r))))))"

section \<open>Predicates and projections\<close>

function top_level_operator_from :: "string \<Rightarrow> string \<Rightarrow> nat \<Rightarrow> query_error + nat option" where
  "top_level_operator_from inp op start =
     (case op of
        [] \<Rightarrow> Inr None
      | first # _ \<Rightarrow>
          rbind (slice inp start (length inp)) (\<lambda>from.
            case top_level_char from first of
              None \<Rightarrow> Inr None
            | Some relative \<Rightarrow>
                rbind (slice inp (start + relative) (length inp)) (\<lambda>tail.
                  if starts_with op tail then Inr (Some (start + relative))
                  else top_level_operator_from inp op (start + relative + 1))))"
  by pat_completeness auto
termination
proof (relation "measure (\<lambda>(inp, op, start). length inp - start)")
  fix inp start rest relative and op :: string and c
  assume "slice inp start (length inp) = Inr rest" and "top_level_char rest c = Some relative"
  then have "start + relative < length inp" using top_level_char_outside(1) by (fastforce simp: slice_Inr)
  then show "((inp, op, start + relative + 1), inp, op, start) \<in> measure (\<lambda>(inp, op, start). length inp - start)" by auto
qed simp

declare top_level_operator_from.simps [simp del]

definition top_level_operator :: "string \<Rightarrow> string \<Rightarrow> query_error + nat option" where
  "top_level_operator inp op = top_level_operator_from inp op 0"

definition parse_property_ref :: "string \<Rightarrow> query_error + (string \<times> string)" where
  "parse_property_ref raw =
     rbind (opt_err BadSyntax (split_once (CHR ''.'') raw)) (\<lambda>(alias0, property0).
     rbind (parse_identifier (trim alias0)) (\<lambda>alias.
     rbind (property_path (trim property0)) (\<lambda>property. Inr (alias, property))))"

definition predicate_from_parts ::
  "(string \<Rightarrow> rat option option) \<Rightarrow> string \<Rightarrow> string \<Rightarrow> predicate_operator \<Rightarrow> query_error + predicate" where
  "predicate_from_parts fp property value operator =
     rbind (parse_property_ref (trim property)) (\<lambda>(alias, prop).
     rbind (parse_literal fp (trim value)) (\<lambda>v.
       Inr \<lparr>pr_alias = alias, pr_property = prop, pr_operator = operator, pr_value = v\<rparr>))"

definition predicate_at ::
  "(string \<Rightarrow> rat option option) \<Rightarrow> string \<Rightarrow> nat \<Rightarrow> nat \<Rightarrow> predicate_operator \<Rightarrow> query_error + predicate" where
  "predicate_at fp raw position len operator =
     rbind (slice raw 0 position) (\<lambda>property.
     rbind (slice raw (position + len) (length raw)) (\<lambda>value. predicate_from_parts fp property value operator))"

definition keyword_operators :: "(string \<times> predicate_operator) list" where
  "keyword_operators = [(''STARTS WITH'', OpStartsWith), (''ENDS WITH'', OpEndsWith), (''CONTAINS'', OpContains), (''IN'', OpIn)]"

fun parse_predicate_with ::
  "(string \<Rightarrow> rat option option) \<Rightarrow> string \<Rightarrow> (string \<times> predicate_operator) list \<Rightarrow> query_error + predicate" where
  "parse_predicate_with fp raw [] =
     rbind (top_level_operator raw ''<>'') (\<lambda>ne.
       case ne of
         Some position \<Rightarrow> predicate_at fp raw position 2 OpNotEqual
       | None \<Rightarrow>
           (case top_level_char raw (CHR ''='') of
              Some position \<Rightarrow> predicate_at fp raw position 1 OpEqual
            | None \<Rightarrow> Inl BadSyntax))"
| "parse_predicate_with fp raw ((keyword, operator) # ops) =
     rbind (keyword_pos raw keyword 0) (\<lambda>hit.
       case hit of
         Some position \<Rightarrow> predicate_at fp raw position (length keyword) operator
       | None \<Rightarrow> parse_predicate_with fp raw ops)"

definition parse_predicate :: "(string \<Rightarrow> rat option option) \<Rightarrow> string \<Rightarrow> query_error + predicate" where
  "parse_predicate fp raw = parse_predicate_with fp raw keyword_operators"

definition parse_predicates :: "(string \<Rightarrow> rat option option) \<Rightarrow> string \<Rightarrow> query_error + predicate list list" where
  "parse_predicates fp raw =
     (if raw = [] then Inr []
      else rbind (split_top_level_keyword raw ''OR'') (\<lambda>groups.
             mapr (\<lambda>group. rbind (split_top_level_keyword group ''AND'') (mapr (parse_predicate fp))) groups))"

definition parse_projection :: "string \<Rightarrow> query_error + projection" where
  "parse_projection raw =
     (case split_once (CHR ''.'') raw of
        Some (alias0, property0) \<Rightarrow>
          rbind (parse_identifier (trim alias0)) (\<lambda>alias.
          rbind (property_path (trim property0)) (\<lambda>property. Inr (ProjProperty alias property)))
      | None \<Rightarrow> rbind (parse_identifier (trim raw)) (\<lambda>alias. Inr (ProjNode alias)))"

definition parse_return :: "string \<Rightarrow> query_error + return_item" where
  "parse_return item0 =
     (let item = trim item0 in
      rbind (keyword_pos item ''AS'' 0) (\<lambda>hit.
        case hit of
          Some as_pos \<Rightarrow>
            rbind (slice item 0 as_pos) (\<lambda>p.
            rbind (parse_projection (trim p)) (\<lambda>projection.
            rbind (slice item (as_pos + 2) (length item)) (\<lambda>c.
            rbind (parse_identifier (trim c)) (\<lambda>column. Inr \<lparr>ri_column = column, ri_projection = projection\<rparr>))))
        | None \<Rightarrow> rbind (parse_projection item) (\<lambda>projection. Inr \<lparr>ri_column = item, ri_projection = projection\<rparr>)))"

definition parse_returns :: "string \<Rightarrow> query_error + return_item list" where
  "parse_returns raw = (if raw = [] then Inl BadSyntax else rbind (split_top_level raw (CHR '','')) (mapr parse_return))"

definition required_keyword :: "string \<Rightarrow> string \<Rightarrow> nat \<Rightarrow> query_error + nat" where
  "required_keyword inp kw start = rbind (keyword_pos inp kw start) (opt_err BadSyntax)"

definition parse_query :: "(string \<Rightarrow> rat option option) \<Rightarrow> string \<Rightarrow> query_error + parsed_query" where
  "parse_query fp raw =
     (let query = strip_trailing_semicolon (trim raw) in
      rbind (required_keyword query ''MATCH'' 0) (\<lambda>match_pos.
      rbind (slice query 0 match_pos) (\<lambda>before.
        if trim before \<noteq> [] then Inl BadSyntax
        else rbind (required_keyword query ''RETURN'' (match_pos + 5)) (\<lambda>return_pos.
             rbind (keyword_pos query ''WHERE'' (match_pos + 5)) (\<lambda>where_hit.
          let where_pos = (case where_hit of
                             Some pos \<Rightarrow> if pos < return_pos then Some pos else None | None \<Rightarrow> None);
              pattern_start = match_pos + 5;
              pattern_end = (case where_pos of Some pos \<Rightarrow> pos | None \<Rightarrow> return_pos)
          in rbind (slice query pattern_start pattern_end) (\<lambda>p.
             rbind (parse_match_pattern fp (trim p)) (\<lambda>pattern.
             rbind (case where_pos of
                      Some pos \<Rightarrow> rbind (slice query (pos + 5) return_pos) (\<lambda>w. parse_predicates fp (trim w))
                    | None \<Rightarrow> Inr []) (\<lambda>groups.
             rbind (slice query (return_pos + 6) (length query)) (\<lambda>r.
             rbind (parse_returns (trim r)) (\<lambda>returns.
               Inr \<lparr>pq_pattern = pattern, pq_predicate_groups = groups, pq_returns = returns\<rparr>))))))))))"

section \<open>Read-only statements\<close>

text \<open>A syntax tree of the grammar: the kind of a node and its children.\<close>

datatype cst = Cst (cst_kind: string) (cst_children: "cst list")

definition unsupported_statement_prefixes :: "string list" where
  "unsupported_statement_prefixes = [''DROP'']"

definition unsupported_clause_nodes :: "string list" where
  "unsupported_clause_nodes = [''call_clause'', ''create_clause'', ''delete_clause'', ''merge_clause'',
     ''remove_clause'', ''set_clause'', ''unwind_clause'', ''with_clause'']"

fun reject_prefixes :: "string \<Rightarrow> string list \<Rightarrow> query_error + unit" where
  "reject_prefixes query [] = Inr ()"
| "reject_prefixes query (clause # clauses) =
     rbind (starts_with_keyword query clause) (\<lambda>found. if found then Inl NotReadOnly else reject_prefixes query clauses)"

definition reject_unsupported_statement_prefixes :: "string \<Rightarrow> query_error + unit" where
  "reject_unsupported_statement_prefixes raw =
     reject_prefixes (strip_trailing_semicolon (trim_start raw)) unsupported_statement_prefixes"

definition match_clause_is_optional :: "cst \<Rightarrow> bool" where
  "match_clause_is_optional node \<longleftrightarrow> list_ex (\<lambda>c. cst_kind c = ''optional'') (cst_children node)"

text \<open>The stack of the traversal, top first: the children are pushed in reverse, so that the first
  child is visited first.\<close>

function reject_nodes :: "cst list \<Rightarrow> query_error + unit" where
  "reject_nodes [] = Inr ()"
| "reject_nodes (node # nodes) =
     (if cst_kind node \<in> set unsupported_clause_nodes then Inl NotReadOnly
      else if cst_kind node = ''match_clause'' \<and> match_clause_is_optional node then Inl NotReadOnly
      else reject_nodes (cst_children node @ nodes))"
  by pat_completeness auto
termination
proof (relation "measure (\<lambda>ns. (\<Sum>n\<leftarrow>ns. size n))")
  fix node nodes
  have "(\<Sum>n\<leftarrow>cst_children node. size n) < size node" by (cases node) (auto simp: size_list_conv_sum_list intro: le_imp_less_Suc sum_list_mono)
  then show "(cst_children node @ nodes, node # nodes) \<in> measure (\<lambda>ns. \<Sum>n\<leftarrow>ns. size n)" by simp
qed simp

definition reject_unsupported_clauses :: "cst \<Rightarrow> query_error + unit" where
  "reject_unsupported_clauses tree = reject_nodes [tree]"

section \<open>No panics\<close>

definition safe :: "query_error + 'a \<Rightarrow> bool" where
  "safe r \<longleftrightarrow> r \<noteq> Inl Panic"

lemma safe_Inr [simp]: "safe (Inr a)" and safe_Inl [simp]: "safe (Inl e) \<longleftrightarrow> e \<noteq> Panic"
  by (simp_all add: safe_def)

lemma safe_rbind: "safe r \<Longrightarrow> (\<And>a. r = Inr a \<Longrightarrow> safe (f a)) \<Longrightarrow> safe (rbind r f)"
  by (cases r) auto

lemma safe_if: "(b \<Longrightarrow> safe x) \<Longrightarrow> (\<not> b \<Longrightarrow> safe y) \<Longrightarrow> safe (if b then x else y)"
  by simp

lemma safe_case_option:
  "(x = None \<Longrightarrow> safe a) \<Longrightarrow> (\<And>v. x = Some v \<Longrightarrow> safe (f v)) \<Longrightarrow> safe (case x of None \<Rightarrow> a | Some v \<Rightarrow> f v)"
  by (cases x) simp_all

lemma safe_case_prod: "(\<And>x y. p = (x, y) \<Longrightarrow> safe (f x y)) \<Longrightarrow> safe (case p of (x, y) \<Rightarrow> f x y)"
  by (cases p) simp

lemma safe_mapr: "(\<And>x. x \<in> set xs \<Longrightarrow> safe (f x)) \<Longrightarrow> safe (mapr f xs)"
proof (induction xs)
  case (Cons x xs)
  then show ?case unfolding mapr.simps by (intro safe_rbind) auto
qed simp

lemma safe_opt_err: "e \<noteq> Panic \<Longrightarrow> safe (opt_err e x)"
  by (simp add: opt_err_def split: option.split)

lemma opt_err_Inr: "opt_err e x = Inr a \<longleftrightarrow> x = Some a"
  by (simp add: opt_err_def split: option.split)

lemma safe_slice: "a \<le> b \<Longrightarrow> is_char_boundary s a \<Longrightarrow> is_char_boundary s b \<Longrightarrow> safe (slice s a b)"
  by (simp add: slice_ok)

lemma safe_keyword_pos: "safe (keyword_pos inp kw start)"
  using keyword_pos_total [of inp kw start] by (auto simp: safe_def)

lemma safe_required_keyword: "safe (required_keyword inp kw start)"
  unfolding required_keyword_def by (intro safe_rbind safe_keyword_pos safe_opt_err) simp

lemma required_keyword_Inr: "required_keyword inp kw start = Inr p \<longleftrightarrow> keyword_pos inp kw start = Inr (Some p)"
  by (auto simp: required_keyword_def rbind_Inr opt_err_Inr)

text \<open>The delimiters of the language are ASCII.\<close>

lemma ascii_delimiters [simp]:
  "is_ascii CHR ''('' " "is_ascii CHR '')'' " "is_ascii CHR ''['' " "is_ascii CHR '']'' " "is_ascii CHR ''{'' " "is_ascii CHR ''}'' "
  "is_ascii CHR '','' " "is_ascii CHR '':'' " "is_ascii CHR ''='' " "is_ascii CHR ''<'' " "is_ascii CHR ''>'' " "is_ascii CHR ''-'' "
  "is_ascii CHR '';'' "
  by (simp_all add: is_ascii_def)

lemma safe_identifier: "safe (parse_identifier raw)"
  by (simp add: parse_identifier_def split: list.split)

lemma safe_optional_identifier: "safe (optional_identifier raw)"
  unfolding optional_identifier_def by (auto intro!: safe_rbind safe_identifier)

lemma safe_canonical: "safe (canonical_label raw)" "safe (canonical_relationship raw)"
  by (simp_all add: canonical_label_def canonical_relationship_def safe_opt_err)

lemma safe_property_path: "safe (property_path raw)"
  unfolding property_path_def by (intro safe_rbind safe_mapr safe_identifier) simp

lemma find_char_boundary:
  assumes "find_char c s = Some i" and "is_str s" and "is_ascii c"
  shows "is_char_boundary s i" and "is_char_boundary s (i + 1)"
proof -
  have c: "c \<in> set s" and i: "i = length (takeWhile (\<lambda>x. x \<noteq> c) s)" using assms(1) by (auto simp: find_char_def split: if_splits)
  obtain xs ys where "s = xs @ c # ys" "c \<notin> set xs" using split_list_first [OF c] by blast
  then have "i < length s \<and> s ! i = c" using i by (simp add: takeWhile_append)
  then show "is_char_boundary s i" "is_char_boundary s (i + 1)" using ascii_boundary [OF assms(2)] assms(3) by auto
qed

lemma safe_unescape: "safe (unescape cs escaped out)"
proof (induction cs escaped out rule: unescape.induct)
  case (2 c cs escaped out)
  have "safe (unescape_char c)" by (simp add: unescape_char_def)
  then show ?case using "2.IH" by (auto intro!: safe_rbind)
qed simp

lemma safe_split: "is_str inp \<Longrightarrow> is_ascii sep \<Longrightarrow> safe (split_top_level inp sep)"
  using split_top_level_parts(1) by (simp add: safe_def)

lemma safe_matching: "is_char_boundary inp open_at \<Longrightarrow> safe (matching_delimiter inp open_at l r)"
  using matching_delimiter_no_panic by (simp add: safe_def)

text \<open>A text between two ASCII characters.\<close>

lemma between_ascii:
  assumes "is_str s" and "2 \<le> length s" and "is_ascii (hd s)" and "is_ascii (last s)"
  shows "is_char_boundary s 1" and "is_char_boundary s (length s - 1)"
proof -
  have ends: "s \<noteq> []" "s ! 0 = hd s" "s ! (length s - 1) = last s" using assms(2) by (cases s; simp add: last_conv_nth)+
  show "is_char_boundary s 1" using ascii_boundary(2) [OF assms(1), of 0] assms(3) ends(1,2) by simp
  show "is_char_boundary s (length s - 1)" using ascii_boundary(1) [OF assms(1), of "length s - 1"] assms(4) ends(1,3) by simp
qed

lemma safe_string_literal:
  assumes "balanced raw" and "is_str raw"
  shows "safe (parse_string_literal raw)"
proof (cases raw)
  case (Cons q cs)
  have "safe (slice raw 1 (length raw - 1))" if q: "q \<in> set quotes" "ends_with [q] raw"
  proof -
    have "cs \<noteq> []" using lone_quote_not_balanced [OF q(1)] assms Cons by auto
    then have len: "2 \<le> length raw" using Cons by (cases cs) auto
    have "last raw = q" using q(2) by (auto simp: ends_with_iff)
    then show ?thesis using between_ascii [OF assms(2) len] quote_ascii [OF q(1)] Cons len by (intro safe_slice) auto
  qed
  then show ?thesis
    unfolding parse_string_literal_def using Cons by (auto intro!: safe_rbind safe_unescape)
qed (simp add: parse_string_literal_def)

lemma balanced_list_body:
  assumes "balanced raw" and "starts_with [l] raw" and "ends_with [r] raw" and "slice raw 1 (length raw - 1) = Inr inner"
    and "l \<notin> set quotes" and "r \<notin> set quotes" and "l \<noteq> r"
  shows "balanced inner"
proof -
  obtain xs where xs: "raw = l # xs" using assms(2) by (auto simp: starts_with_iff)
  obtain ys where ys: "raw = ys @ [r]" using assms(3) by (auto simp: ends_with_iff)
  have "ys \<noteq> []" using xs ys assms(7) by auto
  then obtain zs where zs: "raw = l # zs @ [r]" using xs ys by (cases ys) auto
  then have "inner = zs" using assms(4) by (auto simp: slice_Inr)
  moreover have "balanced zs"
    using assms(1) balanced_snoc_plain [of "l # zs" r] assms(5,6) by (auto simp: zs balanced_cons_plain)
  ultimately show ?thesis by simp
qed

lemma not_quotes [simp]:
  "CHR ''['' \<notin> set quotes" "CHR '']'' \<notin> set quotes" "CHR '':'' \<notin> set quotes" "CHR ''='' \<notin> set quotes"
  "CHR ''<'' \<notin> set quotes" "CHR ''>'' \<notin> set quotes"
  by (simp_all add: quotes_def)

lemma safe_literal: "balanced raw \<Longrightarrow> is_str raw \<Longrightarrow> safe (parse_literal fp raw)"
proof (induction fp raw rule: parse_literal.induct)
  case (1 fp raw)
  show ?case
  proof (cases "starts_with ''['' raw \<and> ends_with '']'' raw")
    case True
    obtain cs where raw: "raw = CHR ''['' # cs" using True by (auto simp: starts_with_iff)
    have end_raw: "last raw = CHR '']''" using True by (auto simp: ends_with_iff)
    then have len: "2 \<le> length raw" using raw by (cases cs) auto
    have "safe (rbind (slice raw 1 (length raw - 1)) (\<lambda>inner.
             if trim inner = [] then Inr (JArr [])
             else rbind (split_top_level inner (CHR '','')) (\<lambda>parts.
                    rbind (mapr (parse_literal fp) parts) (\<lambda>vs. Inr (JArr vs)))))"
    proof (rule safe_rbind)
      have "is_ascii (hd raw)" "is_ascii (last raw)" using raw end_raw by simp_all
      then show "safe (slice raw 1 (length raw - 1))" using len between_ascii [OF "1.prems"(2) len] by (intro safe_slice) auto
      fix inner assume inner: "slice raw 1 (length raw - 1) = Inr inner"
      have "safe (rbind (split_top_level inner CHR '','') (\<lambda>parts. rbind (mapr (parse_literal fp) parts) (\<lambda>vs. Inr (JArr vs))))"
        if ne: "trim inner \<noteq> []"
      proof (intro safe_rbind safe_split [OF slice_str [OF "1.prems"(2) inner]] safe_mapr)
        fix parts x assume parts: "split_top_level inner CHR '','' = Inr parts" and x: "x \<in> set parts"
        then show "safe (parse_literal fp x)"
          using "1.IH" [OF True inner ne parts x] split_top_level_parts(2) [OF slice_str [OF "1.prems"(2) inner] _ parts] by simp
      qed simp_all
      then show "safe (if trim inner = [] then Inr (JArr [])
             else rbind (split_top_level inner (CHR '','')) (\<lambda>parts.
                    rbind (mapr (parse_literal fp) parts) (\<lambda>vs. Inr (JArr vs))))" by simp
    qed
    then show ?thesis using True by (simp add: parse_literal.simps [of fp raw])
  next
    case False
    have "safe (rbind (parse_string_literal raw) (\<lambda>s. Inr (JStr s)))"
      by (intro safe_rbind safe_string_literal [OF "1.prems"]) simp
    then show ?thesis
      unfolding parse_literal.simps [of fp raw] if_not_P [OF False]
      by (intro safe_if safe_case_option) simp_all
  qed
qed

lemma balanced_after_char:
  assumes "top_level_char s c = Some i" and "c \<notin> set quotes" and "balanced s"
  shows "balanced (drop (i + 1) s)"
proof -
  note o = top_level_char_outside [OF assms(1)]
  have "s = take i s @ c # drop (i + 1) s" using o(1,2) id_take_nth_drop by fastforce
  then have "balanced (c # drop (i + 1) s)" using assms(3) o(3) by (metis balanced_append)
  then show ?thesis using assms(2) by (simp add: balanced_cons_plain)
qed

lemma safe_property_entries:
  "\<forall>e\<in>set entries. balanced e \<and> is_str e \<Longrightarrow> safe (parse_property_entries fp entries properties)"
proof (induction fp entries properties rule: parse_property_entries.induct)
  case (2 fp entry entries properties)
  then have entry: "balanced entry" "is_str entry" by simp_all
  show ?case
    unfolding parse_property_entries.simps
  proof (intro safe_rbind safe_opt_err safe_identifier)
    fix colon assume "opt_err BadSyntax (top_level_char entry CHR '':'') = Inr colon"
    then have c: "top_level_char entry CHR '':'' = Some colon" by (simp add: opt_err_Inr)
    have edge: "is_char_boundary entry colon" "is_char_boundary entry (colon + 1)"
      using top_level_char_boundary [OF c entry(2)] by simp_all
    show "safe (slice entry 0 colon)" "safe (slice entry (colon + 1) (length entry))"
      using edge boundary_le [OF edge(2)] by (intro safe_slice; simp)+
    fix k key v val
    assume v: "slice entry (colon + 1) (length entry) = Inr v"
    have "balanced v" using balanced_after_char [OF c] entry(1) v by (simp add: slice_Inr)
    then show "safe (parse_literal fp (trim v))"
      using slice_str [OF entry(2) v] by (intro safe_literal balanced_trim is_str_trim)
  next
    fix colon k key v val
    assume "opt_err BadSyntax (top_level_char entry CHR '':'') = Inr colon" "slice entry 0 colon = Inr k"
      "parse_identifier (trim k) = Inr key" "slice entry (colon + 1) (length entry) = Inr v" "parse_literal fp (trim v) = Inr val"
    then show "safe (parse_property_entries fp entries (bm_insert key val properties))"
      using "2.IH" "2.prems" by simp
  qed simp
qed simp

lemma safe_property_map: "is_str raw \<Longrightarrow> safe (parse_property_map fp raw)"
  unfolding parse_property_map_def
  using split_top_level_parts(2) [of raw "CHR '',''"] by (intro safe_if safe_rbind safe_split safe_property_entries) auto

lemma safe_split_node:
  assumes "is_str raw"
  shows "safe (split_node fp raw)"
  unfolding split_node_def
proof (rule safe_case_option)
  fix i assume i: "top_level_char raw CHR ''{'' = Some i"
  have open_at: "is_char_boundary raw i" using top_level_char_boundary [OF i assms] by simp
  show "safe (rbind (matching_delimiter raw i (CHR ''{'') (CHR ''}'')) (\<lambda>close.
        rbind (slice raw (close + 1) (length raw)) (\<lambda>after.
          if trim after \<noteq> [] then Inl BadSyntax
          else rbind (slice raw 0 i) (\<lambda>head.
               rbind (slice raw (i + 1) close) (\<lambda>body.
               rbind (parse_property_map fp body) (\<lambda>properties. Inr (head, properties)))))))"
  proof (rule safe_rbind)
    show "safe (matching_delimiter raw i (CHR ''{'') (CHR ''}''))" using open_at by (rule safe_matching)
    fix close assume c: "matching_delimiter raw i (CHR ''{'') (CHR ''}'') = Inr close"
    have m: "i < close" "close < length raw" using matching_delimiter_outside(1,2) [OF c] by simp_all
    have edge: "is_char_boundary raw close" "is_char_boundary raw (close + 1)" "is_char_boundary raw (i + 1)"
      using matching_delimiter_boundary [OF c _ assms] by simp_all
    show "safe (rbind (slice raw (close + 1) (length raw)) (\<lambda>after.
          if trim after \<noteq> [] then Inl BadSyntax
          else rbind (slice raw 0 i) (\<lambda>head.
               rbind (slice raw (i + 1) close) (\<lambda>body.
               rbind (parse_property_map fp body) (\<lambda>properties. Inr (head, properties))))))"
      using m edge open_at slice_str [OF assms] by (intro safe_rbind safe_if safe_slice safe_property_map) auto
  qed
qed simp

lemma split_node_str:
  assumes "is_str raw" and "split_node fp raw = Inr (head, properties)"
  shows "is_str head"
  using assms slice_str [OF assms(1)] by (auto simp: split_node_def rbind_Inr split: option.splits if_splits)

lemma safe_node:
  assumes "is_str raw"
  shows "safe (parse_node fp raw)"
  unfolding parse_node_def Let_def
proof (intro safe_rbind safe_split_node [OF assms] safe_case_prod safe_case_option safe_optional_identifier safe_canonical)
  fix x head properties colon
  assume "split_node fp raw = Inr x" "x = (head, properties)" and c: "find_char CHR '':'' (trim head) = Some colon"
  then have "is_str (trim head)" using split_node_str [OF assms] by (simp add: is_str_trim)
  then have edge: "is_char_boundary (trim head) colon" "is_char_boundary (trim head) (colon + 1)"
    using find_char_boundary [OF c] by simp_all
  show "safe (slice (trim head) 0 colon)" "safe (slice (trim head) (colon + 1) (length (trim head)))"
    using edge boundary_le [OF edge(2)] by (intro safe_slice; simp)+
qed simp_all

lemma safe_node_at:
  assumes "is_str raw0"
  shows "safe (parse_node_at fp raw0)"
  unfolding parse_node_at_def Let_def
proof (intro safe_if safe_rbind safe_matching safe_node)
  have str: "is_str (trim_start raw0)" using assms by (rule is_str_trim_start)
  fix close assume c: "matching_delimiter (trim_start raw0) 0 CHR ''('' CHR '')'' = Inr close"
  have m: "0 < close" "close < length (trim_start raw0)" using matching_delimiter_outside(1,2) [OF c] by simp_all
  have edge: "is_char_boundary (trim_start raw0) close" "is_char_boundary (trim_start raw0) (close + 1)" "is_char_boundary (trim_start raw0) 1"
    using matching_delimiter_boundary [OF c _ str] by simp_all
  show "safe (slice (trim_start raw0) 1 close)" using m edge by (intro safe_slice) auto
  show "safe (slice (trim_start raw0) (close + 1) (length (trim_start raw0)))" using m edge by (intro safe_slice) auto
  fix body assume "slice (trim_start raw0) 1 close = Inr body"
  then show "is_str (trim body)" using slice_str [OF str] by (simp add: is_str_trim)
qed simp_all

lemma parse_node_at_str:
  assumes "is_str raw0" and "parse_node_at fp raw0 = Inr (node, rest)"
  shows "is_str rest"
  using assms slice_str [OF is_str_trim_start [OF assms(1)]]
  by (auto simp: parse_node_at_def Let_def rbind_Inr split: if_splits)

lemma identifier_ascii: "is_identifier_char c \<Longrightarrow> is_ascii c"
  by (auto simp: is_identifier_char_def is_ascii_alphanumeric_def is_ascii_alphabetic_def is_ascii_digit_def is_ascii_def Let_def)

lemma identifier_prefix_boundary:
  assumes "is_str s"
  shows "is_char_boundary s (length (takeWhile is_identifier_char s))"
proof (cases "takeWhile is_identifier_char s = []")
  case False
  define n where "n = length (takeWhile is_identifier_char s) - 1"
  have n: "n < length (takeWhile is_identifier_char s)" "length (takeWhile is_identifier_char s) = n + 1"
    using False by (simp_all add: n_def)
  then have "n < length s" using length_takeWhile_le [of is_identifier_char s] by linarith
  moreover have "is_identifier_char (s ! n)" using n(1) nth_mem takeWhile_nth set_takeWhileD by metis
  ultimately show ?thesis using ascii_boundary(2) [OF assms] identifier_ascii n(2) by simp
qed simp

lemma safe_relationship_body:
  assumes "is_str raw0"
  shows "safe (parse_relationship_body raw0 dir)"
  unfolding parse_relationship_body_def Let_def
proof (intro safe_rbind safe_if safe_opt_err safe_canonical)
  have str: "is_str (trim raw0)" using assms by (rule is_str_trim)
  fix colon assume "opt_err BadSyntax (find_char CHR '':'' (trim raw0)) = Inr colon"
  then have edge: "is_char_boundary (trim raw0) (colon + 1)"
    using find_char_boundary(2) [OF _ str] by (simp add: opt_err_Inr)
  then show "safe (slice (trim raw0) (colon + 1) (length (trim raw0)))"
    using boundary_le [OF edge] by (intro safe_slice) simp_all
  fix after assume "slice (trim raw0) (colon + 1) (length (trim raw0)) = Inr after"
  then have "is_str (trim_start after)" using slice_str [OF str] by (simp add: is_str_trim_start)
  then have "is_char_boundary (trim_start after) (length (takeWhile is_identifier_char (trim_start after)))"
    by (rule identifier_prefix_boundary)
  then show "safe (slice (trim_start after) 0 (length (takeWhile is_identifier_char (trim_start after))))"
    "safe (slice (trim_start after) (length (takeWhile is_identifier_char (trim_start after))) (length (trim_start after)))"
    by (intro safe_slice; simp add: length_takeWhile_le)+
qed simp_all

lemma safe_relationship_tail:
  assumes "is_str raw" and "is_char_boundary raw n" and "l \<noteq> r" and "is_ascii l" and "is_ascii r" and "m = n + 1"
  shows "safe (rbind (matching_delimiter raw n l r) (\<lambda>close.
           rbind (slice raw m close) (\<lambda>body.
           rbind (slice raw (close + 1) (length raw)) (\<lambda>rest0.
           rbind (opt_err BadSyntax (strip_prefix arrow (trim_start rest0))) (\<lambda>rest.
           rbind (parse_relationship_body body dir) (\<lambda>r. Inr (r, rest)))))))"
proof (intro safe_rbind safe_matching [OF assms(2)] safe_opt_err safe_relationship_body)
  fix close assume c: "matching_delimiter raw n l r = Inr close"
  have "n < close" "close < length raw" using matching_delimiter_outside(1,2) [OF c assms(3)] by simp_all
  then show "safe (slice raw m close)" "safe (slice raw (close + 1) (length raw))"
    using assms(6) matching_delimiter_boundary [OF c assms(3,1,4,5)] by (intro safe_slice; simp)+
  fix body assume "slice raw m close = Inr body"
  then show "is_str body" by (rule slice_str [OF assms(1)])
qed simp_all

lemma safe_relationship_at:
  assumes "is_str raw"
  shows "safe (parse_relationship_at raw)"
proof -
  have "is_char_boundary raw 1" if "starts_with ''-['' raw"
    using that ascii_boundary(1) [OF assms, of 1] by (auto simp: starts_with_iff)
  moreover have "is_char_boundary raw 2" if "starts_with ''<-['' raw"
    using that ascii_boundary(1) [OF assms, of 2] by (auto simp: starts_with_iff)
  ultimately show ?thesis
    unfolding parse_relationship_at_def by (intro safe_if safe_relationship_tail [OF assms]) simp_all
qed

lemma strip_ascii_prefix_str: "is_str s \<Longrightarrow> strip_prefix pre s = Some rest \<Longrightarrow> list_all is_ascii pre \<Longrightarrow> is_str rest"
proof (induction pre arbitrary: s)
  case (Cons c pre)
  then have s: "s = c # pre @ rest" by (simp add: strip_prefix_Some)
  then show ?case using Cons.IH [of "pre @ rest"] Cons.prems by (simp add: strip_prefix_Some is_str_Cons_ascii)
qed (simp add: strip_prefix_Some)

lemma parse_relationship_at_str:
  assumes "is_str raw" and "parse_relationship_at raw = Inr (rel, rest)"
  shows "is_str rest"
proof -
  have "is_str t" if "strip_prefix pre (trim_start u) = Some t" "slice raw a (length raw) = Inr u" "list_all is_ascii pre" for pre u t a
    using strip_ascii_prefix_str [OF is_str_trim_start [OF slice_str [OF assms(1) that(2)]] that(1,3)] .
  then show ?thesis
    using assms(2) by (auto simp: parse_relationship_at_def rbind_Inr opt_err_Inr split: if_splits)
qed

lemma safe_match_pattern:
  assumes "is_str raw"
  shows "safe (parse_match_pattern fp raw)"
  unfolding parse_match_pattern_def Let_def
proof (intro safe_rbind safe_if safe_case_prod safe_split [OF assms] safe_node_at safe_relationship_at)
  fix parts assume parts: "split_top_level raw CHR '','' = Inr parts"
  have hd: "is_str (trim (hd parts))" using split_top_level_parts(2) [OF assms _ parts] by (simp add: is_str_trim)
  then show "is_str (trim (hd parts))" .
  fix x l rest0 assume "parse_node_at fp (trim (hd parts)) = Inr x" "x = (l, rest0)"
  then have rest: "is_str (trim rest0)" using parse_node_at_str [OF hd] by (simp add: is_str_trim)
  then show "is_str (trim rest0)" .
  fix y rel rest1 assume "parse_relationship_at (trim rest0) = Inr y" "y = (rel, rest1)"
  then show "is_str rest1" using parse_relationship_at_str [OF rest] by simp
qed (simp_all add: reject_duplicate_relationship_aliases_def split: option.split)

lemma top_level_operator_spec:
  assumes "set op \<inter> set quotes = {}" and "is_char_boundary inp start" and "balanced (drop start inp)"
    and "is_str inp" and "list_all is_ascii op"
  shows "safe (top_level_operator_from inp op start)
    \<and> (\<forall>p. top_level_operator_from inp op start = Inr (Some p) \<longrightarrow>
         is_char_boundary inp p \<and> is_char_boundary inp (p + length op) \<and> balanced (drop (p + length op) inp))"
  using assms
proof (induction inp op start rule: top_level_operator_from.induct)
  case (1 inp op start)
  let ?from = "drop start inp"
  have sl: "slice inp start (length inp) = Inr ?from" using "1.prems"(2) by (rule slice_from)
  note step = top_level_operator_from.simps [of inp op start]
  show ?case
  proof (cases op)
    case Nil
    have "top_level_operator_from inp op start = Inr None" unfolding step using Nil by simp
    then show ?thesis by simp
  next
    case (Cons first ops)
    show ?thesis
    proof (cases "top_level_char ?from first")
      case None
      have "top_level_operator_from inp op start = Inr None" unfolding step using Cons sl None by simp
      then show ?thesis by simp
    next
      case (Some i)
      note o = top_level_char_outside [OF Some]
      have q: "first \<notin> set quotes" using "1.prems"(1) Cons by auto
      have i: "start + i < length inp" using o(1) by simp
      have first: "is_ascii first" using "1.prems"(5) Cons by simp
      have hit: "inp ! (start + i) = first" using o(2) boundary_le [OF "1.prems"(2)] by simp
      have edge: "is_char_boundary inp (start + i)" "is_char_boundary inp (start + i + 1)"
        using ascii_boundary [OF "1.prems"(4) i] first hit by simp_all
      have at: "slice inp (start + i) (length inp) = Inr (drop (start + i) inp)" using edge(1) by (rule slice_from)
      have after: "balanced (drop (start + i + 1) inp)"
        using balanced_after_char [OF Some q "1.prems"(3)] by (simp add: add.commute)
      have cons: "drop (start + i) inp = first # drop (start + i + 1) inp"
        using hit i by (metis Cons_nth_drop_Suc Suc_eq_plus1)
      have bal: "balanced (drop (start + i) inp)" unfolding cons using after q by (simp add: balanced_cons_plain)
      show ?thesis
      proof (cases "starts_with op (drop (start + i) inp)")
        case True
        then have split: "drop (start + i) inp = op @ drop (length op) (drop (start + i) inp)"
          by (metis append_take_drop_id starts_with_def)
        have end_op: "is_char_boundary inp (start + i + length op)"
        proof (rule boundary_shift [OF edge(1)])
          have "strip_prefix op (drop (start + i) inp) = Some (drop (length op) (drop (start + i) inp))"
            using split by (simp only: strip_prefix_Some)
          then have "is_str (drop (length op) (drop (start + i) inp))"
            using strip_ascii_prefix_str is_str_split(2) [OF "1.prems"(4) edge(1)] "1.prems"(5) by blast
          moreover have "length op \<le> length (drop (start + i) inp)" using True by (metis starts_with_iff length_append le_add1)
          ultimately show "is_char_boundary (drop (start + i) inp) (length op)"
            using is_str_hd [of "drop (length op) (drop (start + i) inp)"]
            by (auto simp: is_char_boundary_def hd_drop_conv_nth add.commute add.left_commute)
        qed
        have "balanced (drop (length op) (drop (start + i) inp))"
          using bal split balanced_plain [OF "1.prems"(1)] by (metis balanced_append)
        moreover have "top_level_operator_from inp op start = Inr (Some (start + i))"
          unfolding step using True Cons sl Some at by simp
        ultimately show ?thesis using end_op edge(1) by (simp add: add.commute)
      next
        case False
        note ih = "1.IH" [OF Cons sl Some at False "1.prems"(1) edge(2) after "1.prems"(4,5)]
        have "top_level_operator_from inp op start = top_level_operator_from inp op (start + i + 1)"
          unfolding step using False Cons sl Some at by simp
        then show ?thesis using ih by simp
      qed
    qed
  qed
qed

lemma safe_predicate_at:
  assumes "is_str raw" and "is_char_boundary raw position" and "is_char_boundary raw (position + len)"
    and "balanced (drop (position + len) raw)"
  shows "safe (predicate_at fp raw position len operator)"
proof -
  have "safe (parse_property_ref p)" for p
    unfolding parse_property_ref_def
    by (intro safe_rbind safe_case_prod safe_opt_err safe_identifier safe_property_path) simp_all
  then have "safe (predicate_from_parts fp p v operator)" if "balanced v" "is_str v" for p v
    unfolding predicate_from_parts_def using that
    by (intro safe_rbind safe_case_prod safe_literal balanced_trim is_str_trim) simp_all
  then show ?thesis
    unfolding predicate_at_def using assms boundary_le [OF assms(3)] is_str_split(2) [OF assms(1,3)]
    by (intro safe_rbind safe_slice) (auto simp: slice_Inr)
qed

lemma safe_predicate_with:
  assumes "balanced raw" and "is_str raw" and "\<forall>(kw, operator)\<in>set ops. set kw \<inter> set quotes = {}"
  shows "safe (parse_predicate_with fp raw ops)"
  using assms(3)
proof (induction ops)
  case Nil
  have ne: "safe (top_level_operator raw ''<>'')"
    "top_level_operator raw ''<>'' = Inr (Some p) \<Longrightarrow>
       is_char_boundary raw p \<and> is_char_boundary raw (p + 2) \<and> balanced (drop (p + 2) raw)" for p
    using top_level_operator_spec [of "''<>''" raw 0] assms(1,2) by (simp_all add: top_level_operator_def numeral_2_eq_2)
  have eq: "is_char_boundary raw p \<and> is_char_boundary raw (p + 1) \<and> balanced (drop (p + 1) raw)"
    if "top_level_char raw CHR ''='' = Some p" for p
    using top_level_char_boundary [OF that assms(2)] balanced_after_char [OF that _ assms(1)] by simp
  show ?case
    unfolding parse_predicate_with.simps
    by (intro safe_rbind safe_case_option safe_predicate_at [OF assms(2)]) (use ne eq in auto)
next
  case (Cons op ops)
  obtain kw operator where op: "op = (kw, operator)" by (cases op)
  show ?case
    unfolding op parse_predicate_with.simps
  proof (intro safe_rbind safe_keyword_pos safe_case_option safe_predicate_at [OF assms(2)])
    show "safe (parse_predicate_with fp raw ops)" using Cons by simp
    fix hit p assume "keyword_pos raw kw 0 = Inr hit" "hit = Some p"
    then have found: "keyword_pos raw kw 0 = Inr (Some p)" by simp
    show "is_char_boundary raw p" "is_char_boundary raw (p + length kw)" using keyword_pos_bounds(5,6) [OF found] by simp_all
    show "balanced (drop (p + length kw) raw)"
      using balanced_after_keyword [OF found] assms(1) Cons.prems op by simp
  qed
qed

lemma keyword_text: "set ''OR'' \<inter> set quotes = {}" "set ''AND'' \<inter> set quotes = {}"
  "\<forall>(kw, operator)\<in>set keyword_operators. set kw \<inter> set quotes = {}"
  by (simp_all add: quotes_def keyword_operators_def)

lemma safe_predicates:
  assumes "balanced raw" and "is_str raw"
  shows "safe (parse_predicates fp raw)"
proof -
  obtain groups where g: "split_top_level_keyword raw ''OR'' = Inr groups" "\<forall>x\<in>set groups. balanced x \<and> is_str x"
    by (rule split_top_level_keyword_parts [OF _ keyword_text(1) assms]) simp_all
  have "safe (rbind (split_top_level_keyword grp ''AND'') (mapr (parse_predicate fp)))" if grp: "balanced grp" "is_str grp" for grp
  proof -
    obtain ps where "split_top_level_keyword grp ''AND'' = Inr ps" "\<forall>x\<in>set ps. balanced x \<and> is_str x"
      by (rule split_top_level_keyword_parts [OF _ keyword_text(2) grp]) simp_all
    then show ?thesis using safe_predicate_with [OF _ _ keyword_text(3)] by (auto intro!: safe_mapr simp: parse_predicate_def)
  qed
  then show ?thesis using g by (auto simp: parse_predicates_def intro!: safe_mapr)
qed

lemma safe_returns:
  assumes "is_str raw"
  shows "safe (parse_returns raw)"
proof -
  have proj: "safe (parse_projection p)" for p
    unfolding parse_projection_def
    by (intro safe_case_option safe_case_prod safe_rbind safe_identifier safe_property_path) simp_all
  have "safe (parse_return item)" for item
    unfolding parse_return_def Let_def
  proof (intro safe_case_option safe_rbind safe_identifier safe_keyword_pos proj)
    fix hit i assume "keyword_pos (trim item) ''AS'' 0 = Inr hit" "hit = Some i"
    then have "keyword_pos (trim item) ''AS'' 0 = Inr (Some i)" by simp
    note b = keyword_pos_bounds(3,5,6) [OF this]
    show "safe (slice (trim item) 0 i)" "safe (slice (trim item) (i + 2) (length (trim item)))"
      using b by (intro safe_slice; simp)+
  qed simp_all
  then show ?thesis unfolding parse_returns_def by (intro safe_if safe_rbind safe_split [OF assms] safe_mapr) simp_all
qed

text \<open>The text between two keywords found from the same starting point is balanced.\<close>

lemma balanced_between:
  assumes "keyword_pos q kw start = Inr (Some i)" and "keyword_pos q kw' start = Inr (Some j)" and "i < j"
    and "set kw \<inter> set quotes = {}" and "list_all is_identifier_char kw"
  shows "i + length kw \<le> j" and "balanced (take (j - (i + length kw)) (drop (i + length kw) q))"
proof -
  note bi = keyword_pos_bounds [OF assms(1)] and bj = keyword_pos_bounds [OF assms(2)]
  show le: "i + length kw \<le> j" by (rule keywords_apart [OF bi(4) assms(5) bj(4) assms(3)])
  let ?q = "take j q"
  have "drop start ?q = take (i - start) (drop start ?q) @ take (length kw) (drop i ?q) @ drop (i + length kw) ?q"
    using le bj(2) by (intro drop_split [OF bi(1)]) simp
  moreover have "take (i - start) (drop start ?q) = take (i - start) (drop start q)"
    "take (length kw) (drop i ?q) = take (length kw) (drop i q)"
    "drop start ?q = take (j - start) (drop start q)"
    "drop (i + length kw) ?q = take (j - (i + length kw)) (drop (i + length kw) q)"
    using le assms(3) by (simp_all add: drop_take min_def)
  ultimately have "take (j - start) (drop start q)
      = take (i - start) (drop start q) @ take (length kw) (drop i q) @ take (j - (i + length kw)) (drop (i + length kw) q)"
    by metis
  then show "balanced (take (j - (i + length kw)) (drop (i + length kw) q))"
    using keyword_pos_outside [OF assms(1)] keyword_pos_outside [OF assms(2)]
      balanced_plain [OF keyword_at_text(1) [OF bi(4) assms(4)]] by (metis balanced_append)
qed

lemma is_str_strip_semicolon: "is_str s \<Longrightarrow> is_str (strip_trailing_semicolon s)"
proof -
  assume s: "is_str s"
  have "is_str (butlast s)" if "ends_with '';'' s"
  proof -
    obtain rest where "s = rest @ '';''" using \<open>ends_with '';'' s\<close> by (auto simp: ends_with_iff)
    then show ?thesis using s is_str_append [of "'';''" rest] ascii_not_continuation [of "CHR '';''"] by simp
  qed
  then show ?thesis using s by (simp add: strip_trailing_semicolon_def is_str_trim_end)
qed

text \<open>The condition between the keywords, when there is one.\<close>

lemma safe_where:
  assumes "is_str query" and "keyword_pos query ''WHERE'' start = Inr (Some pos)" and "keyword_pos query ''RETURN'' start = Inr (Some r)"
    and "pos < r"
  shows "safe (rbind (slice query (pos + 5) r) (\<lambda>w. parse_predicates fp (trim w)))"
proof -
  have id: "list_all is_identifier_char ''WHERE''" "set ''WHERE'' \<inter> set quotes = {}"
    by (simp_all add: is_identifier_char_def is_ascii_alphanumeric_def is_ascii_alphabetic_def quotes_def)
  have five: "length ''WHERE'' = 5" by simp
  note between = balanced_between [OF assms(2,3,4) id(2,1), unfolded five]
  have edge: "is_char_boundary query (pos + 5)" "is_char_boundary query r"
    using keyword_pos_bounds(6) [OF assms(2), unfolded five] keyword_pos_bounds(5) [OF assms(3)] by simp_all
  have w: "balanced (trim w) \<and> is_str (trim w)" if "slice query (pos + 5) r = Inr w" for w
    using that between(2) slice_str [OF assms(1) that] by (simp add: slice_Inr balanced_trim is_str_trim)
  show ?thesis
    by (intro safe_rbind safe_slice between(1) edge safe_predicates) (use w in auto)
qed

lemma safe_parse_query:
  assumes "is_str raw"
  shows "safe (parse_query fp raw)"
proof -
  define query where "query = strip_trailing_semicolon (trim raw)"
  have str: "is_str query" unfolding query_def by (intro is_str_strip_semicolon is_str_trim assms)
  have part: "is_str (trim t)" if "slice query a b = Inr t" for a b t
    using slice_str [OF str that] by (rule is_str_trim)
  show ?thesis
    unfolding parse_query_def query_def [symmetric] Let_def
  proof (intro safe_rbind safe_required_keyword safe_keyword_pos safe_if safe_match_pattern safe_returns)
    fix m before r hit assume "required_keyword query ''MATCH'' 0 = Inr m"
    then have m: "keyword_pos query ''MATCH'' 0 = Inr (Some m)" by (simp add: required_keyword_Inr)
    have five: "is_char_boundary query (m + 5)" using keyword_pos_bounds(6) [OF m] by (simp add: eval_nat_numeral)
    show "safe (slice query 0 m)" using keyword_pos_bounds(5) [OF m] by (intro safe_slice) simp_all
    assume "required_keyword query ''RETURN'' (m + 5) = Inr r"
    then have r: "keyword_pos query ''RETURN'' (m + 5) = Inr (Some r)" by (simp add: required_keyword_Inr)
    note br = keyword_pos_bounds [OF r]
    show "safe (slice query (r + 6) (length query))"
      using br(3,6) by (intro safe_slice) (simp_all add: eval_nat_numeral)
    assume hit: "keyword_pos query ''WHERE'' (m + 5) = Inr hit"
    let ?w = "case hit of None \<Rightarrow> None | Some pos \<Rightarrow> if pos < r then Some pos else None"
    have w: "keyword_pos query ''WHERE'' (m + 5) = Inr (Some pos) \<and> pos < r" if "?w = Some pos" for pos
      using that hit by (auto split: option.splits if_splits)
    show "safe (slice query (m + 5) (case ?w of None \<Rightarrow> r | Some pos \<Rightarrow> pos))"
    proof (cases ?w)
      case None
      then show ?thesis using br(1,5) five by (simp add: safe_slice)
    next
      case (Some pos)
      then show ?thesis using keyword_pos_bounds(1,5) [OF conjunct1 [OF w [OF Some]]] five by (simp add: safe_slice)
    qed
    show "safe (case ?w of None \<Rightarrow> Inr []
        | Some pos \<Rightarrow> rbind (slice query (pos + 5) r) (\<lambda>w. parse_predicates fp (trim w)))"
      by (rule safe_case_option) (use w safe_where [OF str _ r] in auto)
  qed (use part in auto)
qed

text \<open>C19. The query parser never panics. For every text, that is every sequence of bytes that is valid UTF-8, and every
  decimal conversion, \<open>parse_query\<close> returns a query or a reported error: each of its slices is in range and cuts no
  character, because a keyword is matched through \<open>get\<close> and every other position is next to an ASCII delimiter; and the one
  literal that would be sliced out of range, a lone quote, cannot reach the literal parser, because every text handed to
  it has balanced quotes.\<close>

theorem parse_query_never_panics: "is_str raw \<Longrightarrow> parse_query fp raw \<noteq> Inl Panic"
  using safe_parse_query by (simp add: safe_def)

theorem parse_query_never_panics_witness:
  "let raw = map char_of [0xC2, 0xA0 :: nat] @ ''MATCH (n) WHERE n.x = '' @ map char_of [0x27, 0xE2, 0x82, 0xAC, 0x27 :: nat] @ '' RETURN n''
   in is_str raw \<and> \<not> list_all is_ascii raw \<and> parse_query (\<lambda>_. None) raw \<noteq> Inl Panic"
  unfolding Let_def
proof (intro conjI parse_query_never_panics)
qed code_simp+

section \<open>String literals\<close>

definition dquote :: char where
  "dquote = CHR 0x22"

fun escape_char :: "char \<Rightarrow> string" where
  "escape_char c = (if c = backslash \<or> c = dquote then [backslash, c] else [c])"

definition write_string :: "string \<Rightarrow> string" where
  "write_string s = dquote # concat (map escape_char s) @ [dquote]"

lemma dquote_quote [simp]: "dquote \<in> set quotes" "backslash \<notin> set quotes" "backslash \<noteq> dquote" "dquote \<noteq> backslash"
  by (simp_all add: dquote_def quotes_def backslash_def)

lemma dquote_ascii [simp]: "\<not> is_continuation dquote" "\<not> is_continuation backslash"
  by (simp_all add: is_continuation_def dquote_def backslash_def)

lemma unescape_escaped: "unescape (concat (map escape_char s) @ rest) False out = unescape rest False (out @ s)"
proof (induction s arbitrary: out)
  case (Cons c s)
  have "unescape_char d = Inr d" if "d = backslash \<or> d = dquote" for d
    using that by (auto simp: unescape_char_def backslash_def dquote_def quotes_def)
  then show ?case using Cons by auto
qed simp

lemma qrun_escaped: "qrun (Some dquote, False) (concat (map escape_char s)) = (Some dquote, False)"
  by (induction s) (auto simp: in_quote_def)

lemma is_str_escaped: "is_str (p @ s) \<Longrightarrow> is_str (p @ concat (map escape_char s))"
proof (induction s arbitrary: p)
  case (Cons c s)
  show ?case
  proof (cases "c = backslash \<or> c = dquote")
    case True
    then have c: "is_ascii c" "is_ascii backslash" by (auto simp: is_ascii_def backslash_def dquote_def)
    have "is_str p" "is_str s" using Cons.prems c is_str_append [of "c # s" p] ascii_not_continuation by (auto simp: is_str_Cons_ascii)
    then have "is_str (p @ backslash # c # s)"
      using c is_str_append [of "backslash # c # s" p] ascii_not_continuation by (auto simp: is_str_Cons_ascii)
    then show ?thesis using Cons.IH [of "p @ [backslash, c]"] True by simp
  next
    case False
    then show ?thesis using Cons.IH [of "p @ [c]"] Cons.prems by simp
  qed
qed simp

text \<open>A literal is what stands between its first and its last character, unescaped.\<close>

lemma quote_is_ascii: "q \<in> set quotes \<Longrightarrow> is_ascii q"
  by (auto simp: quotes_def is_ascii_def)

lemma is_str_quoted:
  assumes "q \<in> set quotes"
  shows "is_str (q # body @ [q]) \<longleftrightarrow> is_str body"
  using is_str_append [of "[q]" body] quote_is_ascii [OF assms] ascii_not_continuation [of q]
  by (simp add: is_str_Cons_ascii)

lemma quoted_literal:
  assumes "q \<in> set quotes" and "is_str body"
  shows "parse_literal fp (q # body @ [q]) = map_sum id JStr (unescape body False [])"
proof -
  let ?raw = "q # body @ [q]"
  have edge: "is_char_boundary ?raw 1" "is_char_boundary ?raw (length ?raw - 1)"
    using ascii_boundary [of ?raw 0] ascii_boundary [of ?raw "length ?raw - 1"] assms
      is_str_quoted [OF assms(1)] quote_is_ascii [OF assms(1)] by (simp_all add: nth_append)
  have "slice ?raw 1 (length ?raw - 1) = Inr body"
    using slice_ok [OF _ edge] by simp
  moreover have "ends_with [q] ?raw" by (simp add: ends_with_iff)
  ultimately have lit: "parse_string_literal ?raw = unescape body False []"
    using assms(1) by (simp add: parse_string_literal_def)
  have "\<not> starts_with ''['' ?raw" "(starts_with [CHR 0x22] ?raw \<or> starts_with [CHR 0x27] ?raw) = True"
    using assms(1) by (auto simp: starts_with_def quotes_def)
  then have "parse_literal fp ?raw = rbind (parse_string_literal ?raw) (\<lambda>s. Inr (JStr s))"
    by (simp only: parse_literal.simps [of fp ?raw] simp_thms if_False if_True)
  then show ?thesis unfolding lit by (cases "unescape body False []") (simp_all add: rbind_def)
qed

lemma unescape_plain: "backslash \<notin> set s \<Longrightarrow> unescape s False out = Inr (out @ s)"
  by (induction s arbitrary: out) auto

text \<open>C35. Every text has a string literal that stands for it: writing it between double quotes with
  quotes and backslashes escaped gives a text with balanced quotes, so the scanners never stop
  inside it, and parsing that literal gives the text back.\<close>

theorem string_literal_roundtrip:
  assumes "is_str s"
  shows "is_str (write_string s) \<and> balanced (write_string s) \<and> parse_literal fp (write_string s) = Inr (JStr s)"
proof (intro conjI)
  have body: "is_str (concat (map escape_char s))" using is_str_escaped [of "[]" s] assms by simp
  then show "is_str (write_string s)" using is_str_quoted [OF dquote_quote(1)] by (simp add: write_string_def)
  show "balanced (write_string s)"
    by (simp add: write_string_def balanced_def qrun_escaped in_quote_def)
  show "parse_literal fp (write_string s) = Inr (JStr s)"
    using quoted_literal [OF dquote_quote(1) body] unescape_escaped [of s "[]" "[]"] by (simp add: write_string_def)
qed

theorem string_literal_roundtrip_witness:
  "let s = [backslash, dquote] @ map char_of [0xE2, 0x82, 0xAC :: nat] in
   is_str s \<and> is_str (write_string s) \<and> balanced (write_string s) \<and> parse_literal (\<lambda>_. None) (write_string s) = Inr (JStr s)"
  unfolding Let_def
proof
  show s: "is_str ([backslash, dquote] @ map char_of [0xE2, 0x82, 0xAC :: nat])" by code_simp
  show "is_str (write_string ([backslash, dquote] @ map char_of [0xE2, 0x82, 0xAC :: nat]))
    \<and> balanced (write_string ([backslash, dquote] @ map char_of [0xE2, 0x82, 0xAC :: nat]))
    \<and> parse_literal (\<lambda>_. None) (write_string ([backslash, dquote] @ map char_of [0xE2, 0x82, 0xAC :: nat]))
      = Inr (JStr ([backslash, dquote] @ map char_of [0xE2, 0x82, 0xAC :: nat]))"
    by (rule string_literal_roundtrip [OF s])
qed



end
