(* ===== verification/Query_Model.thy ===== *)
theory Query_Model
  imports Query_Parser
begin

text \<open>
  The graph a query is evaluated against and the evaluation:
  \<open>crates/once-cli/src/commands/query/expression/model.rs\<close> and
  \<open>crates/once-cli/src/commands/query/expression.rs\<close>. Indexing a node out of range is the error
  \<open>Panic\<close>. Attributes are taken as the JSON their derived serialization gives.
\<close>

section \<open>Data\<close>

record graph_node =
  n_label :: string
  n_properties :: "(string, json) bmap"

record graph_edge =
  e_from :: nat
  e_to :: nat
  e_ty :: string

record graph_model =
  gm_nodes :: "graph_node list"
  gm_edges :: "graph_edge list"

type_synonym binding = "(string, nat) bmap"

definition bm_from :: "(string \<times> 'v) list \<Rightarrow> (string, 'v) bmap" where
  "bm_from kvs = foldl (\<lambda>m (k, v). bm_insert k v m) [] kvs"

definition jstrs :: "string list \<Rightarrow> json" where
  "jstrs ss = JArr (map JStr ss)"

section \<open>Building the graph\<close>

definition target_properties :: "graph_target \<Rightarrow> (string, json) bmap" where
  "target_properties t = bm_from
     [(''id'', JStr (gt_id t)), (''package'', JStr (gt_package t)), (''name'', JStr (gt_name t)),
      (''kind'', JStr (gt_kind t)), (''deps'', jstrs (gt_deps t)),
      (''dependency_edges'', JObj (map (\<lambda>(k, v). (k, jstrs v)) (gt_dependency_edges t))),
      (''srcs'', jstrs (gt_srcs t)), (''visibility'', jstrs (gt_visibility t)), (''attrs'', JObj (gt_attrs t)),
      (''providers'', jstrs (gt_providers t)),
      (''capabilities'', jstrs (map cap_name (gt_capabilities t)))]"

fun index_targets :: "graph_target list \<Rightarrow> (string, nat) bmap \<Rightarrow> graph_node list \<Rightarrow> (string, nat) bmap \<times> graph_node list" where
  "index_targets [] indices nodes = (indices, nodes)"
| "index_targets (t # ts) indices nodes =
     index_targets ts (bm_insert (gt_id t) (length nodes) indices)
       (nodes @ [\<lparr>n_label = ''Target'', n_properties = target_properties t\<rparr>])"

definition dependency_edges_of :: "(string, nat) bmap \<Rightarrow> nat \<Rightarrow> graph_target \<Rightarrow> graph_edge list" where
  "dependency_edges_of indices ti t =
     List.map_filter (\<lambda>dep. map_option (\<lambda>di. \<lparr>e_from = ti, e_to = di, e_ty = ''DEPENDS_ON''\<rparr>) (bm_get indices dep))
       (dependency_ids t)"

definition add_owned :: "nat \<Rightarrow> string \<Rightarrow> graph_model \<Rightarrow> graph_node \<Rightarrow> graph_model" where
  "add_owned ti ty g node =
     g\<lparr>gm_nodes := gm_nodes g @ [node],
       gm_edges := gm_edges g @ [\<lparr>e_from = ti, e_to = length (gm_nodes g), e_ty = ty\<rparr>]\<rparr>"

definition capability_node :: "graph_target \<Rightarrow> capability \<Rightarrow> graph_node" where
  "capability_node t c = \<lparr>n_label = ''Capability'', n_properties = bm_from
     [(''name'', JStr (cap_name c)), (''target'', JStr (gt_id t)),
      (''output_groups'', jstrs (cap_output_groups c)), (''requires_outputs'', jstrs (cap_requires_outputs c))]\<rparr>"

definition provider_node :: "graph_target \<Rightarrow> string \<Rightarrow> graph_node" where
  "provider_node t p = \<lparr>n_label = ''Provider'', n_properties = bm_from [(''name'', JStr p), (''target'', JStr (gt_id t))]\<rparr>"

fun add_targets :: "(string, nat) bmap \<Rightarrow> graph_target list \<Rightarrow> graph_model \<Rightarrow> graph_model" where
  "add_targets indices [] g = g"
| "add_targets indices (t # ts) g =
     add_targets indices ts
       (case bm_get indices (gt_id t) of
          None \<Rightarrow> g
        | Some ti \<Rightarrow>
            (let g1 = g\<lparr>gm_edges := gm_edges g @ dependency_edges_of indices ti t\<rparr>;
                 g2 = foldl (add_owned ti ''EXPOSES'') g1 (map (capability_node t) (gt_capabilities t))
             in foldl (add_owned ti ''EMITS'') g2 (map (provider_node t) (gt_providers t))))"

definition from_graph :: "graph_target list \<Rightarrow> graph_model" where
  "from_graph ts =
     (case index_targets ts [] [] of (indices, nodes) \<Rightarrow> add_targets indices ts \<lparr>gm_nodes = nodes, gm_edges = []\<rparr>)"

section \<open>Matching\<close>

definition node_at :: "graph_model \<Rightarrow> nat \<Rightarrow> query_error + graph_node" where
  "node_at g i = (if i < length (gm_nodes g) then Inr (gm_nodes g ! i) else Inl Panic)"

fun filterr :: "('a \<Rightarrow> 'e + bool) \<Rightarrow> 'a list \<Rightarrow> 'e + 'a list" where
  "filterr f [] = Inr []"
| "filterr f (x # xs) = rbind (f x) (\<lambda>b. rbind (filterr f xs) (\<lambda>ys. Inr (if b then x # ys else ys)))"

definition node_matches :: "graph_node \<Rightarrow> node_pattern \<Rightarrow> bool" where
  "node_matches node p \<longleftrightarrow>
     (case np_label p of None \<Rightarrow> True | Some l \<Rightarrow> n_label node = l)
     \<and> list_all (\<lambda>(k, v). bm_get (n_properties node) k = Some v) (np_properties p)"

definition bind_node :: "binding \<Rightarrow> node_pattern \<Rightarrow> nat \<Rightarrow> binding" where
  "bind_node b p i = (case np_alias p of None \<Rightarrow> b | Some a \<Rightarrow> bm_insert a i b)"

definition neighbors :: "graph_model \<Rightarrow> nat \<Rightarrow> relationship_pattern \<Rightarrow> nat list" where
  "neighbors g start rel =
     List.map_filter (\<lambda>e.
       if e_ty e \<noteq> rel_ty rel then None
       else case rel_direction rel of
         LeftToRight \<Rightarrow> if e_from e = start then Some (e_to e) else None
       | RightToLeft \<Rightarrow> if e_to e = start then Some (e_from e) else None) (gm_edges g)"

definition visit :: "nat list \<times> nat list \<times> nat list \<Rightarrow> nat \<Rightarrow> nat list \<times> nat list \<times> nat list" where
  "visit st next = (case st of (seen, queue, results) \<Rightarrow>
     if next \<in> set seen then st else (next # seen, queue @ [next], results @ [next]))"

lemma visit_all:
  "\<exists>new. foldl visit (seen, queue, results) ns = (rev new @ seen, queue @ new, results @ new)
     \<and> distinct new \<and> set new = set ns - set seen"
proof (induction ns arbitrary: seen queue results)
  case (Cons n ns)
  show ?case
  proof (cases "n \<in> set seen")
    case True
    then have "set (n # ns) - set seen = set ns - set seen" by auto
    moreover have "foldl visit (seen, queue, results) (n # ns) = foldl visit (seen, queue, results) ns"
      using True by (simp add: visit_def)
    ultimately show ?thesis using Cons.IH [of seen queue results] by (simp only:)
  next
    case False
    obtain new where new: "foldl visit (n # seen, queue @ [n], results @ [n]) ns
        = (rev new @ n # seen, (queue @ [n]) @ new, (results @ [n]) @ new)" "distinct new" "set new = set ns - set (n # seen)"
      using Cons.IH by blast
    moreover have "foldl visit (seen, queue, results) (n # ns) = foldl visit (n # seen, queue @ [n], results @ [n]) ns"
      using False by (simp add: visit_def)
    moreover have "distinct (n # new)" "set (n # new) = set (n # ns) - set seen" using new(2,3) False by auto
    ultimately show ?thesis by (intro exI [of _ "n # new"]) simp
  qed
qed simp

definition endpoints :: "graph_model \<Rightarrow> nat set" where
  "endpoints g = (\<Union>e\<in>set (gm_edges g). {e_from e, e_to e})"

lemma neighbors_endpoints: "set (neighbors g start rel) \<subseteq> endpoints g"
  by (auto simp: neighbors_def endpoints_def List.map_filter_def split: if_splits direction.splits)

lemma visit_decreases:
  assumes "foldl visit (seen, queue, results) (neighbors g node rel) = (seen', queue', results')"
  shows "card (endpoints g - set seen') + length queue' = card (endpoints g - set seen) + length queue"
proof -
  obtain new where new: "seen' = rev new @ seen" "queue' = queue @ new" "distinct new" "set new = set (neighbors g node rel) - set seen"
    using visit_all [of seen queue results "neighbors g node rel"] assms by auto
  have fin: "finite (endpoints g)" by (simp add: endpoints_def)
  have "set new \<subseteq> endpoints g - set seen" using new(4) neighbors_endpoints [of g node rel] by auto
  then have "card (endpoints g - set seen) = card (endpoints g - set seen - set new) + card (set new)"
    using fin by (simp add: card_Diff_subset card_mono)
  moreover have "endpoints g - set seen' = endpoints g - set seen - set new" using new(1) by auto
  ultimately show ?thesis using new(2,3) by (simp add: distinct_card)
qed

function bfs :: "graph_model \<Rightarrow> relationship_pattern \<Rightarrow> nat list \<Rightarrow> nat list \<Rightarrow> nat list \<Rightarrow> nat list" where
  "bfs g rel seen [] results = results"
| "bfs g rel seen (node # queue) results =
     (case foldl visit (seen, queue, results) (neighbors g node rel) of
        (seen', queue', results') \<Rightarrow> bfs g rel seen' queue' results')"
  by pat_completeness auto
termination
proof (relation "measure (\<lambda>(g, rel, seen, queue, results). card (endpoints g - set seen) + length queue)")
  fix g :: graph_model and rel seen node queue results seen' y queue' results'
  assume h: "(seen', y) = foldl visit (seen, queue, results) (neighbors g node rel)" "(queue', results') = y"
  have "foldl visit (seen, queue, results) (neighbors g node rel) = (seen', queue', results')" using h by simp
  from visit_decreases [OF this]
  show "((g, rel, seen', queue', results'), g, rel, seen, node # queue, results)
      \<in> measure (\<lambda>(g, rel, seen, queue, results). card (endpoints g - set seen) + length queue)" by simp
qed simp

definition reachable :: "graph_model \<Rightarrow> nat \<Rightarrow> relationship_pattern \<Rightarrow> nat list" where
  "reachable g start rel = (if \<not> rel_transitive rel then neighbors g start rel else bfs g rel [start] [start] [])"

definition match_node_pattern :: "graph_model \<Rightarrow> node_pattern \<Rightarrow> binding list" where
  "match_node_pattern g p =
     map (\<lambda>(i, _). bind_node [] p i) (filter (\<lambda>(_, node). node_matches node p) (enumerate 0 (gm_nodes g)))"

definition match_relationship_pattern ::
  "graph_model \<Rightarrow> node_pattern \<Rightarrow> relationship_pattern \<Rightarrow> node_pattern \<Rightarrow> query_error + binding list" where
  "match_relationship_pattern g l rel r =
     rbind (mapr (\<lambda>(li, _).
         rbind (filterr (\<lambda>ri. rbind (node_at g ri) (\<lambda>node. Inr (node_matches node r))) (reachable g li rel)) (\<lambda>ris.
           Inr (map (\<lambda>ri. bind_node (bind_node [] l li) r ri) ris)))
       (filter (\<lambda>(_, node). node_matches node l) (enumerate 0 (gm_nodes g)))) (\<lambda>bss. Inr (concat bss))"

section \<open>Predicates and projections\<close>

fun object_get :: "json \<Rightarrow> string \<Rightarrow> json option" where
  "object_get (JObj kvs) k = bm_get kvs k"
| "object_get _ k = None"

fun descend :: "json \<Rightarrow> string list \<Rightarrow> json option" where
  "descend v [] = Some v"
| "descend v (p # ps) = (case object_get v p of None \<Rightarrow> None | Some w \<Rightarrow> descend w ps)"

definition property_value :: "(string, json) bmap \<Rightarrow> string \<Rightarrow> json option" where
  "property_value properties path =
     (case split_on (CHR ''.'') path of
        [] \<Rightarrow> None
      | p # ps \<Rightarrow> (case bm_get properties p of None \<Rightarrow> None | Some v \<Rightarrow> descend v ps))"

fun contains_str :: "string \<Rightarrow> string \<Rightarrow> bool" where
  "contains_str [] needle = (needle = [])"
| "contains_str (c # cs) needle = (starts_with needle (c # cs) \<or> contains_str cs needle)"

definition string_predicate :: "json option \<Rightarrow> json \<Rightarrow> (string \<Rightarrow> string \<Rightarrow> bool) \<Rightarrow> bool" where
  "string_predicate actual expected f =
     (case (actual, expected) of (Some (JStr a), JStr e) \<Rightarrow> f a e | _ \<Rightarrow> False)"

definition contains_value :: "json option \<Rightarrow> json \<Rightarrow> bool" where
  "contains_value actual expected =
     (case actual of
        Some (JStr a) \<Rightarrow> (case expected of JStr e \<Rightarrow> contains_str a e | _ \<Rightarrow> False)
      | Some (JArr as) \<Rightarrow> expected \<in> set as
      | _ \<Rightarrow> False)"

definition compare_value :: "predicate_operator \<Rightarrow> json option \<Rightarrow> json \<Rightarrow> bool" where
  "compare_value op actual expected =
     (case op of
        OpEqual \<Rightarrow> actual = Some expected
      | OpNotEqual \<Rightarrow> actual \<noteq> Some expected
      | OpContains \<Rightarrow> contains_value actual expected
      | OpIn \<Rightarrow> (case (expected, actual) of (JArr vs, Some a) \<Rightarrow> a \<in> set vs | _ \<Rightarrow> False)
      | OpStartsWith \<Rightarrow> string_predicate actual expected (\<lambda>a e. starts_with e a)
      | OpEndsWith \<Rightarrow> string_predicate actual expected (\<lambda>a e. ends_with e a))"

definition predicate_matches :: "graph_model \<Rightarrow> binding \<Rightarrow> predicate \<Rightarrow> query_error + bool" where
  "predicate_matches g b p =
     (case bm_get b (pr_alias p) of
        None \<Rightarrow> Inr False
      | Some i \<Rightarrow> rbind (node_at g i) (\<lambda>node.
          Inr (compare_value (pr_operator p) (property_value (n_properties node) (pr_property p)) (pr_value p))))"

fun allr :: "('a \<Rightarrow> 'e + bool) \<Rightarrow> 'a list \<Rightarrow> 'e + bool" where
  "allr f [] = Inr True"
| "allr f (x # xs) = rbind (f x) (\<lambda>b. if b then allr f xs else Inr False)"

fun anyr :: "('a \<Rightarrow> 'e + bool) \<Rightarrow> 'a list \<Rightarrow> 'e + bool" where
  "anyr f [] = Inr False"
| "anyr f (x # xs) = rbind (f x) (\<lambda>b. if b then Inr True else anyr f xs)"

definition model_evaluate :: "graph_model \<Rightarrow> parsed_query \<Rightarrow> query_error + binding list" where
  "model_evaluate g q =
     rbind (case pq_pattern q of
              NodeMatch p \<Rightarrow> Inr (match_node_pattern g p)
            | RelationshipMatch l rel r \<Rightarrow> match_relationship_pattern g l rel r) (\<lambda>bs.
       filterr (\<lambda>b. if pq_predicate_groups q = [] then Inr True
                    else anyr (allr (predicate_matches g b)) (pq_predicate_groups q)) bs)"

definition project :: "graph_model \<Rightarrow> binding \<Rightarrow> return_item \<Rightarrow> query_error + json" where
  "project g b item =
     (case ri_projection item of
        ProjNode a \<Rightarrow>
          (case bm_get b a of
             None \<Rightarrow> Inr JNull
           | Some i \<Rightarrow> rbind (node_at g i) (\<lambda>node. Inr (JObj (n_properties node))))
      | ProjProperty a prop \<Rightarrow>
          (case bm_get b a of
             None \<Rightarrow> Inr JNull
           | Some i \<Rightarrow> rbind (node_at g i) (\<lambda>node.
               Inr (case property_value (n_properties node) prop of None \<Rightarrow> JNull | Some v \<Rightarrow> v))))"

section \<open>The query command\<close>

record query_result =
  qr_columns :: "string list"
  qr_rows :: "json list list"

definition evaluate_query ::
  "(string \<Rightarrow> cst option) \<Rightarrow> (string \<Rightarrow> rat option option) \<Rightarrow> string \<Rightarrow> graph_target list \<Rightarrow> query_error + query_result" where
  "evaluate_query grammar fp text graph =
     rbind (reject_unsupported_statement_prefixes text) (\<lambda>_.
     rbind (opt_err BadSyntax (grammar text)) (\<lambda>tree.
     rbind (reject_unsupported_clauses tree) (\<lambda>_.
     rbind (parse_query fp text) (\<lambda>query.
       let model = from_graph graph in
       rbind (model_evaluate model query) (\<lambda>bindings.
       rbind (mapr (\<lambda>b. mapr (project model b) (pq_returns query)) bindings) (\<lambda>rows.
         Inr \<lparr>qr_columns = map ri_column (pq_returns query), qr_rows = rows\<rparr>))))))"

text \<open>The JSON rendering of a value that is neither a string nor null is the argument \<open>show_json\<close>.\<close>

definition render_value :: "(json \<Rightarrow> string) \<Rightarrow> json \<Rightarrow> string" where
  "render_value show_json v = (case v of JStr s \<Rightarrow> s | JNull \<Rightarrow> ''null'' | _ \<Rightarrow> show_json v)"

definition render_human :: "(json \<Rightarrow> string) \<Rightarrow> query_result \<Rightarrow> string" where
  "render_human show_json r =
     (if qr_rows r = [] then ''query: no rows'' @ [CHR 0x0A]
      else ''query:'' @ [CHR 0x0A] @ ''  '' @ join_with '' | '' (qr_columns r) @ [CHR 0x0A]
           @ concat (map (\<lambda>row. ''  '' @ join_with '' | '' (map (render_value show_json) row) @ [CHR 0x0A]) (qr_rows r)))"

section \<open>Transitive relationships\<close>

definition step_of :: "graph_model \<Rightarrow> relationship_pattern \<Rightarrow> (nat \<times> nat) set" where
  "step_of g rel = {(a, b). \<exists>e\<in>set (gm_edges g). e_ty e = rel_ty rel
     \<and> (case rel_direction rel of LeftToRight \<Rightarrow> a = e_from e \<and> b = e_to e | RightToLeft \<Rightarrow> a = e_to e \<and> b = e_from e)}"

lemma step_of_iff: "(a, b) \<in> step_of g rel \<longleftrightarrow> b \<in> set (neighbors g a rel)"
  by (cases "rel_direction rel") (auto simp: step_of_def neighbors_def List.map_filter_def split: if_splits)

text \<open>The invariant of the search: everything seen is reachable, everything seen but no longer
  queued has its neighbours seen, and the results are what was seen after the start.\<close>

definition bfs_inv :: "graph_model \<Rightarrow> relationship_pattern \<Rightarrow> nat \<Rightarrow> nat list \<Rightarrow> nat list \<Rightarrow> nat list \<Rightarrow> bool" where
  "bfs_inv g rel start seen queue results \<longleftrightarrow>
     start \<in> set seen \<and> set queue \<subseteq> set seen \<and> set results = set seen - {start} \<and> distinct results
     \<and> set seen \<subseteq> (step_of g rel)\<^sup>* `` {start}
     \<and> (\<forall>x\<in>set seen - set queue. set (neighbors g x rel) \<subseteq> set seen)"

lemma bfs_inv_step:
  assumes "bfs_inv g rel start seen (node # queue) results"
    and "foldl visit (seen, queue, results) (neighbors g node rel) = (seen', queue', results')"
  shows "bfs_inv g rel start seen' queue' results'"
proof -
  note inv = assms(1) [unfolded bfs_inv_def]
  obtain new where new: "seen' = rev new @ seen" "queue' = queue @ new" "results' = results @ new" "distinct new"
    "set new = set (neighbors g node rel) - set seen"
    using visit_all [of seen queue results "neighbors g node rel"] assms(2) by auto
  have node: "(start, node) \<in> (step_of g rel)\<^sup>*" using inv by auto
  have "(start, n) \<in> (step_of g rel)\<^sup>*" if "n \<in> set new" for n
    using rtrancl_into_rtrancl [OF node] that new(5) by (simp add: step_of_iff)
  then have "set seen' \<subseteq> (step_of g rel)\<^sup>* `` {start}" using inv new(1) by auto
  moreover have "set (neighbors g x rel) \<subseteq> set seen'" if "x \<in> set seen' - set queue'" for x
  proof (cases "x = node")
    case True
    then show ?thesis using new(1,5) by auto
  next
    case False
    then have "x \<in> set seen - set (node # queue)" using that new(1,2) by auto
    then show ?thesis using inv new(1) by auto
  qed
  moreover have "start \<in> set seen'" "set queue' \<subseteq> set seen'" "distinct results'" "set results' = set seen' - {start}"
    using inv new by auto
  ultimately show ?thesis unfolding bfs_inv_def by blast
qed

lemma bfs_exact:
  "bfs_inv g rel start seen queue results \<Longrightarrow>
     distinct (bfs g rel seen queue results) \<and> set (bfs g rel seen queue results) = (step_of g rel)\<^sup>* `` {start} - {start}"
proof (induction g rel seen queue results rule: bfs.induct)
  case (1 g rel seen results)
  note inv = "1.prems" [unfolded bfs_inv_def]
  have "x \<in> set seen" if "(start, x) \<in> (step_of g rel)\<^sup>*" for x
    using that
  proof (induction rule: rtrancl_induct)
    case (step y z)
    then show ?case using inv by (auto simp: step_of_iff)
  qed (use inv in simp)
  then have "set seen = (step_of g rel)\<^sup>* `` {start}" using inv by auto
  then show ?case using inv by simp
next
  case (2 g rel seen node queue results)
  obtain seen' queue' results' where v: "foldl visit (seen, queue, results) (neighbors g node rel) = (seen', queue', results')"
    by (metis prod_cases3)
  show ?case using "2.IH" [OF v [symmetric] refl bfs_inv_step [OF "2.prems" v]] v by simp
qed

text \<open>C11. A transitive relationship reaches exactly what the graph connects. For every graph and start
  node the breadth-first search ends; it lists, without repetition, precisely the other nodes that a
  chain of one or more edges of the pattern's type, each taken in the pattern's direction, leads to. Without transitivity the
  result is the list of direct neighbours, the nodes one such edge leads to.\<close>

theorem reachable_exact:
  "(if rel_transitive rel
    then distinct (reachable g start rel)
      \<and> set (reachable g start rel) = {n. n \<noteq> start \<and> (start, n) \<in> (step_of g rel)\<^sup>+}
    else reachable g start rel = neighbors g start rel
      \<and> set (reachable g start rel) = {n. (start, n) \<in> step_of g rel})"
proof (cases "rel_transitive rel")
  case True
  have "bfs_inv g rel start [start] [start] []" by (simp add: bfs_inv_def)
  note b = bfs_exact [OF this]
  have "(step_of g rel)\<^sup>* `` {start} - {start} = {n. n \<noteq> start \<and> (start, n) \<in> (step_of g rel)\<^sup>+}"
    by (auto simp: rtrancl_eq_or_trancl)
  then show ?thesis using b True by (simp add: reachable_def)
qed (simp add: reachable_def step_of_iff)

section \<open>Every index is in range\<close>

definition model_ok :: "graph_model \<Rightarrow> bool" where
  "model_ok g \<longleftrightarrow> (\<forall>e\<in>set (gm_edges g). e_from e < length (gm_nodes g) \<and> e_to e < length (gm_nodes g))"

definition indices_ok :: "(string, nat) bmap \<Rightarrow> nat \<Rightarrow> bool" where
  "indices_ok b n \<longleftrightarrow> (\<forall>(k, i)\<in>set b. i < n)"

lemma indices_ok_get: "indices_ok b n \<Longrightarrow> bm_get b k = Some i \<Longrightarrow> i < n"
  by (auto simp: indices_ok_def bm_get_def dest!: map_of_SomeD)

lemma indices_ok_insert: "indices_ok b n \<Longrightarrow> i < n \<Longrightarrow> indices_ok (bm_insert k i b) n"
  using bm_insert_entries [of k i b] by (force simp: indices_ok_def)

lemma indices_ok_mono: "indices_ok b n \<Longrightarrow> n \<le> m \<Longrightarrow> indices_ok b m"
  by (fastforce simp: indices_ok_def)

lemma indices_ok_targets:
  "index_targets ts indices nodes = (indices', nodes') \<Longrightarrow> indices_ok indices (length nodes) \<Longrightarrow> indices_ok indices' (length nodes')"
proof (induction ts indices nodes rule: index_targets.induct)
  case (2 t ts indices nodes)
  have "indices_ok (bm_insert (gt_id t) (length nodes) indices) (Suc (length nodes))"
    by (intro indices_ok_insert indices_ok_mono [OF "2.prems"(2)]) simp_all
  then show ?case using "2.IH" "2.prems"(1) by simp
qed simp

lemma add_owned_ok:
  assumes "model_ok g" and "ti < length (gm_nodes g)"
  shows "model_ok (foldl (add_owned ti ty) g nodes)" and "length (gm_nodes g) \<le> length (gm_nodes (foldl (add_owned ti ty) g nodes))"
proof -
  have "model_ok (foldl (add_owned ti ty) g nodes) \<and> length (gm_nodes g) \<le> length (gm_nodes (foldl (add_owned ti ty) g nodes))"
    using assms
  proof (induction nodes arbitrary: g)
    case (Cons n nodes)
    have "model_ok (add_owned ti ty g n)" using Cons.prems by (auto simp: add_owned_def model_ok_def less_Suc_eq)
    moreover have "length (gm_nodes (add_owned ti ty g n)) = Suc (length (gm_nodes g))" by (simp add: add_owned_def)
    ultimately show ?case using Cons.IH [of "add_owned ti ty g n"] Cons.prems(2) by simp
  qed simp
  then show "model_ok (foldl (add_owned ti ty) g nodes)" "length (gm_nodes g) \<le> length (gm_nodes (foldl (add_owned ti ty) g nodes))"
    by blast+
qed

lemma add_targets_ok:
  "model_ok g \<Longrightarrow> indices_ok indices (length (gm_nodes g)) \<Longrightarrow> model_ok (add_targets indices ts g)"
proof (induction indices ts g rule: add_targets.induct)
  case (2 indices t ts g)
  show ?case
  proof (cases "bm_get indices (gt_id t)")
    case None
    then show ?thesis using 2 by simp
  next
    case (Some ti)
    define g1 where "g1 = g\<lparr>gm_edges := gm_edges g @ dependency_edges_of indices ti t\<rparr>"
    define g2 where "g2 = foldl (add_owned ti ''EXPOSES'') g1 (map (capability_node t) (gt_capabilities t))"
    define g3 where "g3 = foldl (add_owned ti ''EMITS'') g2 (map (provider_node t) (gt_providers t))"
    have ti: "ti < length (gm_nodes g)" using indices_ok_get [OF "2.prems"(2) Some] .
    have n1: "gm_nodes g1 = gm_nodes g" by (simp add: g1_def)
    have "model_ok g1"
      using "2.prems" ti by (auto simp: g1_def model_ok_def dependency_edges_of_def List.map_filter_def dest: indices_ok_get)
    then have g2: "model_ok g2" "length (gm_nodes g) \<le> length (gm_nodes g2)"
      using add_owned_ok ti by (simp_all add: g2_def flip: n1)
    then have g3: "model_ok g3" "length (gm_nodes g2) \<le> length (gm_nodes g3)"
      using add_owned_ok [OF g2(1)] ti by (simp_all add: g3_def)
    have c: "(case bm_get indices (gt_id t) of None \<Rightarrow> g | Some ti \<Rightarrow>
        (let g1 = g\<lparr>gm_edges := gm_edges g @ dependency_edges_of indices ti t\<rparr>;
             g2 = foldl (add_owned ti ''EXPOSES'') g1 (map (capability_node t) (gt_capabilities t))
         in foldl (add_owned ti ''EMITS'') g2 (map (provider_node t) (gt_providers t)))) = g3"
      using Some by (simp add: g1_def g2_def g3_def)
    have "indices_ok indices (length (gm_nodes g3))" using indices_ok_mono [OF "2.prems"(2)] g2(2) g3(2) by simp
    then show ?thesis using "2.IH" [unfolded c, OF g3(1)] unfolding add_targets.simps c by simp
  qed
qed simp

lemma from_graph_ok: "model_ok (from_graph ts)"
proof -
  obtain indices nodes where i: "index_targets ts [] [] = (indices, nodes)" by fastforce
  have "indices_ok indices (length nodes)" using indices_ok_targets [OF i] by (simp add: indices_ok_def)
  then show ?thesis using add_targets_ok by (simp add: from_graph_def i model_ok_def)
qed

lemma reachable_in_range:
  assumes "model_ok g" and "n \<in> set (reachable g start rel)"
  shows "n < length (gm_nodes g)"
proof -
  have nb: "m < length (gm_nodes g)" if "m \<in> set (neighbors g a rel)" for m a
    using assms(1) that neighbors_endpoints [of g a rel] by (auto simp: model_ok_def endpoints_def)
  show ?thesis
  proof (cases "rel_transitive rel")
    case True
    have "bfs_inv g rel start [start] [start] []" by (simp add: bfs_inv_def)
    from bfs_exact [OF this] have "n \<in> (step_of g rel)\<^sup>* `` {start} - {start}"
      using assms(2) True by (simp add: reachable_def del: bfs.simps)
    then have "(start, n) \<in> (step_of g rel)\<^sup>*" "n \<noteq> start" by auto
    then obtain a where "(a, n) \<in> step_of g rel" by (metis rtranclE)
    then show ?thesis using nb by (simp add: step_of_iff)
  qed (use nb assms(2) in \<open>simp add: reachable_def\<close>)
qed

lemma safe_node_in_range: "i < length (gm_nodes g) \<Longrightarrow> safe (node_at g i)"
  by (simp add: node_at_def)

lemma safe_filterr: "(\<And>x. x \<in> set xs \<Longrightarrow> safe (f x)) \<Longrightarrow> safe (filterr f xs)"
proof (induction xs)
  case (Cons x xs)
  then show ?case unfolding filterr.simps by (intro safe_rbind) auto
qed simp

lemma filterr_subset: "filterr f xs = Inr ys \<Longrightarrow> set ys \<subseteq> set xs"
  by (induction xs arbitrary: ys) (auto simp: rbind_Inr split: if_splits)

lemma safe_allr: "(\<And>x. x \<in> set xs \<Longrightarrow> safe (f x)) \<Longrightarrow> safe (allr f xs)"
proof (induction xs)
  case (Cons x xs)
  then show ?case unfolding allr.simps by (intro safe_rbind safe_if) auto
qed simp

lemma safe_anyr: "(\<And>x. x \<in> set xs \<Longrightarrow> safe (f x)) \<Longrightarrow> safe (anyr f xs)"
proof (induction xs)
  case (Cons x xs)
  then show ?case unfolding anyr.simps by (intro safe_rbind safe_if) auto
qed simp

lemma mapr_Inr: "mapr f xs = Inr ys \<longleftrightarrow> list_all2 (\<lambda>x y. f x = Inr y) xs ys"
  by (induction xs arbitrary: ys) (auto simp: rbind_Inr list_all2_Cons1)

lemma mapr_member: "mapr f xs = Inr ys \<Longrightarrow> y \<in> set ys \<Longrightarrow> \<exists>x\<in>set xs. f x = Inr y"
proof (induction xs arbitrary: ys)
  case (Cons x xs)
  then show ?case by (auto simp: rbind_Inr)
qed simp

lemma indices_ok_bind: "indices_ok b n \<Longrightarrow> i < n \<Longrightarrow> indices_ok (bind_node b p i) n"
  by (simp add: bind_node_def indices_ok_insert split: option.split)

lemma indices_ok_Nil [simp]: "indices_ok [] n"
  by (simp add: indices_ok_def)

lemma match_node_in_range:
  "b \<in> set (match_node_pattern g p) \<Longrightarrow> indices_ok b (length (gm_nodes g))"
  by (auto simp: match_node_pattern_def in_set_enumerate_eq intro!: indices_ok_bind)

lemma match_relationship_in_range:
  assumes "model_ok g"
  shows "safe (match_relationship_pattern g l rel r)"
    and "match_relationship_pattern g l rel r = Inr bs \<Longrightarrow> b \<in> set bs \<Longrightarrow> indices_ok b (length (gm_nodes g))"
proof -
  show "safe (match_relationship_pattern g l rel r)"
    unfolding match_relationship_pattern_def
    by (intro safe_rbind safe_mapr safe_case_prod safe_filterr safe_node_in_range)
      (auto dest: reachable_in_range [OF assms])
  assume m: "match_relationship_pattern g l rel r = Inr bs" and b: "b \<in> set bs"
  obtain bss where bss: "bs = concat bss" "mapr (\<lambda>(li, _).
         rbind (filterr (\<lambda>ri. rbind (node_at g ri) (\<lambda>node. Inr (node_matches node r))) (reachable g li rel)) (\<lambda>ris.
           Inr (map (\<lambda>ri. bind_node (bind_node [] l li) r ri) ris)))
       (filter (\<lambda>(_, node). node_matches node l) (enumerate 0 (gm_nodes g))) = Inr bss"
    using m by (auto simp: match_relationship_pattern_def rbind_Inr)
  obtain row where row: "row \<in> set bss" "b \<in> set row" using b bss(1) by auto
  from mapr_member [OF bss(2) row(1)] obtain x where x: "x \<in> set (filter (\<lambda>(_, node). node_matches node l) (enumerate 0 (gm_nodes g)))"
    "(case x of (li, _) \<Rightarrow>
         rbind (filterr (\<lambda>ri. rbind (node_at g ri) (\<lambda>node. Inr (node_matches node r))) (reachable g li rel)) (\<lambda>ris.
           Inr (map (\<lambda>ri. bind_node (bind_node [] l li) r ri) ris))) = Inr row" by blast
  obtain li node where ln: "x = (li, node)" by (cases x)
  obtain ris where li: "(li, node) \<in> set (enumerate 0 (gm_nodes g))"
    "filterr (\<lambda>ri. rbind (node_at g ri) (\<lambda>node. Inr (node_matches node r))) (reachable g li rel) = Inr ris"
    "row = map (\<lambda>ri. bind_node (bind_node [] l li) r ri) ris"
    using x unfolding ln by (auto simp: rbind_Inr)
  have "li < length (gm_nodes g)" using li(1) by (simp add: in_set_enumerate_eq)
  moreover have "ri < length (gm_nodes g)" if "ri \<in> set ris" for ri
    using reachable_in_range [OF assms] filterr_subset [OF li(2)] that by blast
  ultimately show "indices_ok b (length (gm_nodes g))" using row(2) li(3) by (auto intro!: indices_ok_bind)
qed

lemma model_evaluate_in_range:
  assumes "model_ok g"
  shows "safe (model_evaluate g q)"
    and "model_evaluate g q = Inr bs \<Longrightarrow> b \<in> set bs \<Longrightarrow> indices_ok b (length (gm_nodes g))"
proof -
  let ?m = "case pq_pattern q of NodeMatch p \<Rightarrow> Inr (match_node_pattern g p)
     | RelationshipMatch l rel r \<Rightarrow> match_relationship_pattern g l rel r"
  have m: "safe ?m" "?m = Inr bs \<Longrightarrow> b \<in> set bs \<Longrightarrow> indices_ok b (length (gm_nodes g))" for bs b
    using match_relationship_in_range [OF assms] match_node_in_range by (cases "pq_pattern q"; auto)+
  have pm: "safe (predicate_matches g b p)" if "indices_ok b (length (gm_nodes g))" for b p
    unfolding predicate_matches_def
    by (intro safe_case_option safe_rbind safe_node_in_range) (auto dest: indices_ok_get [OF that])
  show "safe (model_evaluate g q)"
    unfolding model_evaluate_def
    by (intro safe_rbind m(1) safe_filterr safe_if safe_anyr safe_allr) (auto intro: pm m(2))
  show "indices_ok b (length (gm_nodes g))" if ev: "model_evaluate g q = Inr bs" and b: "b \<in> set bs"
  proof -
    obtain bs0 where "?m = Inr bs0" "set bs \<subseteq> set bs0"
      using ev filterr_subset unfolding model_evaluate_def rbind_Inr by blast
    then show ?thesis using m(2) b by blast
  qed
qed

lemma safe_project: "indices_ok b (length (gm_nodes g)) \<Longrightarrow> safe (project g b item)"
  unfolding project_def
  by (cases "ri_projection item") (auto intro!: safe_case_option safe_rbind safe_node_in_range dest: indices_ok_get)

text \<open>A prefix is compared through \<open>get\<close>, so the slices of the boundary test cut the text where \<open>get\<close> did.\<close>

lemma safe_starts_with_keyword: "safe (starts_with_keyword inp kw)"
proof (cases "str_get inp 0 (length kw)")
  case None
  then show ?thesis by (simp add: starts_with_keyword_def)
next
  case (Some part)
  then have cut: "is_char_boundary inp (length kw)" by (simp add: str_get_def split: if_splits)
  have "safe (keyword_boundary inp 0 (length kw))"
    unfolding keyword_boundary_def add_0 by (intro safe_rbind safe_slice cut) (simp_all add: boundary_le [OF cut])
  then show ?thesis using Some by (simp add: starts_with_keyword_def)
qed

lemma safe_reject: "safe (reject_unsupported_statement_prefixes text)" "safe (reject_nodes nodes)"
proof -
  have "safe (reject_prefixes q clauses)" for q clauses
    by (induction clauses) (auto intro!: safe_rbind safe_if safe_starts_with_keyword)
  then show "safe (reject_unsupported_statement_prefixes text)" by (simp add: reject_unsupported_statement_prefixes_def)
  show "safe (reject_nodes nodes)" by (induction nodes rule: reject_nodes.induct) auto
qed

lemma length_mapr: "mapr f xs = Inr ys \<Longrightarrow> length ys = length xs"
  by (auto simp: mapr_Inr dest: list_all2_lengthD)

text \<open>C25. Queries are type safe from text to table. Whatever the grammar, the decimal conversion, the
  query text (any valid UTF-8) and the target graph are, the query command reports an error or returns a table; it
  never slices the text inside a character and never indexes a node that does not exist: the parser does not panic, every edge of the graph it
  builds joins two of its nodes, and every binding points into it. Each row of the table has exactly
  one value per column.\<close>

theorem evaluate_query_type_safe:
  assumes "is_str text"
  shows "case evaluate_query grammar fp text graph of
     Inl e \<Rightarrow> e \<noteq> Panic
   | Inr r \<Rightarrow> list_all (\<lambda>row. length row = length (qr_columns r)) (qr_rows r)"
proof (cases "evaluate_query grammar fp text graph")
  case (Inl e)
  note ok = model_evaluate_in_range [OF from_graph_ok [of graph]]
  have "safe (evaluate_query grammar fp text graph)"
    unfolding evaluate_query_def Let_def reject_unsupported_clauses_def
    by (intro safe_rbind safe_reject safe_opt_err safe_parse_query assms ok(1) safe_mapr safe_project) (auto intro: ok(2))
  then show ?thesis using Inl by simp
next
  case (Inr r)
  let ?g = "from_graph graph"
  obtain q :: parsed_query and bs rows where q: "mapr (\<lambda>b. mapr (project ?g b) (pq_returns q)) bs = Inr rows"
    "r = \<lparr>qr_columns = map ri_column (pq_returns q), qr_rows = rows\<rparr>"
    using Inr unfolding evaluate_query_def Let_def rbind_Inr sum.inject eq_commute [of _ r] by blast
  have "length row = length (qr_columns r)" if row: "row \<in> set rows" for row
  proof -
    from mapr_member [OF q(1) row] obtain b where "mapr (project ?g b) (pq_returns q) = Inr row" by auto
    from length_mapr [OF this] show ?thesis by (simp add: q(2))
  qed
  then show ?thesis using Inr q(2) by (simp add: list_all_iff)
qed

theorem evaluate_query_type_safe_witness:
  "let text = ''MATCH (n) WHERE n.x = '' @ map char_of [0x27, 0xE2, 0x82, 0xAC, 0x27 :: nat] @ '' RETURN n'' in
   is_str text \<and> (case evaluate_query (\<lambda>_. Some (Cst ''source'' [])) (\<lambda>_. None) text [] of
     Inl e \<Rightarrow> e \<noteq> Panic
   | Inr r \<Rightarrow> list_all (\<lambda>row. length row = length (qr_columns r)) (qr_rows r))"
  unfolding Let_def
proof (intro conjI evaluate_query_type_safe)
qed code_simp+

end
