(* ===== verification/Environment.thy ===== *)
theory Environment
  imports Text_Utils
begin

text \<open>
  Recognizing continuous integration and its branch from environment variables:
  \<open>crates/once-events-client/src/environment.rs\<close>. An environment maps names to values; a value
  that is not Unicode is visible to \<open>var_os\<close> but not to \<open>var\<close>.
\<close>

datatype env_value = Unicode string | NotUnicode

type_synonym environment = "string \<Rightarrow> env_value option"

definition var_os_is_some :: "environment \<Rightarrow> string \<Rightarrow> bool" where
  "var_os_is_some env name \<longleftrightarrow> env name \<noteq> None"

definition var_ok :: "environment \<Rightarrow> string \<Rightarrow> string option" where
  "var_ok env name = (case env name of Some (Unicode s) \<Rightarrow> Some s | _ \<Rightarrow> None)"

definition ci_provider_variables :: "string list" where
  "ci_provider_variables =
     [''GITHUB_RUN_ID'', ''CIRCLECI'', ''BITRISE_IO'', ''BUILDKITE'', ''GITLAB_CI'', ''TF_BUILD'',
      ''TEAMCITY_VERSION'', ''CODEBUILD_BUILD_ID'', ''TRAVIS'', ''APPVEYOR'', ''DRONE'', ''BITBUCKET_BUILD_NUMBER'']"

definition jenkins_job_variables :: "string list" where
  "jenkins_job_variables = [''JENKINS_URL'', ''BUILD_NUMBER'']"

definition ci_truthy_values :: "string list" where
  "ci_truthy_values = [''1'', ''true'', ''yes'', ''on'']"

definition is_ci :: "environment \<Rightarrow> bool" where
  "is_ci env =
     (if list_ex (var_os_is_some env) ci_provider_variables then True
      else if list_all (var_os_is_some env) jenkins_job_variables then True
      else case var_ok env ''CI'' of
        None \<Rightarrow> False
      | Some v \<Rightarrow> list_ex (\<lambda>truthy. eq_ignore_ascii_case (trim v) truthy) ci_truthy_values)"

definition ci_branch_variables :: "string list" where
  "ci_branch_variables =
     [''GITHUB_HEAD_REF'', ''GITHUB_REF_NAME'', ''CI_MERGE_REQUEST_SOURCE_BRANCH_NAME'', ''CI_COMMIT_BRANCH'',
      ''BUILDKITE_BRANCH'', ''CIRCLE_BRANCH'', ''BITRISE_GIT_BRANCH'', ''BITBUCKET_BRANCH'',
      ''SYSTEM_PULLREQUEST_SOURCEBRANCH'', ''BUILD_SOURCEBRANCH'', ''TRAVIS_PULL_REQUEST_BRANCH'', ''TRAVIS_BRANCH'',
      ''APPVEYOR_PULL_REQUEST_HEAD_REPO_BRANCH'', ''APPVEYOR_REPO_BRANCH'', ''DRONE_SOURCE_BRANCH'', ''DRONE_BRANCH'',
      ''CODEBUILD_WEBHOOK_HEAD_REF'', ''CHANGE_BRANCH'', ''BRANCH_NAME'']"

definition tag_variables :: "(string \<times> string) list" where
  "tag_variables =
     [(''BUILDKITE_BRANCH'', ''BUILDKITE_TAG''), (''CIRCLE_BRANCH'', ''CIRCLE_TAG''), (''BITBUCKET_BRANCH'', ''BITBUCKET_TAG''),
      (''TRAVIS_BRANCH'', ''TRAVIS_TAG''), (''DRONE_BRANCH'', ''DRONE_TAG''), (''BRANCH_NAME'', ''TAG_NAME''),
      (''BITRISE_GIT_BRANCH'', ''BITRISE_GIT_TAG'')]"

text \<open>Whether the job was started for a tag, as the variables beside \<open>name\<close> say.\<close>

definition names_a_tag :: "(string \<Rightarrow> string option) \<Rightarrow> string \<Rightarrow> bool" where
  "names_a_tag lookup name \<longleftrightarrow>
     (case map_of tag_variables name of
        None \<Rightarrow> False
      | Some tag \<Rightarrow> (case lookup tag of None \<Rightarrow> False | Some v \<Rightarrow> trim v \<noteq> []))
     \<or> name = ''APPVEYOR_REPO_BRANCH''
       \<and> (case lookup ''APPVEYOR_REPO_TAG'' of None \<Rightarrow> False | Some v \<Rightarrow> eq_ignore_ascii_case v ''true'')"

definition branch_of_value :: "string \<Rightarrow> string option" where
  "branch_of_value v =
     (let branch0 = trim v;
          branch = (case strip_prefix ''refs/heads/'' branch0 of Some b \<Rightarrow> b | None \<Rightarrow> branch0)
      in if branch \<noteq> [] \<and> \<not> starts_with ''refs/'' branch then Some branch else None)"

definition branch_from :: "(string \<Rightarrow> string option) \<Rightarrow> string \<Rightarrow> string option" where
  "branch_from lookup name =
     (if name = ''GITHUB_REF_NAME'' \<and> lookup ''GITHUB_REF_TYPE'' \<noteq> Some ''branch'' then None
      else if names_a_tag lookup name then None
      else case lookup name of None \<Rightarrow> None | Some v \<Rightarrow> branch_of_value v)"

fun find_map :: "('a \<Rightarrow> 'b option) \<Rightarrow> 'a list \<Rightarrow> 'b option" where
  "find_map f [] = None"
| "find_map f (x # xs) = (case f x of Some y \<Rightarrow> Some y | None \<Rightarrow> find_map f xs)"

definition ci_branch_from :: "(string \<Rightarrow> string option) \<Rightarrow> string option" where
  "ci_branch_from lookup = find_map (branch_from lookup) ci_branch_variables"

definition ci_branch :: "environment \<Rightarrow> string option" where
  "ci_branch env = (if \<not> is_ci env then None else ci_branch_from (var_ok env))"

lemma find_map_Some:
  "find_map f xs = Some y \<longleftrightarrow> (\<exists>i<length xs. f (xs ! i) = Some y \<and> (\<forall>j<i. f (xs ! j) = None))"
proof (induction xs)
  case (Cons x xs)
  show ?case
  proof (cases "f x")
    case None
    then show ?thesis using Cons by (auto simp: Ex_less_Suc2 All_less_Suc2)
  next
    case (Some z)
    then show ?thesis by (auto simp: Ex_less_Suc2 All_less_Suc2)
  qed
qed simp

lemma find_map_None: "find_map f xs = None \<longleftrightarrow> (\<forall>x\<in>set xs. f x = None)"
  by (induction xs) (auto split: option.split)

text \<open>A trimmed text ends with no white space character.\<close>

lemma trim_no_whitespace:
  assumes "is_str s" and "is_whitespace w"
  shows "trim s \<noteq> u @ w"
proof
  assume eq: "trim s = u @ w"
  let ?cs = "str_chars (trim_start s)"
  let ?kept = "rev (dropWhile is_whitespace (rev ?cs))"
  have run: "char_run w" using assms(2) utf8_char_run by (simp add: is_whitespace_def)
  have "list_all char_run ?cs"
    using is_str_trim_start [OF assms(1)] utf8_char_run by (auto simp: is_str_def list_all_iff)
  then have "str_chars (concat ?kept) = ?kept"
    by (intro str_chars_concat) (auto simp: list_all_iff dest: set_dropWhileD)
  then have "?kept = str_chars (u @ w)" using eq by (simp add: trim_def trim_end_def)
  also have "\<dots> = str_chars u @ [w]"
    using run str_chars_append [of w u] str_chars_concat [of "[w]"] by (simp add: char_run_def)
  finally have "dropWhile is_whitespace (rev ?cs) = w # rev (str_chars u)" by (metis rev_rev_ident rev_append rev_singleton_conv append_Cons append_Nil)
  then show False using hd_dropWhile [of is_whitespace "rev ?cs"] assms(2) by simp
qed

lemma branch_of_value_Some:
  assumes "branch_of_value v = Some b" and "is_str v"
  shows "b \<noteq> []" and "\<not> starts_with ''refs/'' b" and "is_whitespace w \<Longrightarrow> \<not> ends_with w b"
proof -
  have b: "b \<noteq> []" "\<not> starts_with ''refs/'' b" "b = trim v \<or> strip_prefix ''refs/heads/'' (trim v) = Some b"
    using assms(1) by (auto simp: branch_of_value_def Let_def split: if_splits option.splits)
  then show "b \<noteq> []" "\<not> starts_with ''refs/'' b" by blast+
  have "trim v = b \<or> trim v = ''refs/heads/'' @ b" using b(3) by (auto simp: strip_prefix_Some)
  then obtain p where p: "trim v = p @ b" by (metis append_Nil)
  assume w: "is_whitespace w"
  show "\<not> ends_with w b"
  proof
    assume "ends_with w b"
    then obtain u where "b = u @ w" by (auto simp: ends_with_iff)
    then show False using p trim_no_whitespace [OF assms(2) w, of "p @ u"] by simp
  qed
qed

text \<open>The branch is only read on continuous integration, and in the documented order. Off it the answer
  is nothing, whatever branch variables are exported. On it the answer is the branch of the first
  variable that yields one, with every earlier variable yielding none, and it is a non-empty name
  without trailing white space that is no longer a full reference; the answer is nothing only when
  no variable yields a branch.\<close>

theorem ci_branch_precedence:
  assumes "\<And>n v. var_ok env n = Some v \<Longrightarrow> is_str v"
  shows "if is_ci env
   then (case ci_branch env of
           None \<Rightarrow> list_all (\<lambda>n. branch_from (var_ok env) n = None) ci_branch_variables
         | Some b \<Rightarrow> b \<noteq> [] \<and> \<not> starts_with ''refs/'' b \<and> (\<forall>w. is_whitespace w \<longrightarrow> \<not> ends_with w b)
             \<and> (\<exists>i<length ci_branch_variables. branch_from (var_ok env) (ci_branch_variables ! i) = Some b
                  \<and> list_all (\<lambda>n. branch_from (var_ok env) n = None) (take i ci_branch_variables)))
   else ci_branch env = None"
proof (cases "is_ci env")
  case True
  then have c: "ci_branch env = find_map (branch_from (var_ok env)) ci_branch_variables"
    by (simp add: ci_branch_def ci_branch_from_def)
  show ?thesis
  proof (cases "ci_branch env")
    case None
    then have "list_all (\<lambda>n. branch_from (var_ok env) n = None) ci_branch_variables"
      unfolding c by (simp add: find_map_None list_all_iff)
    then show ?thesis using True None by simp
  next
    case (Some b)
    obtain i where i: "i < length ci_branch_variables" "branch_from (var_ok env) (ci_branch_variables ! i) = Some b"
      "\<forall>j<i. branch_from (var_ok env) (ci_branch_variables ! j) = None"
      using Some unfolding c find_map_Some by blast
    obtain v where "branch_of_value v = Some b" "is_str v"
      using i(2) assms by (auto simp: branch_from_def split: if_splits option.splits)
    note b = branch_of_value_Some [OF this]
    have "list_all (\<lambda>n. branch_from (var_ok env) n = None) (take i ci_branch_variables)"
      using i(1,3) by (auto simp: list_all_length)
    then show ?thesis using True Some b i(1,2) by auto
  qed
qed (simp add: ci_branch_def)

end
