(* ===== verification/Remote_Limits.thy ===== *)
theory Remote_Limits
  imports Resource_Request
begin

text \<open>
  The limits of remote execution on buffers, archives and metadata:
  \<open>crates/once-core/src/executor/io.rs\<close>, with the checks against them of
  \<open>crates/once-core/src/remote/http.rs\<close> and \<open>remote/archive/limits.rs\<close>. Durations are seconds.
\<close>

record remote_io_limits =
  max_response_bytes :: nat
  max_archive_bytes :: nat
  max_archive_expansion_ratio :: nat
  max_staging_bytes :: nat
  max_capture_bytes :: nat
  max_capture_staging_bytes :: nat
  max_archive_entries :: nat
  max_metadata_bytes :: nat
  stall_timeout :: nat
  upload_ack_timeout :: nat
  artifact_download_timeout :: nat
  command_idle_timeout :: "nat option"

definition remote_limits_default :: remote_io_limits where
  "remote_limits_default =
     \<lparr>max_response_bytes = DEFAULT_ACTION_MEMORY_BYTES div 16,
      max_archive_bytes = 4 * 1024 * 1024 * 1024,
      max_archive_expansion_ratio = 64,
      max_staging_bytes = 8 * 1024 * 1024 * 1024,
      max_capture_bytes = 1024 * 1024 * 1024,
      max_capture_staging_bytes = 8 * 1024 * 1024 * 1024,
      max_archive_entries = 1000000,
      max_metadata_bytes = DEFAULT_ACTION_MEMORY_BYTES div 4,
      stall_timeout = 30,
      upload_ack_timeout = 5 * 60,
      artifact_download_timeout = 30 * 60,
      command_idle_timeout = None\<rparr>"

definition for_memory :: "remote_io_limits \<Rightarrow> nat \<Rightarrow> remote_io_limits" where
  "for_memory l memory_bytes =
     (let memory = (if memory_bytes = 0 then DEFAULT_ACTION_MEMORY_BYTES else memory_bytes)
      in l\<lparr>max_response_bytes := min (max_response_bytes l) (memory div 16),
           max_metadata_bytes := min (max_metadata_bytes l) (memory div 4)\<rparr>)"

definition control_bytes :: "remote_io_limits \<Rightarrow> nat" where
  "control_bytes l = min (max_response_bytes l) (64 * 1024)"

text \<open>Exceeding a limit is an error that names the resource.\<close>

datatype limit_error = ResourceLimit string nat

definition check_size :: "nat \<Rightarrow> nat \<Rightarrow> string \<Rightarrow> limit_error + unit" where
  "check_size sz limit resource = (if sz > limit then Inl (ResourceLimit resource limit) else Inr ())"

definition check_entries :: "nat \<Rightarrow> nat \<Rightarrow> limit_error + unit" where
  "check_entries count limit = check_size count limit ''archive entries''"

section \<open>The limited writer\<close>

record limited_writer =
  lw_written :: nat
  lw_limit :: nat

definition limited_writer_new :: "nat \<Rightarrow> limited_writer" where
  "limited_writer_new limit = \<lparr>lw_written = 0, lw_limit = limit\<rparr>"

text \<open>The wrapped writer takes some of the bytes it is offered; \<open>None\<close> is the overflow of the plain
  addition.\<close>

definition limited_write :: "(nat \<Rightarrow> nat) \<Rightarrow> limited_writer \<Rightarrow> nat \<Rightarrow> (limited_writer \<times> (limit_error + nat)) option" where
  "limited_write inner w len =
     (if sat_add (lw_written w) len > lw_limit w then Some (w, Inl (ResourceLimit ''archive bytes'' (lw_limit w)))
      else let written = inner len
           in map_option (\<lambda>total. (w\<lparr>lw_written := total\<rparr>, Inr written)) (checked_add (lw_written w) written))"

lemma limited_write_bounds:
  assumes "inner len \<le> len" and "lw_written w \<le> lw_limit w" and "lw_limit w < u64_max"
  shows "\<exists>w' r. limited_write inner w len = Some (w', r) \<and> lw_written w' \<le> lw_limit w' \<and> lw_limit w' = lw_limit w"
  using assms by (auto simp: limited_write_def Let_def checked_add_def sat_add_def min_def split: if_splits)

lemma for_memory_tightens:
  "max_response_bytes (for_memory l m) \<le> max_response_bytes l \<and> max_metadata_bytes (for_memory l m) \<le> max_metadata_bytes l
   \<and> control_bytes (for_memory l m) \<le> control_bytes l"
  by (simp add: for_memory_def control_bytes_def Let_def)

end
