(* ===== verification/Byte_Codec.thy ===== *)
theory Byte_Codec
  imports Text_Utils
begin

text \<open>
  Bytes and the parts of the standard library the binary formats use: little- and big-endian integers
  (\<open>to_le_bytes\<close>, \<open>from_le_bytes\<close>, \<open>from_be_bytes\<close>), UTF-8 validity (\<open>std::str::from_utf8\<close>), and
  reading an exact number of bytes (\<open>Read::read_exact\<close>). A byte is a number below 256; a string is its bytes.
\<close>

type_synonym byte = nat

fun le_value :: "byte list \<Rightarrow> nat" where
  "le_value [] = 0"
| "le_value (b # bs) = b + 256 * le_value bs"

fun le_bytes :: "nat \<Rightarrow> nat \<Rightarrow> byte list" where
  "le_bytes 0 n = []"
| "le_bytes (Suc k) n = (n mod 256) # le_bytes k (n div 256)"

definition be_value :: "byte list \<Rightarrow> nat" where
  "be_value bs = le_value (rev bs)"

definition be_bytes :: "nat \<Rightarrow> nat \<Rightarrow> byte list" where
  "be_bytes k n = rev (le_bytes k n)"

lemma length_le_bytes [simp]: "length (le_bytes k n) = k"
  by (induction k arbitrary: n) simp_all

lemma le_value_bytes: "n < 256 ^ k \<Longrightarrow> le_value (le_bytes k n) = n"
  by (induction k arbitrary: n) (simp_all add: less_mult_imp_div_less mult.commute)

lemma length_be_bytes [simp]: "length (be_bytes k n) = k"
  by (simp add: be_bytes_def)

lemma be_value_bytes: "n < 256 ^ k \<Longrightarrow> be_value (be_bytes k n) = n"
  by (simp add: be_value_def be_bytes_def le_value_bytes)

section \<open>Text\<close>

definition text_bytes :: "string \<Rightarrow> byte list" where
  "text_bytes s = map of_char s"

definition bytes_text :: "byte list \<Rightarrow> string" where
  "bytes_text bs = map char_of bs"

lemma bytes_text_bytes [simp]: "bytes_text (text_bytes s) = s"
  by (simp add: bytes_text_def text_bytes_def comp_def)

lemma length_text_bytes [simp]: "length (text_bytes s) = length s"
  by (simp add: text_bytes_def)

definition valid_utf8 :: "byte list \<Rightarrow> bool" where
  "valid_utf8 bs \<longleftrightarrow> list_all (\<lambda>b. b < 256) bs \<and> is_str (bytes_text bs)"

lemma valid_utf8_text: "valid_utf8 (text_bytes s) \<longleftrightarrow> is_str s"
  unfolding valid_utf8_def bytes_text_bytes by (simp add: text_bytes_def list_all_iff)

section \<open>Exact reads\<close>

definition read_exact :: "nat \<Rightarrow> byte list \<Rightarrow> (byte list \<times> byte list) option" where
  "read_exact n r = (if n \<le> length r then Some (take n r, drop n r) else None)"

lemma read_exact_append [simp]: "length bs = n \<Longrightarrow> read_exact n (bs @ r) = Some (bs, r)"
  by (auto simp: read_exact_def)

lemma read_exact_Some: "read_exact n r = Some (bs, r') \<Longrightarrow> r = bs @ r' \<and> length bs = n"
  by (auto simp: read_exact_def split: if_splits)

end
