(* ===== verification/Zip_Preflight.thy ===== *)
theory Zip_Preflight
  imports Remote_Limits Byte_Codec
begin

text \<open>
  Bounding the metadata of a downloaded ZIP archive before the decoder opens it:
  \<open>crates/once-core/src/execute/zip_preflight.rs\<close>. A file is its list of bytes. The system may
  answer \<open>read\<close> with fewer bytes than asked for, so the scan takes the sequence of non-empty
  chunks the reads return. Indexing out of range is the error \<open>ZipPanic\<close>. Input/output errors of
  the file are not modelled.
\<close>

datatype zip_error = ZipPanic | Malformed | UnsupportedZip | MetadataLimit | EntryLimit

record central_directory =
  cd_entries :: nat
  cd_bytes :: nat

section \<open>Little-endian fields\<close>

definition field_at :: "nat \<Rightarrow> byte list \<Rightarrow> nat \<Rightarrow> zip_error + nat" where
  "field_at n bs at = (if at + n \<le> length bs then Inr (le_value (take n (drop at bs))) else Inl ZipPanic)"

definition u16_at :: "byte list \<Rightarrow> nat \<Rightarrow> zip_error + nat" where
  "u16_at = field_at 2"

definition u32_at :: "byte list \<Rightarrow> nat \<Rightarrow> zip_error + nat" where
  "u32_at = field_at 4"

definition u64_at :: "byte list \<Rightarrow> nat \<Rightarrow> zip_error + nat" where
  "u64_at = field_at 8"

definition eocd_signature :: nat where "eocd_signature = 0x06054b50"
definition eocd64_signature :: nat where "eocd64_signature = 0x06064b50"
definition locator_signature :: nat where "locator_signature = 0x07064b50"
definition central_header_signature :: nat where "central_header_signature = 0x02014b50"

definition eocd_bytes :: nat where "eocd_bytes = 22"
definition eocd64_bytes :: nat where "eocd64_bytes = 56"
definition locator_bytes :: nat where "locator_bytes = 20"
definition central_header_bytes :: nat where "central_header_bytes = 46"
definition max_comment_bytes :: nat where "max_comment_bytes = 0xffff"
definition decoder_entry_bytes :: nat where "decoder_entry_bytes = 512"
definition decoder_read_slack_bytes :: nat where "decoder_read_slack_bytes = 256 * 1024"

definition read_at :: "byte list \<Rightarrow> nat \<Rightarrow> nat \<Rightarrow> zip_error + byte list" where
  "read_at file offset len = (if offset + len \<le> length file then Inr (take len (drop offset file)) else Inl Malformed)"

section \<open>The final directory\<close>

fun find_eocd :: "byte list \<Rightarrow> nat \<Rightarrow> zip_error + nat option" where
  "find_eocd tail 0 = Inr None"
| "find_eocd tail (Suc at) =
     rbind (u32_at tail at) (\<lambda>sig.
       if sig = eocd_signature
       then rbind (u16_at tail (at + 20)) (\<lambda>comment.
              if at + eocd_bytes + comment = length tail then Inr (Some at) else find_eocd tail at)
       else find_eocd tail at)"

definition zip64_directory :: "byte list \<Rightarrow> nat \<Rightarrow> zip_error + (nat \<times> nat \<times> nat \<times> nat)" where
  "zip64_directory file eocd_offset =
     (case checked_sub eocd_offset locator_bytes of
        None \<Rightarrow> Inl Malformed
      | Some locator_offset \<Rightarrow>
          rbind (read_at file locator_offset locator_bytes) (\<lambda>loc.
          rbind (u32_at loc 0) (\<lambda>sig.
            if sig \<noteq> locator_signature then Inl Malformed
            else
              rbind (u32_at loc 4) (\<lambda>disk.
              rbind (u32_at loc 16) (\<lambda>disks.
                if disk \<noteq> 0 \<or> disks > 1 then Inl UnsupportedZip
                else
                  rbind (u64_at loc 8) (\<lambda>record_offset.
                    if sat_add record_offset eocd64_bytes > locator_offset then Inl Malformed
                    else
                      rbind (read_at file record_offset eocd64_bytes) (\<lambda>rec.
                      rbind (u32_at rec 0) (\<lambda>rsig.
                      rbind (u64_at rec 4) (\<lambda>rsize.
                        if rsig \<noteq> eocd64_signature \<or> checked_add rsize 12 \<noteq> Some (locator_offset - record_offset)
                        then Inl Malformed
                        else
                          rbind (u64_at rec 24) (\<lambda>entries_here.
                          rbind (u64_at rec 32) (\<lambda>entries.
                          rbind (u32_at rec 16) (\<lambda>d1.
                          rbind (u32_at rec 20) (\<lambda>d2.
                            if d1 \<noteq> 0 \<or> d2 \<noteq> 0 \<or> entries_here \<noteq> entries then Inl UnsupportedZip
                            else
                              rbind (u64_at rec 40) (\<lambda>sz.
                              rbind (u64_at rec 48) (\<lambda>offset.
                                Inr (entries, sz, offset, record_offset))))))))))))))))"

definition check_directory :: "byte list \<Rightarrow> nat \<times> nat \<times> nat \<times> nat \<Rightarrow> zip_error + central_directory" where
  "check_directory file d = (case d of (entries, sz, offset, stop) \<Rightarrow>
     if checked_add offset sz \<noteq> Some stop then Inl Malformed
     else if sat_mul entries central_header_bytes > sz then Inl Malformed
     else if entries > 0
     then rbind (read_at file offset 4) (\<lambda>h. rbind (u32_at h 0) (\<lambda>sig.
            if sig \<noteq> central_header_signature then Inl UnsupportedZip
            else Inr \<lparr>cd_entries = entries, cd_bytes = sz\<rparr>))
     else Inr \<lparr>cd_entries = entries, cd_bytes = sz\<rparr>)"

definition final_directory :: "byte list \<Rightarrow> nat \<Rightarrow> zip_error + central_directory" where
  "final_directory file len =
     (let tail_length = min len (eocd_bytes + max_comment_bytes);
          tail_start = len - tail_length
      in rbind (read_at file tail_start tail_length) (\<lambda>tail.
         rbind (find_eocd tail (sat_sub (length tail) (eocd_bytes - 1))) (\<lambda>found.
           case found of
             None \<Rightarrow> Inl Malformed
           | Some position \<Rightarrow>
               let eocd = drop position tail;
                   eocd_offset = tail_start + position
               in rbind (u16_at eocd 4) (\<lambda>disk.
                  rbind (u16_at eocd 6) (\<lambda>directory_disk.
                  rbind (u16_at eocd 8) (\<lambda>entries_here.
                  rbind (u16_at eocd 10) (\<lambda>entries.
                  rbind (u32_at eocd 12) (\<lambda>sz.
                  rbind (u32_at eocd 16) (\<lambda>offset.
                    let zip64 = (0xffff \<in> {disk, directory_disk, entries_here, entries} \<or> sz = 0xffffffff \<or> offset = 0xffffffff)
                    in rbind (if zip64 then zip64_directory file eocd_offset
                              else if disk \<noteq> 0 \<or> directory_disk \<noteq> 0 \<or> entries_here \<noteq> entries then Inl UnsupportedZip
                              else Inr (entries, sz, offset, eocd_offset)) (check_directory file))))))))))"

section \<open>Records the decoder could fall back to\<close>

text \<open>The check of one position of a window.\<close>

definition check_at :: "nat \<Rightarrow> byte list \<Rightarrow> nat \<Rightarrow> zip_error + unit" where
  "check_at cap window at =
     rbind (u32_at window at) (\<lambda>sig.
       if sig = eocd_signature \<and> at + eocd_bytes \<le> length window
       then rbind (u16_at window (at + 8)) (\<lambda>a. rbind (u16_at window (at + 10)) (\<lambda>b.
              if max a b > cap then Inl MetadataLimit else Inr ()))
       else if sig = eocd64_signature \<and> at + eocd64_bytes \<le> length window
       then rbind (u64_at window (at + 24)) (\<lambda>a. rbind (u64_at window (at + 32)) (\<lambda>b.
              if max a b > cap then Inl MetadataLimit else Inr ()))
       else Inr ())"

fun check_positions :: "nat \<Rightarrow> byte list \<Rightarrow> nat list \<Rightarrow> zip_error + unit" where
  "check_positions cap window [] = Inr ()"
| "check_positions cap window (at # ats) = rbind (check_at cap window at) (\<lambda>_. check_positions cap window ats)"

text \<open>The loop: each chunk extends the window; the last, empty read ends it.\<close>

fun scan_windows :: "nat \<Rightarrow> byte list \<Rightarrow> byte list list \<Rightarrow> zip_error + unit" where
  "scan_windows cap window [] =
     check_positions cap window [0..<min (length window) (sat_sub (length window) 3)]"
| "scan_windows cap window (chunk # chunks) =
     (let window' = window @ chunk;
          scan_end = sat_sub (length window') eocd64_bytes
      in rbind (check_positions cap window' [0..<min scan_end (sat_sub (length window') 3)])
           (\<lambda>_. scan_windows cap (drop scan_end window') chunks))"

definition scan_fallback_records :: "nat \<Rightarrow> byte list list \<Rightarrow> zip_error + unit" where
  "scan_fallback_records cap chunks = scan_windows cap [] chunks"

section \<open>The preflight\<close>

definition entry_cap :: "remote_io_limits \<Rightarrow> nat" where
  "entry_cap l = min (max_archive_entries l) (max_metadata_bytes l div decoder_entry_bytes)"

definition decoder_read_budget :: "remote_io_limits \<Rightarrow> nat" where
  "decoder_read_budget l = sat_add (sat_mul (max_metadata_bytes l) 2) decoder_read_slack_bytes"

definition preflight :: "byte list \<Rightarrow> byte list list \<Rightarrow> remote_io_limits \<Rightarrow> zip_error + central_directory" where
  "preflight file chunks l =
     rbind (final_directory file (length file)) (\<lambda>d.
       if cd_entries d > max_archive_entries l then Inl EntryLimit
       else if cd_bytes d > max_metadata_bytes l then Inl MetadataLimit
       else if cd_entries d > entry_cap l then Inl MetadataLimit
       else rbind (scan_fallback_records (entry_cap l) chunks) (\<lambda>_. Inr d))"

section \<open>The budgeted reader\<close>

text \<open>The shared cell: \<open>None\<close> once lifted. \<open>served\<close> is what the wrapped reader returned for
  the bytes it was allowed.\<close>

type_synonym read_budget = "nat option"

definition reader_new :: "nat \<Rightarrow> read_budget" where
  "reader_new budget = Some budget"

definition budget_lift :: "read_budget \<Rightarrow> read_budget" where
  "budget_lift b = None"

definition budget_exhausted :: "read_budget \<Rightarrow> bool" where
  "budget_exhausted b \<longleftrightarrow> b = Some 0"

definition budgeted_read :: "(nat \<Rightarrow> nat) \<Rightarrow> read_budget \<Rightarrow> nat \<Rightarrow> (read_budget \<times> nat) option" where
  "budgeted_read inner b buffer_len =
     (case b of
        None \<Rightarrow> Some (None, inner buffer_len)
      | Some remaining \<Rightarrow>
          if remaining = 0 then None
          else let allowed = min (min remaining u64_max) buffer_len;
                   n = inner allowed
               in Some (Some (remaining - n), n))"

text \<open>Opening: the decoder runs on the budget and gives its result and what is left of it.\<close>

definition zip_open ::
  "(byte list \<Rightarrow> read_budget \<Rightarrow> 'a option \<times> read_budget) \<Rightarrow> byte list \<Rightarrow> byte list list \<Rightarrow> remote_io_limits \<Rightarrow> zip_error + 'a \<times> read_budget" where
  "zip_open decoder file chunks l =
     rbind (preflight file chunks l) (\<lambda>_.
       case decoder file (reader_new (decoder_read_budget l)) of
         (Some archive, b) \<Rightarrow> Inr (archive, budget_lift b)
       | (None, b) \<Rightarrow> if budget_exhausted b then Inl MetadataLimit else Inl Malformed)"

section \<open>Scanning in windows is scanning the whole file\<close>

definition field :: "nat \<Rightarrow> byte list \<Rightarrow> nat \<Rightarrow> nat" where
  "field n bs at = le_value (take n (drop at bs))"

text \<open>A complete record at a position of the file that declares more entries than the cap.\<close>

definition over_at :: "nat \<Rightarrow> byte list \<Rightarrow> nat \<Rightarrow> bool" where
  "over_at cap file at \<longleftrightarrow>
     at + 22 \<le> length file \<and> field 4 file at = eocd_signature \<and> max (field 2 file (at + 8)) (field 2 file (at + 10)) > cap
     \<or> at + 56 \<le> length file \<and> field 4 file at = eocd64_signature \<and> max (field 8 file (at + 24)) (field 8 file (at + 32)) > cap"

definition whole_file_scan :: "nat \<Rightarrow> byte list \<Rightarrow> zip_error + unit" where
  "whole_file_scan cap file = (if list_ex (over_at cap file) [0..<length file] then Inl MetadataLimit else Inr ())"

lemma field_at_Inr: "at + n \<le> length bs \<Longrightarrow> field_at n bs at = Inr (field n bs at)"
  by (simp add: field_at_def field_def)

lemma check_at_spec:
  assumes "at + 4 \<le> length w"
  shows "check_at cap w at = (if over_at cap w at then Inl MetadataLimit else Inr ())"
  using assms
  by (auto simp: check_at_def over_at_def u16_at_def u32_at_def u64_at_def field_at_Inr eocd_bytes_def eocd64_bytes_def
      eocd_signature_def eocd64_signature_def)

lemma check_positions_spec:
  assumes "\<forall>at\<in>set ats. at + 4 \<le> length w"
  shows "check_positions cap w ats = (if list_ex (over_at cap w) ats then Inl MetadataLimit else Inr ())"
  using assms by (induction ats) (auto simp: check_at_spec)

lemma field_append: "at + n \<le> length w \<Longrightarrow> field n (w @ rest) at = field n w at"
  by (simp add: field_def)

lemma field_drop: "field n (drop k bs) at = field n bs (k + at)"
  by (simp add: field_def add.commute)

lemma over_at_append: "at + 56 \<le> length w \<Longrightarrow> over_at cap (w @ rest) at = over_at cap w at"
  by (simp add: over_at_def field_append)

lemma over_at_drop: "k \<le> length bs \<Longrightarrow> over_at cap (drop k bs) at = over_at cap bs (k + at)"
  by (auto simp: over_at_def field_drop add.assoc)

lemma over_at_range: "over_at cap bs at \<Longrightarrow> at + 22 \<le> length bs"
  by (auto simp: over_at_def)

lemma whole_file_scan_iff: "whole_file_scan cap bs = (if \<exists>at. over_at cap bs at then Inl MetadataLimit else Inr ())"
  using over_at_range by (fastforce simp: whole_file_scan_def list_ex_iff)

lemma scan_windows_spec: "scan_windows cap w chunks = whole_file_scan cap (w @ concat chunks)"
proof (induction chunks arbitrary: w)
  case Nil
  have "check_positions cap w [0..<min (length w) (sat_sub (length w) 3)]
      = (if list_ex (over_at cap w) [0..<length w - 3] then Inl MetadataLimit else Inr ())"
    by (subst check_positions_spec) (auto simp: sat_sub_def)
  moreover have "list_ex (over_at cap w) [0..<length w - 3] \<longleftrightarrow> (\<exists>at. over_at cap w at)"
    using over_at_range by (fastforce simp: list_ex_iff)
  ultimately show ?case by (simp add: whole_file_scan_iff)
next
  case (Cons chunk chunks)
  define w' where "w' = w @ chunk"
  define e where "e = length w' - 56"
  let ?all = "w' @ concat chunks"
  have pos: "check_positions cap w' [0..<min e (length w' - 3)]
      = (if list_ex (over_at cap w') [0..<e] then Inl MetadataLimit else Inr ())"
    by (subst check_positions_spec) (auto simp: e_def min_def)
  have "drop e w' @ concat chunks = drop e ?all" by (simp add: e_def)
  then have ih: "scan_windows cap (drop e w') chunks = whole_file_scan cap (drop e ?all)" using Cons.IH by simp
  have "over_at cap w' at \<longleftrightarrow> over_at cap ?all at" if "at < e" for at
    using that by (intro over_at_append [symmetric]) (simp add: e_def)
  then have low: "list_ex (over_at cap w') [0..<e] \<longleftrightarrow> (\<exists>at<e. over_at cap ?all at)" by (auto simp: list_ex_iff)
  have high: "(\<exists>at. over_at cap (drop e ?all) at) \<longleftrightarrow> (\<exists>at\<ge>e. over_at cap ?all at)"
  proof -
    have "e \<le> length ?all" by (simp add: e_def)
    then have d: "over_at cap (drop e ?all) at = over_at cap ?all (e + at)" for at by (rule over_at_drop)
    show ?thesis unfolding d by (auto simp: le_iff_add)
  qed
  have "scan_windows cap w (chunk # chunks)
      = rbind (check_positions cap w' [0..<min e (length w' - 3)]) (\<lambda>_. scan_windows cap (drop e w') chunks)"
    by (simp add: Let_def w'_def e_def sat_sub_def eocd64_bytes_def)
  also have "\<dots> = (if \<exists>at. over_at cap ?all at then Inl MetadataLimit else Inr ())"
    unfolding pos ih whole_file_scan_iff low high using not_le by auto
  finally show ?case by (simp add: whole_file_scan_iff w'_def)
qed

text \<open>C7. Scanning the archive in windows is the same as scanning it whole. However the system cuts the
  file into reads, the windowed scan, which keeps the last 56 bytes of a window for the next one,
  refuses the archive exactly when some position of the file holds a complete end-of-directory
  record, of either format, that declares more entries than the cap. No record that straddles two
  reads is missed and none is reported that is not in the file.\<close>

theorem windowed_scan_equals_whole_scan:
  "scan_fallback_records cap chunks = whole_file_scan cap (concat chunks)"
  by (simp add: scan_fallback_records_def scan_windows_spec)

section \<open>What an accepted archive promises\<close>

text \<open>No panic, and a postcondition of the value.\<close>

definition zok :: "('a \<Rightarrow> bool) \<Rightarrow> zip_error + 'a \<Rightarrow> bool" where
  "zok P r \<longleftrightarrow> (case r of Inl e \<Rightarrow> e \<noteq> ZipPanic | Inr a \<Rightarrow> P a)"

lemma zok_simps [simp]: "zok P (Inl e) \<longleftrightarrow> e \<noteq> ZipPanic" "zok P (Inr a) \<longleftrightarrow> P a"
  by (simp_all add: zok_def)

lemma zok_rbind: "zok P r \<Longrightarrow> (\<And>a. P a \<Longrightarrow> zok Q (f a)) \<Longrightarrow> zok Q (rbind r f)"
  by (cases r) auto

lemma zok_if: "(b \<Longrightarrow> zok P x) \<Longrightarrow> (\<not> b \<Longrightarrow> zok P y) \<Longrightarrow> zok P (if b then x else y)"
  by simp

lemma zok_field: "at + n \<le> length bs \<Longrightarrow> zok (\<lambda>_. True) (field_at n bs at)"
  by (simp add: field_at_def)

lemmas zok_fields = zok_field [of _ 2, folded u16_at_def] zok_field [of _ 4, folded u32_at_def] zok_field [of _ 8, folded u64_at_def]

lemma zok_read_at: "zok (\<lambda>b. length b = len \<and> offset + len \<le> length file) (read_at file offset len)"
  by (simp add: read_at_def)

lemma zok_find_eocd:
  "n \<le> length tail - 21 \<Longrightarrow> zok (\<lambda>r. case r of None \<Rightarrow> True | Some p \<Rightarrow> p + 22 \<le> length tail) (find_eocd tail n)"
proof (induction n)
  case (Suc at)
  have "zok (\<lambda>r. case r of None \<Rightarrow> True | Some p \<Rightarrow> p + 22 \<le> length tail) (find_eocd tail at)" using Suc by simp
  moreover have "at + 22 \<le> length tail" using Suc.prems by simp
  ultimately show ?case
    unfolding find_eocd.simps by (intro zok_rbind [OF zok_fields(2)] zok_if zok_rbind [OF zok_fields(1)]) auto
qed simp

lemma zok_zip64:
  assumes "length file \<le> u64_max" and "eocd_offset + 22 \<le> length file"
  shows "zok (\<lambda>(entries, sz, offset, stop). stop + 76 \<le> eocd_offset) (zip64_directory file eocd_offset)"
proof (cases "20 \<le> eocd_offset")
  case True
  then have sub: "checked_sub eocd_offset locator_bytes = Some (eocd_offset - 20)"
    by (simp add: checked_sub_def locator_bytes_def)
  have stop: "r + 76 \<le> eocd_offset" if "\<not> sat_add r eocd64_bytes > eocd_offset - 20" for r
    using that assms by (auto simp: sat_add_def eocd64_bytes_def min_def split: if_splits)
  show ?thesis
    unfolding zip64_directory_def sub option.case
    apply (rule zok_rbind [OF zok_read_at])
    apply (intro zok_rbind [OF zok_fields(2)] zok_rbind [OF zok_fields(3)] zok_if zok_rbind [OF zok_read_at])
    using stop by (auto simp: locator_bytes_def eocd64_bytes_def)
next
  case False
  then show ?thesis by (simp add: zip64_directory_def checked_sub_def locator_bytes_def)
qed

lemma zok_check_directory:
  assumes "stop + 22 \<le> length file" and "length file \<le> u64_max"
  shows "zok (\<lambda>d. cd_entries d * 46 \<le> cd_bytes d \<and> cd_bytes d + 22 \<le> length file) (check_directory file (entries, sz, offset, stop))"
proof -
  have bound: "entries * 46 \<le> sz \<and> sz + 22 \<le> length file"
    if "\<not> checked_add offset sz \<noteq> Some stop" "\<not> sat_mul entries central_header_bytes > sz"
    using that assms by (auto simp: checked_add_def sat_mul_def central_header_bytes_def min_def split: if_splits)
  show ?thesis
    unfolding check_directory_def prod.case
    by (intro zok_if zok_rbind [OF zok_read_at] zok_rbind [OF zok_fields(2)]) (use bound in auto)
qed

lemma zok_directory_of:
  assumes "length file \<le> u64_max" and "e + 22 \<le> length file"
  shows "zok (\<lambda>(entries, sz, offset, stop). stop + 22 \<le> length file)
    (if z then zip64_directory file e else if u then Inl UnsupportedZip else Inr (entries, sz, offset, e))"
  using zok_zip64 [OF assms] assms(2)
  by (cases "zip64_directory file e") auto

lemma zok_final_directory:
  assumes "length file \<le> u64_max"
  shows "zok (\<lambda>d. cd_entries d * 46 \<le> cd_bytes d \<and> cd_bytes d + 22 \<le> length file) (final_directory file (length file))"
  unfolding final_directory_def Let_def
  apply (rule zok_rbind [OF zok_read_at])
  apply (rule zok_rbind [OF zok_find_eocd], simp add: sat_sub_def eocd_bytes_def)
  subgoal for tail found
  proof (cases found)
    case (Some p)
    assume "case found of None \<Rightarrow> True | Some p \<Rightarrow> p + 22 \<le> length tail"
    then have p: "p + 22 \<le> length tail" using Some by simp
    assume "length tail = min (length file) (eocd_bytes + max_comment_bytes) \<and>
      length file - min (length file) (eocd_bytes + max_comment_bytes) + min (length file) (eocd_bytes + max_comment_bytes) \<le> length file"
    then have e: "length file - min (length file) (eocd_bytes + max_comment_bytes) + p + 22 \<le> length file"
      using p by linarith
    have q: "22 \<le> length (drop p tail)" using p by simp
    show ?thesis
      unfolding Some option.case
      apply (intro zok_rbind [OF zok_fields(1)] zok_rbind [OF zok_fields(2)])
      apply (use q in simp_all)[6]
      apply (rule zok_rbind [OF zok_directory_of [OF assms e]])
      subgoal for a b c d e f t by (cases t) (simp add: zok_check_directory [OF _ assms])
      done
  qed simp
  done

text \<open>C22. What the preflight lets through is bounded. It never panics on any file, and when it accepts
  an archive the final directory lies inside the file, has at least the 46 bytes of a header for
  each entry it declares, fits the limit on metadata, declares no more entries than the limit and
  no more than what 512 bytes of decoder memory each allow, and no other end-of-directory record
  anywhere in the file, to which the decoder could fall back, declares more than that.\<close>

theorem preflight_bounds_metadata:
  assumes "length (concat chunks) \<le> u64_max"
  shows "case preflight (concat chunks) chunks l of
      Inl e \<Rightarrow> e \<noteq> ZipPanic
    | Inr d \<Rightarrow>
        cd_entries d * 46 \<le> cd_bytes d \<and> cd_bytes d + 22 \<le> length (concat chunks)
        \<and> cd_bytes d \<le> max_metadata_bytes l \<and> cd_entries d \<le> max_archive_entries l
        \<and> cd_entries d * 512 \<le> max_metadata_bytes l \<and> (\<nexists>at. over_at (entry_cap l) (concat chunks) at)"
proof -
  have cap: "n \<le> entry_cap l \<Longrightarrow> n * 512 \<le> max_metadata_bytes l" for n
    by (simp add: entry_cap_def decoder_entry_bytes_def less_eq_div_iff_mult_less_eq)
  show ?thesis
  proof (cases "final_directory (concat chunks) (length (concat chunks))")
    case (Inl e)
    then show ?thesis using zok_final_directory [OF assms] by (simp add: preflight_def)
  next
    case (Inr d)
    then have d: "cd_entries d * 46 \<le> cd_bytes d" "cd_bytes d + 22 \<le> length (concat chunks)"
      using zok_final_directory [OF assms] by simp_all
    show ?thesis
      unfolding preflight_def Inr rbind_Inr scan_fallback_records_def scan_windows_spec append_Nil whole_file_scan_iff
      using d cap [of "cd_entries d"] by (simp del: length_concat)
  qed
qed

text \<open>An empty archive that arrives in two reads.\<close>

theorem preflight_bounds_metadata_witness:
  "preflight (concat [[0x50, 0x4b, 5], [6, 0, 0, 0, 0, 0, 0, 0, 0, 0, 0, 0, 0, 0, 0, 0, 0, 0, 0]]) [[0x50, 0x4b, 5], [6, 0, 0, 0, 0, 0, 0, 0, 0, 0, 0, 0, 0, 0, 0, 0, 0, 0, 0]] (remote_limits_default\<lparr>max_archive_entries := 5, max_metadata_bytes := 100\<rparr>)
     = Inr \<lparr>cd_entries = 0, cd_bytes = 0\<rparr>
   \<and> (\<nexists>at. over_at 0 (concat [[0x50, 0x4b, 5], [6, 0, 0, 0, 0, 0, 0, 0, 0, 0, 0, 0, 0, 0, 0, 0, 0, 0, 0]]) at)"
proof -
  let ?c = "[[0x50, 0x4b, 5], [6, 0, 0, 0, 0, 0, 0, 0, 0, 0, 0, 0, 0, 0, 0, 0, 0, 0, 0]]" and ?l = "(remote_limits_default\<lparr>max_archive_entries := 5, max_metadata_bytes := 100\<rparr>)"
  have final: "final_directory (concat ?c) (length (concat ?c)) = Inr \<lparr>cd_entries = 0, cd_bytes = 0\<rparr>"
    by (simp add: final_directory_def eocd_bytes_def max_comment_bytes_def eocd_signature_def central_header_bytes_def read_at_def sat_sub_def u16_at_def u32_at_def field_at_def
      check_directory_def checked_add_def sat_mul_def u64_max_def Let_def)
  have "\<not> over_at 0 (concat ?c) at" for at
    using over_at_range [of 0 "concat ?c" at] by (cases "at = 0") (auto simp: over_at_def field_def)
  then have scan: "scan_fallback_records 0 ?c = Inr ()"
    unfolding scan_fallback_records_def scan_windows_spec append_Nil whole_file_scan_iff by simp
  have "preflight (concat ?c) ?c ?l = Inr \<lparr>cd_entries = 0, cd_bytes = 0\<rparr>"
    unfolding preflight_def final rbind_simps using scan by (simp add: entry_cap_def decoder_entry_bytes_def)
  moreover have "length (concat ?c) \<le> u64_max" by (simp add: u64_max_def)
  moreover have "entry_cap ?l = 0" by (simp add: entry_cap_def decoder_entry_bytes_def)
  ultimately show ?thesis using preflight_bounds_metadata [of ?c ?l] by simp
qed

section \<open>What the decoder can read\<close>

text \<open>A run of reads, each with the wrapped reader's answer and the length of the caller's buffer; a
  refused read serves nothing. The second component counts the bytes served.\<close>

fun read_run :: "read_budget \<Rightarrow> ((nat \<Rightarrow> nat) \<times> nat) list \<Rightarrow> read_budget \<times> nat" where
  "read_run b [] = (b, 0)"
| "read_run b ((inner, buffer_len) # calls) =
     (case budgeted_read inner b buffer_len of
        None \<Rightarrow> read_run b calls
      | Some (b', n) \<Rightarrow> (case read_run b' calls of (b'', m) \<Rightarrow> (b'', n + m)))"

text \<open>C34. While the decoder opens an archive it reads at most the budget. Whatever reads it makes, of
  whatever lengths and however short the answers of the file are, the bytes served and the bytes
  left add up to the budget, and the budget counts as exhausted exactly when all of it was served.
  The hypothesis is the contract of \<open>Read\<close>: a read returns at most the bytes of its buffer.\<close>

theorem decoder_reads_within_budget:
  assumes "\<forall>(inner, len) \<in> set calls. \<forall>n. inner n \<le> n"
  shows "case read_run (reader_new budget) calls of (b, served) \<Rightarrow>
     served \<le> budget \<and> b = Some (budget - served) \<and> (budget_exhausted b \<longleftrightarrow> served = budget)"
  using assms unfolding reader_new_def
proof (induction calls arbitrary: budget)
  case Nil
  then show ?case by (auto simp: budget_exhausted_def)
next
  case (Cons c calls)
  obtain inner len where c: "c = (inner, len)" by (cases c)
  define n where "n = inner (min (min budget u64_max) len)"
  have n: "n \<le> budget" using Cons.prems c unfolding n_def
    by (metis (no_types, lifting) case_prodD list.set_intros(1) min.bounded_iff)
  obtain b m where r: "read_run (Some (budget - n)) calls = (b, m)" by (cases "read_run (Some (budget - n)) calls")
  have IH: "case read_run (Some x) calls of (b, served) \<Rightarrow>
     served \<le> x \<and> b = Some (x - served) \<and> (budget_exhausted b \<longleftrightarrow> served = x)" for x
    using Cons by simp
  show ?case
  proof (cases "budget = 0")
    case True
    then show ?thesis using IH [of 0] by (simp add: c budgeted_read_def)
  next
    case False
    then have "read_run (Some budget) (c # calls) = (b, n + m)"
      by (simp add: c budgeted_read_def Let_def n_def [symmetric] r)
    then show ?thesis using IH [of "budget - n"] r n by auto
  qed
qed

theorem decoder_reads_within_budget_witness:
  "read_run (reader_new 10) [(\<lambda>n. n, 6), (\<lambda>n. n div 2, 100), (\<lambda>n. n, 100), (\<lambda>n. n, 1)] = (Some 0, 10)
   \<and> budget_exhausted (Some 0)"
  using decoder_reads_within_budget [of "[(\<lambda>n. n, 6), (\<lambda>n. n div 2, 100), (\<lambda>n. n, 100), (\<lambda>n. n, 1)]" 10]
  by (simp add: reader_new_def budgeted_read_def u64_max_def)

end
