(* ===== verification/Remote_Path.thy ===== *)
theory Remote_Path
  imports Workspace_Path Remote_Limits
begin

text \<open>
  The check that no symbolic link of a downloaded output tree leads outside the declared outputs:
  \<open>crates/once-core/src/remote/path.rs\<close> and \<open>path/tree.rs\<close>, the lookups of
  \<open>path/boundary.rs\<close> they rest on, and the budget of an extraction,
  \<open>remote/archive/output/budget.rs\<close>. The staged directory is a finite tree. Lookups open every
  parent without following links, so a path is the list of its names. How the system resolves
  links is the step relation \<open>resolves\<close>, against which the check is proved.
\<close>

section \<open>The directory boundary\<close>

datatype node = RegularFile | Directory "(string \<times> node) list" | Symlink string | Special

type_synonym path = "string list"

datatype io_error = NotFound | NotADirectory | InvalidInput

definition lookup_entry :: "node \<Rightarrow> string \<Rightarrow> io_error + node" where
  "lookup_entry d name =
     (case d of
        Directory es \<Rightarrow> (case map_of es name of None \<Rightarrow> Inl NotFound | Some n \<Rightarrow> Inr n)
      | _ \<Rightarrow> Inl NotADirectory)"

text \<open>\<open>openat\<close> with \<open>O_DIRECTORY\<close> and \<open>O_NOFOLLOW\<close>: only a real directory opens.\<close>

definition open_directory :: "node \<Rightarrow> string \<Rightarrow> io_error + node" where
  "open_directory d name =
     rbind (lookup_entry d name) (\<lambda>n. case n of Directory _ \<Rightarrow> Inr n | _ \<Rightarrow> Inl NotADirectory)"

fun descend :: "node \<Rightarrow> path \<Rightarrow> io_error + node" where
  "descend d [] = Inr d"
| "descend d (name # names) = rbind (open_directory d name) (\<lambda>n. descend n names)"

definition metadata :: "node \<Rightarrow> path \<Rightarrow> io_error + node" where
  "metadata d p = (if p = [] then Inr d else rbind (descend d (butlast p)) (\<lambda>par. lookup_entry par (last p)))"

definition read_link :: "node \<Rightarrow> path \<Rightarrow> io_error + string" where
  "read_link d p =
     (if p = [] then Inl InvalidInput
      else rbind (descend d (butlast p)) (\<lambda>par. rbind (lookup_entry par (last p)) (\<lambda>n.
             case n of Symlink target \<Rightarrow> Inr target | _ \<Rightarrow> Inl InvalidInput)))"

section \<open>Declared roots\<close>

datatype remote_error = UnsafeLink | Io io_error | Limit limit_error | UnsupportedType

definition path_starts_with :: "path \<Rightarrow> path \<Rightarrow> bool" where
  "path_starts_with p base = (take (length base) p = base)"

definition path_is_declared :: "path \<Rightarrow> path list \<Rightarrow> bool" where
  "path_is_declared p roots = list_ex (\<lambda>root. path_starts_with p root) roots"

text \<open>The components of a link's target, with \<open>..\<close> kept.\<close>

definition target_components :: "string \<Rightarrow> remote_error + string list" where
  "target_components raw =
     (if RootDir \<in> set (path_components raw) then Inl UnsafeLink
      else Inr (concat (map (\<lambda>c. case c of Normal s \<Rightarrow> [s] | ParentDir \<Rightarrow> [''..''] | _ \<Rightarrow> []) (path_components raw))))"

section \<open>Following one link\<close>

definition on_declared_path :: "path list \<Rightarrow> path \<Rightarrow> bool" where
  "on_declared_path roots p \<longleftrightarrow> path_is_declared p roots \<or> list_ex (\<lambda>root. path_starts_with root p) roots"

definition missing_is_none :: "io_error + node \<Rightarrow> remote_error + node option" where
  "missing_is_none r =
     (case r of Inr n \<Rightarrow> Inr (Some n) | Inl NotFound \<Rightarrow> Inr None | Inl e \<Rightarrow> Inl (Io e))"

definition io :: "io_error + 'a \<Rightarrow> remote_error + 'a" where
  "io r = (case r of Inl e \<Rightarrow> Inl (Io e) | Inr a \<Rightarrow> Inr a)"

text \<open>What one name of the loop does: step over it, or put a link's components in its place.\<close>

definition link_step :: "node \<Rightarrow> path list \<Rightarrow> nat \<Rightarrow> path \<Rightarrow> string \<Rightarrow> remote_error + string list option" where
  "link_step d roots followed resolved component =
     (let resolved = resolved @ [component]
      in if \<not> on_declared_path roots resolved then Inl UnsafeLink
         else rbind (missing_is_none (metadata d resolved)) (\<lambda>m.
           case m of
             Some (Symlink _) \<Rightarrow>
               if followed + 1 > 40 then Inl UnsafeLink
               else rbind (io (read_link d resolved)) (\<lambda>target. rbind (target_components target) (\<lambda>cs. Inr (Some cs)))
           | _ \<Rightarrow> Inr None))"

function follow :: "node \<Rightarrow> path list \<Rightarrow> nat \<Rightarrow> path \<Rightarrow> string list \<Rightarrow> remote_error + path" where
  "follow d roots followed resolved [] = Inr resolved"
| "follow d roots followed resolved (component # pending) =
     (if component = ''..'' then
        (if resolved = [] then Inl UnsafeLink else follow d roots followed (butlast resolved) pending)
      else
        (case link_step d roots followed resolved component of
           Inl e \<Rightarrow> Inl e
         | Inr None \<Rightarrow> follow d roots followed (resolved @ [component]) pending
         | Inr (Some cs) \<Rightarrow> follow d roots (followed + 1) resolved (cs @ pending)))"
  by pat_completeness auto

lemma link_step_limit: "link_step d roots followed resolved component = Inr (Some cs) \<Longrightarrow> followed < 40"
  by (auto simp: link_step_def Let_def missing_is_none_def split: if_splits sum.splits io_error.splits option.splits node.splits)

termination follow
  by (relation "measures [\<lambda>(d, roots, followed, resolved, pending). 40 - followed,
      \<lambda>(d, roots, followed, resolved, pending). length pending]") (auto dest: link_step_limit)

fun validate_links :: "node \<Rightarrow> path list \<Rightarrow> path list \<Rightarrow> remote_error + unit" where
  "validate_links d [] roots = Inr ()"
| "validate_links d (link # links) roots =
     rbind (follow d roots 0 [] link) (\<lambda>resolved.
       if \<not> path_is_declared resolved roots then Inl UnsafeLink else validate_links d links roots)"

section \<open>Links of an input tree\<close>

fun normalize_components :: "path \<Rightarrow> component list \<Rightarrow> path option" where
  "normalize_components p [] = Some p"
| "normalize_components p (Normal part # cs) = normalize_components (p @ [part]) cs"
| "normalize_components p (CurDir # cs) = normalize_components p cs"
| "normalize_components p (ParentDir # cs) = (if p = [] then None else normalize_components (butlast p) cs)"
| "normalize_components p (RootDir # cs) = None"

definition relative_link_stays_within :: "path \<Rightarrow> string \<Rightarrow> path list \<Rightarrow> bool" where
  "relative_link_stays_within link target roots =
     (if is_absolute target then False
      else if link = [] then False
      else case normalize_components [] (map Normal (butlast link) @ path_components target) of
        None \<Rightarrow> False
      | Some resolved \<Rightarrow> list_ex (\<lambda>root. path_starts_with resolved root) roots)"

section \<open>Collecting the links of a tree\<close>

definition os_len :: "path \<Rightarrow> nat" where
  "os_len p = length (join_with ''/'' p)"

record collected =
  c_links :: "path list"
  c_metadata_bytes :: nat
  c_entries :: nat

definition limited :: "limit_error + unit \<Rightarrow> remote_error + unit" where
  "limited r = (case r of Inl e \<Rightarrow> Inl (Limit e) | Inr u \<Rightarrow> Inr u)"

definition charge_entry :: "remote_io_limits \<Rightarrow> path \<Rightarrow> collected \<Rightarrow> remote_error + collected" where
  "charge_entry l p a =
     (let a = a\<lparr>c_entries := sat_add (c_entries a) 1\<rparr>
      in rbind (limited (check_size (c_entries a) (max_archive_entries l) ''archive entries'')) (\<lambda>_.
           Inr (a\<lparr>c_metadata_bytes := sat_add (sat_add (c_metadata_bytes a) (os_len p)) 256\<rparr>)))"

definition charge_metadata :: "remote_io_limits \<Rightarrow> node \<Rightarrow> collected \<Rightarrow> remote_error + collected" where
  "charge_metadata l n a =
     (let a = (case n of Symlink t \<Rightarrow> a\<lparr>c_metadata_bytes := sat_add (c_metadata_bytes a) (length t)\<rparr> | _ \<Rightarrow> a)
      in rbind (limited (check_size (c_metadata_bytes a) (max_metadata_bytes l) ''output metadata bytes'')) (\<lambda>_. Inr a))"

text \<open>The walk below a path whose node is known: an entry of a directory is the node its lookup gives.\<close>

fun collect_node :: "remote_io_limits \<Rightarrow> path \<Rightarrow> node \<Rightarrow> collected \<Rightarrow> remote_error + collected"
and collect_entries :: "remote_io_limits \<Rightarrow> path \<Rightarrow> (string \<times> node) list \<Rightarrow> collected \<Rightarrow> remote_error + collected" where
  "collect_node l p (Symlink t) a = rbind (charge_metadata l (Symlink t) a) (\<lambda>a. Inr (a\<lparr>c_links := c_links a @ [p]\<rparr>))"
| "collect_node l p (Directory es) a = rbind (charge_metadata l (Directory es) a) (\<lambda>a. collect_entries l p es a)"
| "collect_node l p RegularFile a = charge_metadata l RegularFile a"
| "collect_node l p Special a = rbind (charge_metadata l Special a) (\<lambda>_. Inl UnsupportedType)"
| "collect_entries l p [] a = Inr a"
| "collect_entries l p ((name, n) # es) a =
     rbind (charge_entry l (p @ [name]) a) (\<lambda>a.
     rbind (collect_node l (p @ [name]) n a) (\<lambda>a. collect_entries l p es a))"

definition collect_links :: "node \<Rightarrow> remote_io_limits \<Rightarrow> path \<Rightarrow> collected \<Rightarrow> remote_error + collected" where
  "collect_links d l p a =
     rbind (charge_entry l p a) (\<lambda>a. rbind (io (metadata d p)) (\<lambda>n. collect_node l p n a))"

fun collect_roots :: "node \<Rightarrow> remote_io_limits \<Rightarrow> path list \<Rightarrow> collected \<Rightarrow> remote_error + collected" where
  "collect_roots d l [] a = Inr a"
| "collect_roots d l (root # roots) a =
     rbind (collect_links d l root a) (\<lambda>a. collect_roots d l roots a)"

definition path_of :: "workspace_path \<Rightarrow> path" where
  "path_of w = segments w"

definition validate_output_tree :: "node \<Rightarrow> workspace_path list \<Rightarrow> remote_io_limits \<Rightarrow> nat \<Rightarrow> remote_error + unit" where
  "validate_output_tree d outputs l retained_metadata_bytes =
     (let roots = map path_of outputs
      in rbind (collect_roots d l roots \<lparr>c_links = [], c_metadata_bytes = retained_metadata_bytes, c_entries = 0\<rparr>)
           (\<lambda>a. validate_links d (c_links a) roots))"

section \<open>The budget of an extraction\<close>

definition max_output_depth :: nat where
  "max_output_depth = 64"

record extraction_budget =
  eb_entries :: nat
  eb_metadata_bytes :: nat
  eb_limits :: remote_io_limits

definition extraction_budget_new :: "remote_io_limits \<Rightarrow> extraction_budget" where
  "extraction_budget_new l = \<lparr>eb_entries = 0, eb_metadata_bytes = 0, eb_limits = l\<rparr>"

datatype extraction_error = ExtractionLimit limit_error | AncestorNotADirectory | ExtractionIo io_error

definition within :: "limit_error + unit \<Rightarrow> extraction_error + unit" where
  "within r = (case r of Inl e \<Rightarrow> Inl (ExtractionLimit e) | Inr u \<Rightarrow> Inr u)"

text \<open>The loop over the components: the prefix so far, whether it is already missing, and the counters.\<close>

fun charge_prefixes ::
  "remote_io_limits \<Rightarrow> node \<Rightarrow> path \<Rightarrow> path \<Rightarrow> bool \<Rightarrow> nat \<Rightarrow> nat \<Rightarrow> path \<Rightarrow> extraction_error + nat \<times> nat" where
  "charge_prefixes l root p pre missing entries bytes [] = Inr (entries, bytes)"
| "charge_prefixes l root p pre missing entries bytes (c # cs) =
     (let pre = pre @ [c];
          count = (\<lambda>_. rbind (within (check_entries (sat_add entries 1) (max_archive_entries l))) (\<lambda>_.
            charge_prefixes l root p pre True (sat_add entries 1) (sat_add (sat_add bytes (os_len pre)) 256) cs))
      in if missing then count ()
         else case metadata root pre of
           Inr n \<Rightarrow>
             if pre = p \<or> (case n of Directory _ \<Rightarrow> True | _ \<Rightarrow> False)
             then charge_prefixes l root p pre False entries bytes cs
             else Inl AncestorNotADirectory
         | Inl NotFound \<Rightarrow> count ()
         | Inl e \<Rightarrow> Inl (ExtractionIo e))"

definition charge ::
  "extraction_budget \<Rightarrow> node \<Rightarrow> path \<Rightarrow> bool \<Rightarrow> string option \<Rightarrow> extraction_error + extraction_budget" where
  "charge b root p retain_mode link_target =
     (let l = eb_limits b; depth = length p in
      rbind (within (check_entries depth (max_archive_entries l))) (\<lambda>_.
      rbind (within (check_size depth max_output_depth ''output path depth'')) (\<lambda>_.
      rbind (charge_prefixes l root p [] False (eb_entries b) (eb_metadata_bytes b) p) (\<lambda>(entries, bytes).
        let bytes = (if retain_mode then sat_add (sat_add bytes (os_len p)) 64 else bytes);
            bytes = (case link_target of None \<Rightarrow> bytes | Some t \<Rightarrow> sat_add bytes (length t))
        in rbind (within (check_size bytes (max_metadata_bytes l) ''output metadata bytes'')) (\<lambda>_.
             Inr (b\<lparr>eb_entries := entries, eb_metadata_bytes := bytes\<rparr>))))))"

section \<open>How the system resolves a path\<close>

text \<open>A walk from the root of the staged tree: where it is and the names still to go. Leaving the tree,
  through \<open>..\<close> at its root or an absolute target, is \<open>Escaped\<close>.\<close>

datatype walk = At path "string list" | Escaped

inductive resolves :: "node \<Rightarrow> walk \<Rightarrow> walk \<Rightarrow> bool" for d where
  up: "resolves d (At (p @ [x]) (''..'' # cs)) (At p cs)"
| above: "resolves d (At [] (''..'' # cs)) Escaped"
| absolute: "c \<noteq> ''..'' \<Longrightarrow> metadata d (p @ [c]) = Inr (Symlink t) \<Longrightarrow> is_absolute t \<Longrightarrow> resolves d (At p (c # cs)) Escaped"
| through: "c \<noteq> ''..'' \<Longrightarrow> metadata d (p @ [c]) = Inr (Symlink t) \<Longrightarrow> target_components t = Inr ts \<Longrightarrow>
    resolves d (At p (c # cs)) (At p (ts @ cs))"
| into: "c \<noteq> ''..'' \<Longrightarrow> (\<nexists>t. metadata d (p @ [c]) = Inr (Symlink t)) \<Longrightarrow> resolves d (At p (c # cs)) (At (p @ [c]) cs)"

inductive_cases resolves_AtE: "resolves d (At p (c # cs)) w"
inductive_cases resolves_doneE: "resolves d (At p []) w"

section \<open>The check against the resolution\<close>

lemma path_starts_with_iff: "path_starts_with p base \<longleftrightarrow> prefix base p"
  by (simp add: path_starts_with_def prefix_def) (metis append_eq_conv_conj)

lemma on_declared_path_iff:
  "on_declared_path roots p \<longleftrightarrow> (\<exists>root\<in>set roots. prefix root p \<or> prefix p root)"
  by (auto simp: on_declared_path_def path_is_declared_def path_starts_with_iff list_ex_iff)

lemma on_declared_path_up: "on_declared_path roots (p @ [x]) \<Longrightarrow> on_declared_path roots p"
  unfolding on_declared_path_iff prefix_snoc using append_prefixD by blast

text \<open>Lookups along a path.\<close>

fun node_at :: "node \<Rightarrow> path \<Rightarrow> io_error + node" where
  "node_at n [] = Inr n"
| "node_at n (c # cs) = rbind (lookup_entry n c) (\<lambda>m. node_at m cs)"

lemma metadata_node_at: "metadata d p = node_at d p"
proof (induction p arbitrary: d)
  case (Cons c cs)
  show ?case
  proof (cases cs)
    case Nil
    then show ?thesis by (simp add: metadata_def) (cases "lookup_entry d c"; simp)
  next
    case (Cons c' cs')
    show ?thesis
    proof (cases "lookup_entry d c")
      case (Inr m)
      show ?thesis
      proof (cases m)
        case (Directory es)
        then show ?thesis using Cons.IH [of m] Inr \<open>cs = c' # cs'\<close>
          by (simp add: metadata_def open_directory_def)
      qed (use Inr \<open>cs = c' # cs'\<close> in \<open>simp_all add: metadata_def open_directory_def lookup_entry_def\<close>)
    qed (use \<open>cs = c' # cs'\<close> in \<open>simp add: metadata_def open_directory_def\<close>)
  qed
qed (simp add: metadata_def)

lemma node_at_append: "node_at d (p @ q) = rbind (node_at d p) (\<lambda>n. node_at n q)"
proof (induction p arbitrary: d)
  case (Cons c cs)
  then show ?case by (cases "lookup_entry d c") simp_all
qed simp

lemma read_link_metadata: "metadata d (p @ [c]) = Inr (Symlink t) \<Longrightarrow> read_link d (p @ [c]) = Inr t"
  by (cases "descend d p") (auto simp: metadata_def read_link_def)

lemma root_component: "RootDir \<in> set (path_components t) \<longleftrightarrow> is_absolute t"
proof -
  have "RootDir \<notin> set (body_component s)" for s by (simp add: body_component_def)
  then show ?thesis by (simp add: path_components_def is_absolute_def)
qed

lemma absolute_target: "is_absolute t \<longleftrightarrow> (\<exists>e. target_components t = Inl e)"
  by (simp add: target_components_def root_component)

text \<open>What a step of the loop means for the resolution.\<close>

lemma link_step_found:
  assumes "metadata d (p @ [c]) = Inr n" and "\<nexists>t. n = Symlink t"
  shows "link_step d roots f p c = (if on_declared_path roots (p @ [c]) then Inr None else Inl UnsafeLink)"
  using assms by (cases n) (simp_all add: link_step_def Let_def missing_is_none_def)

lemma link_step_symlink:
  assumes "metadata d (p @ [c]) = Inr (Symlink t)"
  shows "link_step d roots f p c =
    (if \<not> on_declared_path roots (p @ [c]) \<or> f \<ge> 40 then Inl UnsafeLink
     else rbind (target_components t) (\<lambda>cs. Inr (Some cs)))"
  using read_link_metadata [OF assms] by (simp add: link_step_def Let_def missing_is_none_def assms io_def)

lemma link_step_failed:
  assumes "metadata d (p @ [c]) = Inl e"
  shows "link_step d roots f p c =
    (if \<not> on_declared_path roots (p @ [c]) then Inl UnsafeLink else if e = NotFound then Inr None else Inl (Io e))"
  by (cases e) (simp_all add: link_step_def Let_def missing_is_none_def assms)

lemma link_step_None:
  assumes "link_step d roots f p c = Inr None"
  shows "on_declared_path roots (p @ [c])" and "\<nexists>t. metadata d (p @ [c]) = Inr (Symlink t)"
proof -
  have sym: "metadata d (p @ [c]) \<noteq> Inr (Symlink t)" for t
  proof
    assume "metadata d (p @ [c]) = Inr (Symlink t)"
    from link_step_symlink [OF this, of roots f] assms show False by (cases "target_components t") (simp_all split: if_splits)
  qed
  then show "\<nexists>t. metadata d (p @ [c]) = Inr (Symlink t)" by blast
  show "on_declared_path roots (p @ [c])"
  proof (cases "metadata d (p @ [c])")
    case (Inl e)
    from link_step_failed [OF this, of roots f] assms show ?thesis by (simp split: if_splits)
  next
    case (Inr n)
    with sym have "\<nexists>t. n = Symlink t" by blast
    from link_step_found [OF Inr this, of roots f] assms show ?thesis by (simp split: if_splits)
  qed
qed

lemma link_step_Some:
  assumes "link_step d roots f p c = Inr (Some ts)"
  shows "\<exists>t. metadata d (p @ [c]) = Inr (Symlink t) \<and> target_components t = Inr ts"
proof (cases "metadata d (p @ [c])")
  case (Inl e)
  from link_step_failed [OF this, of roots f] assms show ?thesis by (simp split: if_splits)
next
  case (Inr n)
  show ?thesis
  proof (cases "\<exists>t. n = Symlink t")
    case True
    then obtain t where t: "n = Symlink t" by blast
    from link_step_symlink [OF Inr [unfolded t], of roots f] assms
    show ?thesis using Inr t by (cases "target_components t") (simp_all split: if_splits)
  next
    case False
    from link_step_found [OF Inr False, of roots f] assms show ?thesis by (simp split: if_splits)
  qed
qed

text \<open>The resolution is deterministic, so one step decides where it goes.\<close>

definition confined :: "node \<Rightarrow> path list \<Rightarrow> walk \<Rightarrow> bool" where
  "confined d roots w \<longleftrightarrow> (\<forall>w'. (resolves d)\<^sup>*\<^sup>* w w' \<longrightarrow> (\<exists>p cs. w' = At p cs \<and> on_declared_path roots p))"

lemma confined_via:
  assumes "on_declared_path roots p" and only: "\<And>w. resolves d (At p cs) w \<longleftrightarrow> w = v"
    and v: "confined d roots v \<and> (resolves d)\<^sup>*\<^sup>* v z"
  shows "confined d roots (At p cs) \<and> (resolves d)\<^sup>*\<^sup>* (At p cs) z"
proof
  show "(resolves d)\<^sup>*\<^sup>* (At p cs) z"
    using only [of v] v by (simp add: converse_rtranclp_into_rtranclp)
  show "confined d roots (At p cs)"
    unfolding confined_def
  proof (intro allI impI)
    fix w' assume "(resolves d)\<^sup>*\<^sup>* (At p cs) w'"
    then show "\<exists>p cs. w' = At p cs \<and> on_declared_path roots p"
    proof (cases rule: converse_rtranclpE)
      case base
      then show ?thesis using assms(1) by blast
    next
      case (step y)
      then show ?thesis using only v by (simp add: confined_def)
    qed
  qed
qed

lemma step_up: "resolves d (At (p @ [x]) (''..'' # cs)) w \<longleftrightarrow> w = At p cs"
  by (auto elim: resolves_AtE intro: resolves.intros)

lemma step_into:
  "c \<noteq> ''..'' \<Longrightarrow> \<nexists>t. metadata d (p @ [c]) = Inr (Symlink t) \<Longrightarrow> resolves d (At p (c # cs)) w \<longleftrightarrow> w = At (p @ [c]) cs"
  by (auto elim: resolves_AtE intro: resolves.intros)

lemma step_through:
  "c \<noteq> ''..'' \<Longrightarrow> metadata d (p @ [c]) = Inr (Symlink t) \<Longrightarrow> target_components t = Inr ts \<Longrightarrow>
   resolves d (At p (c # cs)) w \<longleftrightarrow> w = At p (ts @ cs)"
  using absolute_target [of t] by (auto elim: resolves_AtE intro: resolves.intros)

lemma confined_done: "on_declared_path roots p \<Longrightarrow> confined d roots (At p [])"
  unfolding confined_def by (auto elim: converse_rtranclpE resolves_doneE)

lemma follow_confined:
  "follow d roots f p cs = Inr q \<Longrightarrow> on_declared_path roots p \<Longrightarrow>
   confined d roots (At p cs) \<and> (resolves d)\<^sup>*\<^sup>* (At p cs) (At q [])"
proof (induction d roots f p cs rule: follow.induct)
  case (1 d roots f p)
  then show ?case by (simp add: confined_done)
next
  case (2 d roots f p c cs)
  show ?case
  proof (cases "c = ''..''")
    case True
    with "2.prems"(1) obtain p' x where p: "p = p' @ [x]" by (cases p rule: rev_cases) auto
    have "confined d roots (At p' cs) \<and> (resolves d)\<^sup>*\<^sup>* (At p' cs) (At q [])"
      using "2.IH"(1) [OF True] "2.prems" on_declared_path_up p True by simp
    then show ?thesis
      unfolding p True by (rule confined_via [OF "2.prems"(2) [unfolded p] step_up])
  next
    case c: False
    show ?thesis
    proof (cases "link_step d roots f p c")
      case (Inl e)
      then show ?thesis using "2.prems"(1) c by simp
    next
      case (Inr r)
      show ?thesis
      proof (cases r)
        case None
        note st = link_step_None [OF Inr [unfolded None]]
        have "confined d roots (At (p @ [c]) cs) \<and> (resolves d)\<^sup>*\<^sup>* (At (p @ [c]) cs) (At q [])"
          using "2.IH"(2) [OF c Inr [unfolded None]] "2.prems" c st(1) Inr None by simp
        then show ?thesis by (rule confined_via [OF "2.prems"(2) step_into [OF c st(2)]])
      next
        case (Some ts)
        obtain t where t: "metadata d (p @ [c]) = Inr (Symlink t)" "target_components t = Inr ts"
          using link_step_Some [OF Inr [unfolded Some]] by blast
        have "confined d roots (At p (ts @ cs)) \<and> (resolves d)\<^sup>*\<^sup>* (At p (ts @ cs)) (At q [])"
          using "2.IH"(3) [OF c Inr [unfolded Some]] "2.prems" c Inr Some by simp
        then show ?thesis by (rule confined_via [OF "2.prems"(2) step_through [OF c t]])
      qed
    qed
  qed
qed

lemma validate_links_confined:
  "validate_links d links roots = Inr () \<Longrightarrow> link \<in> set links \<Longrightarrow> roots \<noteq> [] \<Longrightarrow>
   confined d roots (At [] link) \<and> (\<exists>q. (resolves d)\<^sup>*\<^sup>* (At [] link) (At q []) \<and> path_is_declared q roots)"
proof (induction links)
  case (Cons l links)
  then obtain q where q: "follow d roots 0 [] l = Inr q" "path_is_declared q roots" "validate_links d links roots = Inr ()"
    by (cases "follow d roots 0 [] l") (auto split: if_splits)
  have "on_declared_path roots []" using Cons.prems(3) by (cases roots) (auto simp: on_declared_path_iff)
  then show ?case using Cons q follow_confined [OF q(1)] by auto
qed simp

section \<open>Every link of the outputs is collected\<close>

lemma charge_keeps_links:
  "charge_entry l p a = Inr a' \<Longrightarrow> c_links a' = c_links a"
  "charge_metadata l n a = Inr a' \<Longrightarrow> c_links a' = c_links a"
  by (auto simp: charge_entry_def charge_metadata_def Let_def rbind_Inr split: node.splits)

lemma collect_grows:
  "collect_node l p n a = Inr a' \<Longrightarrow> set (c_links a) \<subseteq> set (c_links a')"
  "collect_entries l p es a = Inr a' \<Longrightarrow> set (c_links a) \<subseteq> set (c_links a')"
proof (induction l p n a and l p es a arbitrary: a' and a' rule: collect_node_collect_entries.induct)
  case (2 l p es a)
  obtain a1 where s: "charge_metadata l (Directory es) a = Inr a1" "collect_entries l p es a1 = Inr a'"
    using "2.prems" by (auto simp: rbind_Inr)
  show ?case using "2.IH" [OF s] charge_keeps_links(2) [OF s(1)] by simp
next
  case (6 l p name n es a)
  obtain a1 a2 where s: "charge_entry l (p @ [name]) a = Inr a1" "collect_node l (p @ [name]) n a1 = Inr a2"
    "collect_entries l p es a2 = Inr a'" using "6.prems"(1) by (auto simp: rbind_Inr)
  show ?case using "6.IH"(1) [OF s(1,2)] "6.IH"(2) [OF s] charge_keeps_links(1) [OF s(1)] by simp
qed (auto simp: rbind_Inr dest!: charge_keeps_links)

lemma collect_complete:
  "collect_node l p n a = Inr a' \<Longrightarrow> node_at n q = Inr (Symlink t) \<Longrightarrow> p @ q \<in> set (c_links a')"
  "collect_entries l p es a = Inr a' \<Longrightarrow> (name, m) \<in> set es \<Longrightarrow> node_at m q = Inr (Symlink t) \<Longrightarrow>
   p @ name # q \<in> set (c_links a')"
proof (induction l p n a and l p es a arbitrary: a' q and a' name m q rule: collect_node_collect_entries.induct)
  case (1 l p t' a)
  then show ?case by (cases q) (auto simp: rbind_Inr lookup_entry_def)
next
  case (2 l p es a)
  obtain a1 where a1: "charge_metadata l (Directory es) a = Inr a1" "collect_entries l p es a1 = Inr a'"
    using "2.prems"(1) by (auto simp: rbind_Inr)
  from "2.prems"(2) obtain c q' m where m: "q = c # q'" "map_of es c = Some m" "node_at m q' = Inr (Symlink t)"
    by (cases q) (auto simp: rbind_Inr lookup_entry_def split: option.splits)
  show ?case using "2.IH" [OF a1 map_of_SomeD [OF m(2)] m(3)] m(1) by simp
next
  case (6 l p name' n es a)
  obtain a1 a2 where s: "charge_entry l (p @ [name']) a = Inr a1" "collect_node l (p @ [name']) n a1 = Inr a2"
    "collect_entries l p es a2 = Inr a'" using "6.prems"(1) by (auto simp: rbind_Inr)
  show ?case
  proof (cases "(name, m) = (name', n)")
    case True
    then show ?thesis using "6.IH"(1) [OF s(1,2)] "6.prems"(3) collect_grows(2) [OF s(3)] by auto
  next
    case False
    then show ?thesis using "6.IH"(2) [OF s] "6.prems" by auto
  qed
qed (auto simp: rbind_Inr lookup_entry_def neq_Nil_conv elim!: node_at.elims)

lemma collect_roots_complete:
  "collect_roots d l roots a = Inr a' \<Longrightarrow> set (c_links a) \<subseteq> set (c_links a')
     \<and> (\<forall>r\<in>set roots. \<forall>q t. node_at d (r @ q) = Inr (Symlink t) \<longrightarrow> r @ q \<in> set (c_links a'))"
proof (induction roots arbitrary: a)
  case (Cons r roots)
  obtain a1 n a2 where s: "charge_entry l r a = Inr a1" "node_at d r = Inr n" "collect_node l r n a1 = Inr a2"
      "collect_roots d l roots a2 = Inr a'"
    using Cons.prems by (auto simp: rbind_Inr collect_links_def metadata_node_at io_def split: sum.splits)
  have "r @ q \<in> set (c_links a2)" if "node_at d (r @ q) = Inr (Symlink t)" for q t
    using collect_complete(1) [OF s(3), of q t] that s(2) by (simp add: node_at_append)
  then show ?case
    using Cons.IH [OF s(4)] collect_grows(1) [OF s(3)] charge_keeps_links(1) [OF s(1)] by auto
qed simp

text \<open>C8. An output tree that passes the check keeps every link inside. For every symbolic link at or below
  a declared output, however deep, resolving its path the way the system does, through any number
  of further links, never leaves the staged tree, stays all the way on paths inside a declared
  output or above one, and ends inside a declared output.\<close>

theorem validated_tree_confines_links:
  assumes "validate_output_tree d outputs l retained = Inr ()" and "out \<in> set outputs"
    and "metadata d (path_of out @ q) = Inr (Symlink t)"
  shows "(\<forall>w. (resolves d)\<^sup>*\<^sup>* (At [] (path_of out @ q)) w \<longrightarrow>
            (\<exists>p cs. w = At p cs \<and> on_declared_path (map path_of outputs) p))
    \<and> (\<exists>p. (resolves d)\<^sup>*\<^sup>* (At [] (path_of out @ q)) (At p []) \<and> path_is_declared p (map path_of outputs))"
proof -
  let ?roots = "map path_of outputs"
  obtain a where a: "collect_roots d l ?roots \<lparr>c_links = [], c_metadata_bytes = retained, c_entries = 0\<rparr> = Inr a"
    "validate_links d (c_links a) ?roots = Inr ()"
    using assms(1) by (auto simp: validate_output_tree_def Let_def rbind_Inr)
  have "path_of out @ q \<in> set (c_links a)"
    using collect_roots_complete [OF a(1)] assms(2,3) by (simp add: metadata_node_at)
  moreover have "?roots \<noteq> []" using assms(2) by auto
  ultimately show ?thesis using validate_links_confined [OF a(2)] unfolding confined_def by simp
qed

text \<open>A link to a sibling, through a link to the directory.\<close>

definition demo_tree :: node where
  "demo_tree = Directory [(''out'', Directory [(''f'', RegularFile), (''here'', Symlink ''.''), (''l'', Symlink ''here/f'')])]"

lemmas validation_simps = validate_output_tree_def collect_links_def charge_entry_def charge_metadata_def limited_def io_def
  check_size_def os_len_def sat_add_def u64_max_def remote_limits_default_def DEFAULT_ACTION_MEMORY_BYTES_def
  metadata_node_at lookup_entry_def path_of_def segments_def path_is_declared_def path_starts_with_def

lemma demo_tree_valid: "validate_output_tree demo_tree [''out''] remote_limits_default 0 = Inr ()"
  by (simp add: demo_tree_def validation_simps link_step_def missing_is_none_def on_declared_path_def Let_def
      read_link_def open_directory_def target_components_def path_components_def body_component_def starts_with_def)

theorem validated_tree_confines_links_witness:
  "\<exists>p. (resolves demo_tree)\<^sup>*\<^sup>* (At [] [''out'', ''l'']) (At p []) \<and> path_is_declared p [[''out'']]"
proof -
  have "path_of ''out'' = [''out'']" by (simp add: path_of_def segments_def)
  moreover have "metadata demo_tree [''out'', ''l''] = Inr (Symlink ''here/f'')"
    by (simp add: demo_tree_def metadata_node_at lookup_entry_def)
  ultimately show ?thesis
    using validated_tree_confines_links [OF demo_tree_valid, of "''out''" "[''l'']"] by simp
qed

section \<open>The budget holds\<close>

lemma charge_prefixes_bound:
  "charge_prefixes l root p pre missing entries bytes cs = Inr (entries', bytes') \<Longrightarrow>
   entries \<le> max_archive_entries l \<Longrightarrow> entries' \<le> max_archive_entries l"
proof (induction l root p pre missing entries bytes cs rule: charge_prefixes.induct)
  case (2 l root p pre missing entries bytes c cs)
  have checked: "within (check_entries n m) = Inr () \<longleftrightarrow> n \<le> m" for n m
    by (simp add: within_def check_entries_def check_size_def)
  show ?case
  proof (cases "missing \<or> metadata root (pre @ [c]) = Inl NotFound")
    case True
    then show ?thesis using "2.prems" "2.IH"(1) by (cases missing) (simp_all add: Let_def rbind_Inr checked)
  next
    case False
    then show ?thesis using "2.prems" "2.IH"(2)
      by (cases "metadata root (pre @ [c])") (auto simp: Let_def split: io_error.splits if_splits)
  qed
qed simp

lemma charge_within_limits:
  assumes "charge b root p retain_mode target = Inr b'" and "eb_entries b \<le> max_archive_entries (eb_limits b)"
  shows "eb_entries b' \<le> max_archive_entries (eb_limits b') \<and> eb_metadata_bytes b' \<le> max_metadata_bytes (eb_limits b')
    \<and> length p \<le> max_output_depth \<and> eb_limits b' = eb_limits b"
  using assms charge_prefixes_bound
  by (fastforce simp: charge_def Let_def rbind_Inr within_def check_size_def split: sum.splits if_splits)

end
