(* ===== verification/Test_Plan.thy ===== *)
theory Test_Plan
  imports Graph_Target "HOL-Library.Product_Lexorder" "HOL-Library.Multiset"
begin

text \<open>
  Test plans and manifests: \<open>crates/once-core/src/test_plan.rs\<close>, \<open>test_plan/validation.rs\<close>,
  \<open>test_manifest/mod.rs\<close>, the planner of \<open>crates/once-cli/src/commands/query/test_plan.rs\<close> and
  the portable plans of \<open>test_plan/portable.rs\<close> and \<open>replay.rs\<close>. Identifiers are digests of the
  serialized value; the digest functions are arguments. Serialization does not fail.
\<close>

section \<open>Data\<close>

record selected_test =
  st_id :: string
  st_kind :: string
  reasons :: "string list"

record test_selection_policy =
  pol_mode :: string
  pol_safety :: string
  pol_evidence :: string

record test_selection_report =
  sel_schema :: string
  sel_policy :: test_selection_policy
  changed_paths :: "string list"
  unmatched_paths :: "string list"
  sel_tests :: "selected_test list"

record test_batch =
  b_id :: string
  b_target :: string
  test_filters :: "string list"

record test_plan =
  plan_schema :: string
  plan_id :: string
  plan_selection :: test_selection_report
  plan_batches :: "test_batch list"

record test_unit =
  tu_id :: string
  tu_name :: string
  tu_suite :: string
  tu_file :: "string option"

record test_sharding =
  shard_supported :: bool
  granularity :: string

record test_manifest =
  tm_schema :: string
  tm_id :: string
  tm_target :: string
  tm_runner :: "string option"
  tm_source :: string
  listing_supported :: bool
  case_filtering :: string
  tm_fingerprint :: "string option"
  tm_sharding :: test_sharding
  tm_units :: "test_unit list"

text \<open>The digests of a batch, a plan, a manifest and a portable plan.\<close>

record 'p digests =
  batch_digest :: "string \<times> string list \<Rightarrow> string"
  plan_digest :: "test_selection_report \<times> test_batch list \<Rightarrow> string"
  manifest_digest :: "test_manifest \<Rightarrow> string"
  portable_digest :: "'p \<Rightarrow> string"

definition TEST_SELECTION_SCHEMA :: string where "TEST_SELECTION_SCHEMA = ''once.test_selection.v1''"
definition TEST_PLAN_SCHEMA :: string where "TEST_PLAN_SCHEMA = ''once.test_plan.v1''"
definition TEST_MANIFEST_SCHEMA :: string where "TEST_MANIFEST_SCHEMA = ''once.test_manifest.v1''"
definition PORTABLE_SCHEMA :: string where "PORTABLE_SCHEMA = ''once.portable_test_plan.v1''"

section \<open>Construction\<close>

definition sort_dedup :: "string list \<Rightarrow> string list" where
  "sort_dedup xs = remdups_adj (sort xs)"

definition batch_new :: "'p digests \<Rightarrow> string \<Rightarrow> string list \<Rightarrow> test_batch" where
  "batch_new D target filters =
     (let filters = sort_dedup filters
      in \<lparr>b_id = batch_digest D (target, filters), b_target = target, test_filters = filters\<rparr>)"

definition canonical_selection :: "test_selection_report \<Rightarrow> test_selection_report" where
  "canonical_selection s =
     s\<lparr>changed_paths := sort_dedup (changed_paths s),
       unmatched_paths := sort_dedup (unmatched_paths s),
       sel_tests := sort_key (\<lambda>t. (st_id t, st_kind t)) (map (\<lambda>t. t\<lparr>reasons := sort_dedup (reasons t)\<rparr>) (sel_tests s))\<rparr>"

definition plan_new :: "'p digests \<Rightarrow> test_selection_report \<Rightarrow> test_batch list \<Rightarrow> test_plan" where
  "plan_new D s bs =
     (let s = canonical_selection s; bs = sort_key b_id bs
      in \<lparr>plan_schema = TEST_PLAN_SCHEMA, plan_id = plan_digest D (s, bs), plan_selection = s, plan_batches = bs\<rparr>)"

definition for_selected_targets :: "'p digests \<Rightarrow> test_selection_report \<Rightarrow> test_plan" where
  "for_selected_targets D s = plan_new D s (map (\<lambda>t. batch_new D (st_id t) []) (sel_tests s))"

section \<open>Validation\<close>

datatype test_error =
  BadSchema | NotCanonical | EmptyTarget | DuplicateTarget | TargetNotSelected | BatchNotCanonical | DuplicateBatch
| Overlap | EmptyUnit | NoBatch | NoSuchTarget | NotATest | BadManifest | BadBinding | Stale | Incomplete | UnknownBatch

fun check_tests :: "string list \<Rightarrow> selected_test list \<Rightarrow> test_error + string list" where
  "check_tests targets [] = Inr targets"
| "check_tests targets (t # ts) =
     (if st_id t = [] then Inl EmptyTarget
      else if st_id t \<in> set targets then Inl DuplicateTarget
      else check_tests (st_id t # targets) ts)"

fun check_units :: "string list \<Rightarrow> string list \<Rightarrow> test_error + string list" where
  "check_units units [] = Inr units"
| "check_units units (u # us) =
     (if u = [] then Inl EmptyUnit else if u \<in> set units then Inl Overlap else check_units (u # units) us)"

text \<open>The loop state: batch identifiers seen, and per target whether a batch takes it whole and the units
  taken.\<close>

type_synonym scopes = "(string, bool \<times> string list) bmap"

definition check_batch ::
  "'p digests \<Rightarrow> string list \<Rightarrow> test_batch \<Rightarrow> string list \<times> scopes \<Rightarrow> test_error + string list \<times> scopes" where
  "check_batch D targets b st = (case st of (ids, scopes) \<Rightarrow>
     if b_target b \<notin> set targets then Inl TargetNotSelected
     else if b \<noteq> batch_new D (b_target b) (test_filters b) then Inl BatchNotCanonical
     else if b_id b \<in> set ids then Inl DuplicateBatch
     else
       (let (whole, units) = (case bm_get scopes (b_target b) of None \<Rightarrow> (False, []) | Some s \<Rightarrow> s)
        in if test_filters b = [] then
             (if whole \<or> units \<noteq> [] then Inl Overlap
              else Inr (b_id b # ids, bm_insert (b_target b) (True, units) scopes))
           else if whole then Inl Overlap
           else rbind (check_units units (test_filters b)) (\<lambda>units.
                  Inr (b_id b # ids, bm_insert (b_target b) (whole, units) scopes))))"

fun check_batches ::
  "'p digests \<Rightarrow> string list \<Rightarrow> test_batch list \<Rightarrow> string list \<times> scopes \<Rightarrow> test_error + string list \<times> scopes" where
  "check_batches D targets [] st = Inr st"
| "check_batches D targets (b # bs) st = rbind (check_batch D targets b st) (\<lambda>st. check_batches D targets bs st)"

definition validate :: "'p digests \<Rightarrow> test_plan \<Rightarrow> test_error + unit" where
  "validate D plan =
     (if plan_schema plan \<noteq> TEST_PLAN_SCHEMA then Inl BadSchema
      else if sel_schema (plan_selection plan) \<noteq> TEST_SELECTION_SCHEMA then Inl BadSchema
      else if plan \<noteq> plan_new D (plan_selection plan) (plan_batches plan) then Inl NotCanonical
      else
        rbind (check_tests [] (sel_tests (plan_selection plan))) (\<lambda>targets.
        rbind (check_batches D targets (plan_batches plan) ([], [])) (\<lambda>(ids, scopes).
          if length targets \<noteq> length scopes then Inl NoBatch else Inr ())))"

section \<open>Manifests\<close>

text \<open>The identity covers every field but the schema and the identity itself.\<close>

definition refresh_id :: "'p digests \<Rightarrow> test_manifest \<Rightarrow> test_manifest" where
  "refresh_id D m = m\<lparr>tm_id := manifest_digest D (m\<lparr>tm_schema := [], tm_id := []\<rparr>)\<rparr>"

fun dedup_by_id :: "test_unit list \<Rightarrow> test_unit list" where
  "dedup_by_id (u # v # us) = (if tu_id u = tu_id v then dedup_by_id (u # us) else u # dedup_by_id (v # us))"
| "dedup_by_id us = us"

definition manifest_new ::
  "'p digests \<Rightarrow> string \<Rightarrow> string option \<Rightarrow> string \<Rightarrow> bool \<Rightarrow> string \<Rightarrow> test_sharding \<Rightarrow> test_unit list \<Rightarrow> test_error + test_manifest" where
  "manifest_new D target runner src listing filtering sharding units =
     (if target = [] then Inl EmptyTarget
      else if list_ex (\<lambda>u. tu_id u = []) units then Inl EmptyUnit
      else Inr (refresh_id D
        \<lparr>tm_schema = TEST_MANIFEST_SCHEMA, tm_id = [], tm_target = target, tm_runner = runner, tm_source = src,
         listing_supported = listing, case_filtering = filtering, tm_fingerprint = None, tm_sharding = sharding,
         tm_units = dedup_by_id (sort_key tu_id units)\<rparr>))"

definition with_discovery_fingerprint :: "'p digests \<Rightarrow> test_manifest \<Rightarrow> string option \<Rightarrow> test_manifest" where
  "with_discovery_fingerprint D m fingerprint = refresh_id D (m\<lparr>tm_fingerprint := fingerprint\<rparr>)"

definition sharding_default :: test_sharding where
  "sharding_default = \<lparr>shard_supported = False, granularity = ''target''\<rparr>"

definition shardable :: "test_manifest \<Rightarrow> bool" where
  "shardable m \<longleftrightarrow> tm_source m = ''normalized_results'' \<and> listing_supported m \<and> case_filtering m = ''runner_args''
     \<and> shard_supported (tm_sharding m) \<and> tm_units m \<noteq> []"

section \<open>The planner\<close>

text \<open>The batches of a file-granular manifest: units grouped by file, unless some unit has none.\<close>

fun group_by_file :: "test_unit list \<Rightarrow> (string, string list) bmap \<Rightarrow> (string, string list) bmap option" where
  "group_by_file [] by_file = Some by_file"
| "group_by_file (u # us) by_file =
     (case tu_file u of
        None \<Rightarrow> None
      | Some f \<Rightarrow>
          if f = [] then None
          else group_by_file us
            (bm_insert f ((case bm_get by_file f of None \<Rightarrow> [] | Some ids \<Rightarrow> ids) @ [tu_id u]) by_file))"

definition batches_for_manifest :: "'p digests \<Rightarrow> selected_test \<Rightarrow> test_manifest \<Rightarrow> test_batch list" where
  "batches_for_manifest D t m =
     (if granularity (tm_sharding m) = ''case'' then map (\<lambda>u. batch_new D (st_id t) [tu_id u]) (tm_units m)
      else if granularity (tm_sharding m) = ''file'' then
        (case group_by_file (tm_units m) [] of
           Some by_file \<Rightarrow>
             if by_file \<noteq> [] then map (\<lambda>(_, units). batch_new D (st_id t) units) by_file
             else [batch_new D (st_id t) []]
         | None \<Rightarrow> [batch_new D (st_id t) []])
      else [batch_new D (st_id t) []])"

text \<open>The stored manifest of a target and whether it is still current come from the workspace.\<close>

definition batches_of_test ::
  "'p digests \<Rightarrow> (string \<Rightarrow> test_manifest option) \<Rightarrow> (string \<Rightarrow> test_manifest \<Rightarrow> bool) \<Rightarrow> selected_test \<Rightarrow> test_batch list" where
  "batches_of_test D stored current t =
     (case stored (st_id t) of
        None \<Rightarrow> [batch_new D (st_id t) []]
      | Some m \<Rightarrow>
          if \<not> (shardable m \<and> current (st_id t) m) then [batch_new D (st_id t) []]
          else batches_for_manifest D t m)"

definition plan_from_selection_with_graph ::
  "'p digests \<Rightarrow> (string \<Rightarrow> test_manifest option) \<Rightarrow> (string \<Rightarrow> test_manifest \<Rightarrow> bool) \<Rightarrow> test_selection_report \<Rightarrow> test_plan" where
  "plan_from_selection_with_graph D stored current s =
     plan_new D s (concat (map (batches_of_test D stored current) (sel_tests s)))"

text \<open>The last target with an identifier wins, as in a map collected from the graph.\<close>

definition target_by_id :: "graph_target list \<Rightarrow> string \<Rightarrow> graph_target option" where
  "target_by_id graph i = map_of (rev (map (\<lambda>t. (gt_id t, t)) graph)) i"

fun explicit_tests :: "graph_target list \<Rightarrow> string list \<Rightarrow> test_error + selected_test list" where
  "explicit_tests graph [] = Inr []"
| "explicit_tests graph (i # is) =
     (case target_by_id graph i of
        None \<Rightarrow> Inl NoSuchTarget
      | Some t \<Rightarrow>
          if \<not> has_capability t ''test'' then Inl NotATest
          else rbind (explicit_tests graph is) (\<lambda>ts.
            Inr (\<lparr>st_id = gt_id t, st_kind = gt_kind t, reasons = [''explicitly requested test target'']\<rparr> # ts)))"

definition explicit_selection :: "string \<Rightarrow> selected_test list \<Rightarrow> test_selection_report" where
  "explicit_selection ev ts =
     \<lparr>sel_schema = TEST_SELECTION_SCHEMA,
      sel_policy = \<lparr>pol_mode = ''explicit'', pol_safety = ''exact'', pol_evidence = ev\<rparr>,
      changed_paths = [], unmatched_paths = [], sel_tests = ts\<rparr>"

definition explicit_plan ::
  "'p digests \<Rightarrow> (string \<Rightarrow> test_manifest option) \<Rightarrow> (string \<Rightarrow> test_manifest \<Rightarrow> bool) \<Rightarrow> graph_target list \<Rightarrow> string list
   \<Rightarrow> test_error + test_plan" where
  "explicit_plan D stored current graph targets =
     rbind (explicit_tests graph targets) (\<lambda>ts.
       Inr (plan_from_selection_with_graph D stored current (explicit_selection ''requested_targets'' ts)))"

definition explicit_unit_plan :: "'p digests \<Rightarrow> graph_target list \<Rightarrow> string \<Rightarrow> string \<Rightarrow> test_error + test_plan" where
  "explicit_unit_plan D graph target_id test_unit =
     (case find (\<lambda>t. gt_id t = target_id) graph of
        None \<Rightarrow> Inl NoSuchTarget
      | Some t \<Rightarrow> Inr (plan_new D
          (explicit_selection ''requested_test_unit''
             [\<lparr>st_id = gt_id t, st_kind = gt_kind t,
               reasons = [''explicitly requested test unit `'' @ test_unit @ ''`'']\<rparr>])
          [batch_new D (gt_id t) [test_unit]]))"

definition select_batch :: "'p digests \<Rightarrow> test_plan \<Rightarrow> string \<Rightarrow> test_error + test_plan" where
  "select_batch D plan batch_id =
     (case find (\<lambda>b. b_id b = batch_id) (plan_batches plan) of
        None \<Rightarrow> Inl UnknownBatch
      | Some b \<Rightarrow> Inr (plan_new D
          ((plan_selection plan)
             \<lparr>sel_policy := \<lparr>pol_mode = ''explicit'', pol_safety = ''exact'', pol_evidence = ''requested_test_batch''\<rparr>,
              sel_tests := map (\<lambda>t. t\<lparr>reasons := [''explicitly requested test batch `'' @ batch_id @ ''`'']\<rparr>)
                (sel_tests (plan_selection plan))\<rparr>) [b]))"

definition explicit_batch_plan ::
  "'p digests \<Rightarrow> (string \<Rightarrow> test_manifest option) \<Rightarrow> (string \<Rightarrow> test_manifest \<Rightarrow> bool) \<Rightarrow> graph_target list \<Rightarrow> string \<Rightarrow> string
   \<Rightarrow> test_error + test_plan" where
  "explicit_batch_plan D stored current graph target batch_id =
     rbind (explicit_plan D stored current graph [target]) (\<lambda>plan. select_batch D plan batch_id)"

section \<open>Portable plans\<close>

record portable_binding =
  pb_target :: string
  pb_fingerprint :: string
  pb_manifest :: "test_manifest option"

record portable_test_plan =
  pp_schema :: string
  pp_id :: string
  pp_plan :: test_plan
  pp_bindings :: "portable_binding list"

type_synonym portable_digests = "(test_plan \<times> portable_binding list) digests"

definition portable_manifest :: "'p digests \<Rightarrow> test_manifest \<Rightarrow> test_error + test_manifest" where
  "portable_manifest D m =
     manifest_new D (tm_target m) (tm_runner m) (tm_source m) (listing_supported m) (case_filtering m) (tm_sharding m) (tm_units m)"

definition portable_identity :: "portable_digests \<Rightarrow> portable_test_plan \<Rightarrow> string" where
  "portable_identity D p = portable_digest D (pp_plan p, pp_bindings p)"

definition check_binding ::
  "portable_digests \<Rightarrow> (string \<Rightarrow> test_error + string) \<Rightarrow> test_plan \<Rightarrow> portable_binding \<times> selected_test \<Rightarrow> test_error + unit" where
  "check_binding D fingerprint plan bt = (case bt of (binding, selected) \<Rightarrow>
     if pb_target binding \<noteq> st_id selected then Inl BadBinding
     else
       rbind (fingerprint (pb_target binding)) (\<lambda>fp.
         if pb_fingerprint binding \<noteq> fp then Inl Stale
         else
           rbind (case pb_manifest binding of
                    Some m \<Rightarrow>
                      if \<not> (tm_target m = pb_target binding \<and> shardable m) then Inl BadManifest
                      else rbind (portable_manifest D m) (\<lambda>m'.
                        if m \<noteq> m' then Inl BadManifest else Inr (batches_for_manifest D selected m))
                  | None \<Rightarrow> Inr [batch_new D (pb_target binding) []]) (\<lambda>expected.
             if filter (\<lambda>b. b_target b = pb_target binding) (plan_batches plan)
                = plan_batches (plan_new D (plan_selection plan) expected)
             then Inr () else Inl Incomplete)))"

fun check_bindings ::
  "portable_digests \<Rightarrow> (string \<Rightarrow> test_error + string) \<Rightarrow> test_plan \<Rightarrow> (portable_binding \<times> selected_test) list \<Rightarrow> test_error + unit" where
  "check_bindings D fingerprint plan [] = Inr ()"
| "check_bindings D fingerprint plan (bt # bts) =
     rbind (check_binding D fingerprint plan bt) (\<lambda>_. check_bindings D fingerprint plan bts)"

definition portable_validate ::
  "portable_digests \<Rightarrow> (string \<Rightarrow> test_error + string) \<Rightarrow> portable_test_plan \<Rightarrow> test_error + unit" where
  "portable_validate D fingerprint p =
     (if pp_schema p \<noteq> PORTABLE_SCHEMA then Inl BadSchema
      else if pp_id p \<noteq> portable_identity D p then Inl NotCanonical
      else
        rbind (validate D (pp_plan p)) (\<lambda>_.
          if length (pp_bindings p) \<noteq> length (sel_tests (plan_selection (pp_plan p))) then Inl BadBinding
          else check_bindings D fingerprint (pp_plan p) (zip (pp_bindings p) (sel_tests (plan_selection (pp_plan p))))))"

definition binding_for ::
  "portable_digests \<Rightarrow> (string \<Rightarrow> test_error + string) \<Rightarrow> (string \<Rightarrow> test_manifest option) \<Rightarrow> selected_test \<Rightarrow> test_error + portable_binding" where
  "binding_for D fingerprint stored t =
     rbind (fingerprint (st_id t)) (\<lambda>fp.
     rbind (case stored (st_id t) of
              Some m \<Rightarrow> if tm_fingerprint m = Some fp then rbind (portable_manifest D m) (\<lambda>m'. Inr (Some m')) else Inr None
            | None \<Rightarrow> Inr None) (\<lambda>manifest.
       Inr \<lparr>pb_target = st_id t, pb_fingerprint = fp,
            pb_manifest = (case manifest of Some m \<Rightarrow> if shardable m then Some m else None | None \<Rightarrow> None)\<rparr>))"

fun bindings_for ::
  "portable_digests \<Rightarrow> (string \<Rightarrow> test_error + string) \<Rightarrow> (string \<Rightarrow> test_manifest option) \<Rightarrow> selected_test list
   \<Rightarrow> test_error + portable_binding list" where
  "bindings_for D fingerprint stored [] = Inr []"
| "bindings_for D fingerprint stored (t # ts) =
     rbind (binding_for D fingerprint stored t) (\<lambda>b. rbind (bindings_for D fingerprint stored ts) (\<lambda>bs. Inr (b # bs)))"

definition export ::
  "portable_digests \<Rightarrow> (string \<Rightarrow> test_error + string) \<Rightarrow> (string \<Rightarrow> test_manifest option) \<Rightarrow> test_plan
   \<Rightarrow> test_error + portable_test_plan" where
  "export D fingerprint stored plan =
     rbind (validate D plan) (\<lambda>_.
     rbind (bindings_for D fingerprint stored (sel_tests (plan_selection plan))) (\<lambda>bs.
       let p = \<lparr>pp_schema = PORTABLE_SCHEMA, pp_id = [], pp_plan = plan, pp_bindings = bs\<rparr>;
           p = p\<lparr>pp_id := portable_identity D p\<rparr>
       in rbind (portable_validate D fingerprint p) (\<lambda>_. Inr p)))"

fun check_selected :: "test_batch list \<Rightarrow> string list \<Rightarrow> string list \<Rightarrow> test_error + string list" where
  "check_selected bs selected [] = Inr selected"
| "check_selected bs selected (i # is) =
     (if i \<in> set selected then Inl DuplicateBatch
      else if \<not> list_ex (\<lambda>b. b_id b = i) bs then Inl UnknownBatch
      else check_selected bs (i # selected) is)"

definition portable_select :: "portable_digests \<Rightarrow> portable_test_plan \<Rightarrow> string list \<Rightarrow> test_error + test_plan" where
  "portable_select D p ids =
     (if ids = [] then Inr (pp_plan p)
      else
        rbind (check_selected (plan_batches (pp_plan p)) [] ids) (\<lambda>selected.
          let batches = filter (\<lambda>b. b_id b \<in> set selected) (plan_batches (pp_plan p));
              targets = map b_target batches;
              sel = plan_selection (pp_plan p);
              sel = sel\<lparr>sel_tests := filter (\<lambda>t. st_id t \<in> set targets) (sel_tests sel),
                        sel_policy := (sel_policy sel)\<lparr>pol_evidence := ''portable_test_batches''\<rparr>\<rparr>;
              plan = plan_new D sel batches
          in rbind (validate D plan) (\<lambda>_. Inr plan)))"

section \<open>What validation means\<close>

definition filters_of :: "string \<Rightarrow> test_batch list \<Rightarrow> string list list" where
  "filters_of t bs = map test_filters (filter (\<lambda>b. b_target b = t) bs)"

text \<open>The batches of a target take it whole, as a single batch without filters, or split it into units no two
  of which share one.\<close>

definition scope_ok :: "string list list \<Rightarrow> bool" where
  "scope_ok fss \<longleftrightarrow> fss = [[]] \<or> [] \<notin> set fss \<and> [] \<notin> set (concat fss) \<and> distinct (concat fss)"

definition batches_ok :: "'p digests \<Rightarrow> string list \<Rightarrow> test_batch list \<Rightarrow> bool" where
  "batches_ok D targets bs \<longleftrightarrow>
     (\<forall>b\<in>set bs. b_target b \<in> set targets \<and> b = batch_new D (b_target b) (test_filters b))
     \<and> distinct (map b_id bs) \<and> (\<forall>t. scope_ok (filters_of t bs))"

definition scopes_abs :: "test_batch list \<Rightarrow> scopes \<Rightarrow> bool" where
  "scopes_abs bs sc \<longleftrightarrow> bm_ok sc
     \<and> (\<forall>t. case bm_get sc t of
           None \<Rightarrow> filters_of t bs = []
         | Some (whole, units) \<Rightarrow> filters_of t bs \<noteq> [] \<and> (whole \<longleftrightarrow> [] \<in> set (filters_of t bs))
             \<and> set units = set (concat (filters_of t bs)))"

lemma filters_of_simps [simp]:
  "filters_of t [] = []"
  "filters_of t (bs @ [b]) = filters_of t bs @ (if b_target b = t then [test_filters b] else [])"
  by (simp_all add: filters_of_def)

lemma scope_ok_Nil [simp]: "scope_ok []"
  by (simp add: scope_ok_def)

lemma scope_ok_prefix: "scope_ok (fss @ gss) \<Longrightarrow> scope_ok fss"
  by (auto simp: scope_ok_def append_eq_Cons_conv)

lemma scope_ok_snoc_whole: "scope_ok (fss @ [[]]) \<longleftrightarrow> fss = []"
  by (auto simp: scope_ok_def append_eq_Cons_conv)

lemma scope_ok_snoc_units:
  "fs \<noteq> [] \<Longrightarrow> scope_ok (fss @ [fs]) \<longleftrightarrow>
     [] \<notin> set fss \<and> scope_ok fss \<and> [] \<notin> set fs \<and> distinct fs \<and> set fs \<inter> set (concat fss) = {}"
  by (auto simp: scope_ok_def append_eq_Cons_conv)

lemma check_units_iff:
  "check_units units us = Inr units' \<longleftrightarrow> [] \<notin> set us \<and> distinct us \<and> set us \<inter> set units = {} \<and> units' = rev us @ units"
  by (induction us arbitrary: units) auto

lemma check_tests_iff:
  "check_tests targets ts = Inr targets' \<longleftrightarrow>
     [] \<notin> st_id ` set ts \<and> distinct (map st_id ts) \<and> set (map st_id ts) \<inter> set targets = {} \<and> targets' = rev (map st_id ts) @ targets"
  by (induction ts arbitrary: targets) auto

lemma batches_ok_snoc:
  "batches_ok D targets (bs @ [b]) \<longleftrightarrow>
     batches_ok D targets bs \<and> b_target b \<in> set targets \<and> b = batch_new D (b_target b) (test_filters b)
     \<and> b_id b \<notin> b_id ` set bs \<and> scope_ok (filters_of (b_target b) bs @ [test_filters b])"
proof -
  have "(\<forall>t. scope_ok (filters_of t (bs @ [b]))) \<longleftrightarrow>
      (\<forall>t. scope_ok (filters_of t bs)) \<and> scope_ok (filters_of (b_target b) bs @ [test_filters b])"
    using scope_ok_prefix by (auto split: if_splits)
  then show ?thesis unfolding batches_ok_def by (simp only:) auto
qed

lemma check_batch_iff:
  assumes "batches_ok D targets bs" and "scopes_abs bs sc" and "set ids = b_id ` set bs"
  shows "(\<exists>st. check_batch D targets b (ids, sc) = Inr st) \<longleftrightarrow> batches_ok D targets (bs @ [b])"
    and "check_batch D targets b (ids, sc) = Inr (ids', sc') \<Longrightarrow> scopes_abs (bs @ [b]) sc' \<and> ids' = b_id b # ids"
proof -
  let ?fss = "filters_of (b_target b) bs" and ?fs = "test_filters b"
  define cur where "cur = (case bm_get sc (b_target b) of None \<Rightarrow> (False, []) | Some s \<Rightarrow> s)"
  obtain whole units where wu: "cur = (whole, units)" by (cases cur)
  have cur: "(whole \<longleftrightarrow> [] \<in> set ?fss) \<and> set units = set (concat ?fss)"
    using assms(2) wu unfolding scopes_abs_def cur_def
    by (cases "bm_get sc (b_target b)") (auto dest!: spec [of _ "b_target b"])
  have ok: "scope_ok ?fss" and okm: "bm_ok sc" using assms(1,2) by (simp_all add: batches_ok_def scopes_abs_def)
  have none: "\<not> whole \<and> units = [] \<longleftrightarrow> ?fss = []"
    using cur ok by (cases ?fss) (auto simp: scope_ok_def)
  have eq: "check_batch D targets b (ids, sc) =
      (if b_target b \<notin> set targets then Inl TargetNotSelected
       else if b \<noteq> batch_new D (b_target b) ?fs then Inl BatchNotCanonical
       else if b_id b \<in> b_id ` set bs then Inl DuplicateBatch
       else if ?fs = [] then (if ?fss \<noteq> [] then Inl Overlap else Inr (b_id b # ids, bm_insert (b_target b) (True, []) sc))
       else if whole then Inl Overlap
       else rbind (check_units units ?fs) (\<lambda>units. Inr (b_id b # ids, bm_insert (b_target b) (False, units) sc)))"
    unfolding check_batch_def prod.case cur_def [symmetric] wu Let_def using none assms(3) by (cases whole) auto
  show "(\<exists>st. check_batch D targets b (ids, sc) = Inr st) \<longleftrightarrow> batches_ok D targets (bs @ [b])"
  proof (cases "?fs = []")
    case True
    then show ?thesis unfolding eq batches_ok_snoc using assms(1) by (simp add: scope_ok_snoc_whole)
  next
    case False
    have "(\<exists>st. rbind (check_units units ?fs) (\<lambda>units. Inr (b_id b # ids, bm_insert (b_target b) (False, units) sc)) = Inr st)
        \<longleftrightarrow> [] \<notin> set ?fs \<and> distinct ?fs \<and> set ?fs \<inter> set units = {}"
      by (simp add: rbind_Inr check_units_iff)
    then show ?thesis
      unfolding eq batches_ok_snoc scope_ok_snoc_units [OF False] using False assms(1) ok cur by auto
  qed
  assume "check_batch D targets b (ids, sc) = Inr (ids', sc')"
  then have res: "ids' = b_id b # ids \<and> (\<exists>units'. sc' = bm_insert (b_target b) (?fs = [] , units') sc
      \<and> (?fs = [] \<longrightarrow> ?fss = []) \<and> (?fs \<noteq> [] \<longrightarrow> \<not> whole) \<and> set units' = set ?fs \<union> set units)"
    unfolding eq using none by (auto simp: rbind_Inr check_units_iff split: if_splits)
  then obtain units' where r: "sc' = bm_insert (b_target b) (?fs = [], units') sc" "?fs = [] \<longrightarrow> ?fss = []"
    "?fs \<noteq> [] \<longrightarrow> \<not> whole" "set units' = set ?fs \<union> set units" by blast
  have "scopes_abs (bs @ [b]) sc'"
    unfolding scopes_abs_def
  proof (intro conjI allI)
    show "bm_ok sc'" using okm r(1) by (simp add: bm_ok_insert)
    fix t
    show "case bm_get sc' t of None \<Rightarrow> filters_of t (bs @ [b]) = []
      | Some (whole, units) \<Rightarrow> filters_of t (bs @ [b]) \<noteq> [] \<and> whole = ([] \<in> set (filters_of t (bs @ [b])))
          \<and> set units = set (concat (filters_of t (bs @ [b])))"
    proof (cases "t = b_target b")
      case True
      then show ?thesis using r cur by (auto simp: bm_get_insert)
    next
      case False
      then have "filters_of t (bs @ [b]) = filters_of t bs" "bm_get sc' t = bm_get sc t"
        by (simp_all add: r(1) bm_get_insert)
      then show ?thesis using assms(2) unfolding scopes_abs_def by (simp only:)
    qed
  qed
  then show "scopes_abs (bs @ [b]) sc' \<and> ids' = b_id b # ids" using res by blast
qed

lemma check_batches_append:
  "check_batches D targets (bs @ cs) st = rbind (check_batches D targets bs st) (\<lambda>st. check_batches D targets cs st)"
proof (induction bs arbitrary: st)
  case (Cons b bs)
  then show ?case by (cases "check_batch D targets b st") simp_all
qed simp

lemma check_batches_iff:
  "(\<exists>st. check_batches D targets bs ([], []) = Inr st) = batches_ok D targets bs
   \<and> (\<forall>ids sc. check_batches D targets bs ([], []) = Inr (ids, sc) \<longrightarrow> scopes_abs bs sc \<and> set ids = b_id ` set bs)"
proof (induction bs rule: rev_induct)
  case Nil
  show ?case by (simp add: batches_ok_def scopes_abs_def scope_ok_def)
next
  case (snoc b bs)
  show ?case
  proof (cases "check_batches D targets bs ([], [])")
    case (Inl e)
    then have "\<not> batches_ok D targets bs" using snoc by auto
    then show ?thesis using Inl by (simp add: check_batches_append batches_ok_snoc)
  next
    case (Inr st)
    obtain ids sc where st: "st = (ids, sc)" by (cases st)
    note a = check_batch_iff [of D targets bs sc ids b]
    have p: "batches_ok D targets bs" "scopes_abs bs sc" "set ids = b_id ` set bs" using snoc Inr st by auto
    have e: "check_batches D targets (bs @ [b]) ([], []) = check_batch D targets b (ids, sc)"
      by (cases "check_batch D targets b (ids, sc)") (simp_all add: check_batches_append Inr st)
    show ?thesis unfolding e using a(1) [OF p] a(2) [OF p] p(3) by auto
  qed
qed

lemma length_scopes:
  assumes "bm_ok sc" and "distinct targets" and "\<And>t. bm_get sc t \<noteq> None \<Longrightarrow> t \<in> set targets"
  shows "length targets = length sc \<longleftrightarrow> (\<forall>t\<in>set targets. bm_get sc t \<noteq> None)"
proof -
  let ?keys = "fst ` set sc"
  have len: "length sc = card ?keys" "length targets = card (set targets)"
    using distinct_card [OF bm_ok_distinct [OF assms(1)]] distinct_card [OF assms(2)] by simp_all
  have sub: "?keys \<subseteq> set targets" using assms(3) by (auto simp: bm_get_None_iff)
  have "card (set targets) = card ?keys \<longleftrightarrow> set targets \<subseteq> ?keys"
    using sub card_subset_eq [of "set targets" ?keys] equalityI [OF sub] by auto
  then show ?thesis unfolding len by (auto simp: bm_get_None_iff subset_iff)
qed

text \<open>The whole contract of a valid plan.\<close>

definition plan_ok :: "'p digests \<Rightarrow> test_plan \<Rightarrow> bool" where
  "plan_ok D plan \<longleftrightarrow>
     (let ids = map st_id (sel_tests (plan_selection plan)); bs = plan_batches plan
      in plan_schema plan = TEST_PLAN_SCHEMA \<and> sel_schema (plan_selection plan) = TEST_SELECTION_SCHEMA
         \<and> plan = plan_new D (plan_selection plan) bs \<and> [] \<notin> set ids \<and> distinct ids
         \<and> batches_ok D ids bs \<and> (\<forall>t\<in>set ids. filters_of t bs \<noteq> []))"

lemma validate_iff: "validate D plan = Inr () \<longleftrightarrow> plan_ok D plan"
proof -
  define ts where "ts = map st_id (sel_tests (plan_selection plan))"
  define bs where "bs = plan_batches plan"
  have okrev: "batches_ok D (rev ts) bs \<longleftrightarrow> batches_ok D ts bs" by (simp add: batches_ok_def)
  have main: "(\<exists>ids sc. check_batches D (rev ts) bs ([], []) = Inr (ids, sc) \<and> length (rev ts) = length sc)
      \<longleftrightarrow> batches_ok D ts bs \<and> (\<forall>t\<in>set ts. filters_of t bs \<noteq> [])" if d: "distinct ts"
  proof (cases "check_batches D (rev ts) bs ([], [])")
    case (Inl e)
    then show ?thesis using check_batches_iff [of D "rev ts" bs] okrev by auto
  next
    case (Inr st)
    obtain ids sc where st: "st = (ids, sc)" by (cases st)
    have ok: "batches_ok D ts bs" and abs: "scopes_abs bs sc"
      using check_batches_iff [of D "rev ts" bs] Inr st okrev by auto
    have get: "bm_get sc t \<noteq> None \<longleftrightarrow> filters_of t bs \<noteq> []" for t
      using abs unfolding scopes_abs_def by (cases "bm_get sc t") (auto dest!: spec [of _ t])
    have "t \<in> set (rev ts)" if "bm_get sc t \<noteq> None" for t
      using ok that unfolding get by (auto simp: batches_ok_def filters_of_def filter_empty_conv)
    then have "length (rev ts) = length sc \<longleftrightarrow> (\<forall>t\<in>set (rev ts). bm_get sc t \<noteq> None)"
      using abs d by (intro length_scopes) (auto simp: scopes_abs_def)
    then show ?thesis using Inr st ok get by simp
  qed
  have im: "st_id ` set (sel_tests (plan_selection plan)) = set ts" by (simp add: ts_def)
  show ?thesis
    unfolding validate_def plan_ok_def Let_def ts_def [symmetric] bs_def [symmetric]
    using main by (auto simp: rbind_Inr check_tests_iff im ts_def [symmetric] bs_def [symmetric] split: if_splits)
qed

section \<open>Canonical forms\<close>

lemma sort_dedup_id: "sorted xs \<Longrightarrow> distinct xs \<Longrightarrow> sort_dedup xs = xs"
  by (simp add: sort_dedup_def sorted_sort_id remdups_adj_distinct)

lemma sorted_remdups_adj_distinct: "sorted xs \<Longrightarrow> distinct (remdups_adj xs)"
  by (induction xs rule: remdups_adj.induct) auto

lemma sorted_sort_dedup: "sorted (sort_dedup xs)" "distinct (sort_dedup xs)" "set (sort_dedup xs) = set xs"
  by (simp_all add: sort_dedup_def sorted_remdups_adj_distinct)

lemma sort_dedup_idem [simp]: "sort_dedup (sort_dedup xs) = sort_dedup xs"
  by (simp add: sort_dedup_id sorted_sort_dedup)

lemma sort_dedup_Nil [simp]: "sort_dedup [] = []" "sort_dedup xs = [] \<longleftrightarrow> xs = []"
  by (simp add: sort_dedup_def) (metis sorted_sort_dedup(3) set_empty)

lemma batch_new_canonical: "b = batch_new D t fs \<Longrightarrow> b = batch_new D (b_target b) (test_filters b)"
  by (simp add: batch_new_def Let_def)

lemma batch_new_sel [simp]: "b_target (batch_new D t fs) = t" "test_filters (batch_new D t fs) = sort_dedup fs"
  by (simp_all add: batch_new_def Let_def)

lemma sort_key_sorted: "sorted (map f xs) \<Longrightarrow> sort_key f xs = xs"
  by (induction xs) (simp_all add: insort_is_Cons)

lemma canonical_selection_idem: "canonical_selection (canonical_selection s) = canonical_selection s"
proof -
  let ?k = "\<lambda>t. (st_id t, st_kind t)" and ?f = "\<lambda>t. t\<lparr>reasons := sort_dedup (reasons t)\<rparr>"
  let ?ts = "sort_key ?k (map ?f (sel_tests s))"
  have "map ?f ?ts = ?ts" by (rule map_idI) auto
  moreover have "sort_key ?k ?ts = ?ts" by (intro sort_key_sorted sorted_sort_key)
  ultimately have "sort_key ?k (map ?f ?ts) = ?ts" by simp
  then show ?thesis by (simp add: canonical_selection_def)
qed

lemma plan_new_canonical:
  assumes "plan = plan_new D s bs"
  shows "plan = plan_new D (plan_selection plan) (plan_batches plan)"
  by (simp add: assms plan_new_def Let_def canonical_selection_idem sort_key_sorted)

lemma scope_ok_mset:
  assumes "mset fss = mset gss" and "scope_ok fss"
  shows "scope_ok gss"
proof -
  have "set fss = set gss" using assms(1) mset_eq_setD by blast
  moreover have "mset (concat fss) = mset (concat gss)" using assms(1) by (metis mset_concat mset_map sum_mset_sum_list)
  moreover have "fss = [[]] \<Longrightarrow> gss = [[]]" using assms(1) by simp
  ultimately show ?thesis
    using assms(2) mset_eq_imp_distinct_iff [of "concat fss" "concat gss"] by (auto simp: scope_ok_def)
qed

lemma scope_ok_filters_sort: "scope_ok (filters_of t (sort_key k bs)) \<longleftrightarrow> scope_ok (filters_of t bs)"
proof -
  have "mset (filters_of t (sort_key k bs)) = mset (filters_of t bs)" by (simp add: filters_of_def)
  then show ?thesis using scope_ok_mset by metis
qed

lemma sel_tests_canonical:
  "st_id ` set (sel_tests (canonical_selection s)) = st_id ` set (sel_tests s)"
  "distinct (map st_id (sel_tests (canonical_selection s))) \<longleftrightarrow> distinct (map st_id (sel_tests s))"
  "sel_schema (canonical_selection s) = sel_schema s"
proof -
  have "mset (map st_id (sel_tests (canonical_selection s))) = mset (map st_id (sel_tests s))"
    by (simp add: canonical_selection_def image_mset.compositionality comp_def)
  from mset_eq_setD [OF this] mset_eq_imp_distinct_iff [OF this]
  show "st_id ` set (sel_tests (canonical_selection s)) = st_id ` set (sel_tests s)"
    "distinct (map st_id (sel_tests (canonical_selection s))) \<longleftrightarrow> distinct (map st_id (sel_tests s))" by simp_all
qed (simp add: canonical_selection_def)

text \<open>A plan built from parts that satisfy the contract satisfies it.\<close>

lemma plan_ok_new:
  assumes "sel_schema s = TEST_SELECTION_SCHEMA" and "[] \<notin> st_id ` set (sel_tests s)" and "distinct (map st_id (sel_tests s))"
    and "batches_ok D (map st_id (sel_tests s)) bs" and "\<And>t. t \<in> st_id ` set (sel_tests s) \<Longrightarrow> filters_of t bs \<noteq> []"
  shows "plan_ok D (plan_new D s bs)"
proof -
  have ids: "distinct (map b_id (sort_key b_id bs)) \<longleftrightarrow> distinct (map b_id bs)"
    by (rule mset_eq_imp_distinct_iff) simp
  have "batches_ok D (map st_id (sel_tests (canonical_selection s))) (sort_key b_id bs)"
    using assms(4) unfolding batches_ok_def set_map sel_tests_canonical(1) ids scope_ok_filters_sort by simp
  moreover have "filters_of t (sort_key b_id bs) \<noteq> []" if "t \<in> st_id ` set (sel_tests s)" for t
    using assms(5) [OF that] by (auto simp: filters_of_def filter_empty_conv)
  moreover have sels: "plan_selection (plan_new D s bs) = canonical_selection s" "plan_batches (plan_new D s bs) = sort_key b_id bs"
      "plan_schema (plan_new D s bs) = TEST_PLAN_SCHEMA"
    by (simp_all add: plan_new_def Let_def)
  ultimately show ?thesis
    unfolding plan_ok_def Let_def
    using assms(1-3) sel_tests_canonical [of s]
    by (intro conjI plan_new_canonical [OF refl]) (simp_all add: sels)
qed

text \<open>C18. A plan is accepted exactly when it is the canonical plan of its selection and batches, every selected
  target is named once, every batch belongs to a selected target under its own identity, and the
  batches of each target cover it without overlap: one batch takes the target whole, or every batch
  names units and no unit is named twice.\<close>

theorem validate_exact:
  "validate D plan = Inr () \<longleftrightarrow>
     plan_schema plan = TEST_PLAN_SCHEMA \<and> sel_schema (plan_selection plan) = TEST_SELECTION_SCHEMA
     \<and> plan = plan_new D (plan_selection plan) (plan_batches plan)
     \<and> distinct ([] # map st_id (sel_tests (plan_selection plan)))
     \<and> list_all (\<lambda>b. b_target b \<in> st_id ` set (sel_tests (plan_selection plan))
         \<and> b = batch_new D (b_target b) (test_filters b)) (plan_batches plan)
     \<and> distinct (map b_id (plan_batches plan))
     \<and> list_all (\<lambda>t. filters_of (st_id t) (plan_batches plan) \<noteq> [] \<and> scope_ok (filters_of (st_id t) (plan_batches plan)))
         (sel_tests (plan_selection plan))"
proof -
  let ?ids = "map st_id (sel_tests (plan_selection plan))" and ?bs = "plan_batches plan"
  have "filters_of t ?bs = []" if "\<forall>b\<in>set ?bs. b_target b \<in> set ?ids" "t \<notin> set ?ids" for t
    using that by (auto simp: filters_of_def filter_empty_conv)
  then have "(\<forall>t. scope_ok (filters_of t ?bs)) \<longleftrightarrow> (\<forall>t\<in>set ?ids. scope_ok (filters_of t ?bs))"
    if "\<forall>b\<in>set ?bs. b_target b \<in> set ?ids"
    using that by (metis scope_ok_prefix append_Nil scope_ok_snoc_whole)
  then show ?thesis
    unfolding validate_iff plan_ok_def batches_ok_def Let_def list_all_iff by auto
qed

section \<open>The planner makes valid plans\<close>

lemma append_group_mset:
  "bm_ok m \<Longrightarrow> mset (concat (map snd (bm_insert k ((case bm_get m k of None \<Rightarrow> [] | Some ids \<Rightarrow> ids) @ [x]) m)))
     = add_mset x (mset (concat (map snd m)))"
proof (induction m)
  case (Cons e m)
  obtain k' v where e: "e = (k', v)" by (cases e)
  have "bm_get m k = None" if "k < k'" using Cons.prems e that by (auto simp: bm_get_None_iff)
  then show ?case using Cons e by auto
qed simp

lemma group_by_file_spec:
  "group_by_file us m = Some m' \<Longrightarrow> bm_ok m \<Longrightarrow> [] \<notin> snd ` set m \<Longrightarrow>
   [] \<notin> snd ` set m' \<and> mset (concat (map snd m')) = mset (concat (map snd m)) + mset (map tu_id us)"
proof (induction us arbitrary: m)
  case (Cons u us)
  obtain f where f: "tu_file u = Some f" "f \<noteq> []" using Cons.prems(1) by (auto split: option.splits if_splits)
  define g where "g = (case bm_get m f of None \<Rightarrow> [] | Some ids \<Rightarrow> ids) @ [tu_id u]"
  have "group_by_file us (bm_insert f g m) = Some m'" using Cons.prems(1) f by (simp add: g_def)
  moreover have "[] \<notin> snd ` set (bm_insert f g m)"
    using Cons.prems(3) bm_insert_entries [of f g m] by (force simp: g_def)
  ultimately have "[] \<notin> snd ` set m' \<and> mset (concat (map snd m')) = mset (concat (map snd (bm_insert f g m))) + mset (map tu_id us)"
    using Cons.IH Cons.prems(2) by (simp add: bm_ok_insert)
  then show ?case using append_group_mset [OF Cons.prems(2), of f "tu_id u"] by (simp add: g_def)
qed simp

text \<open>What \<open>manifest_new\<close> establishes of the units.\<close>

definition units_ok :: "test_unit list \<Rightarrow> bool" where
  "units_ok us \<longleftrightarrow> distinct (map tu_id us) \<and> [] \<notin> tu_id ` set us"

lemma dedup_by_id_spec:
  "sorted (map tu_id us) \<Longrightarrow> set (map tu_id (dedup_by_id us)) = set (map tu_id us) \<and> distinct (map tu_id (dedup_by_id us))"
proof (induction us rule: dedup_by_id.induct)
  case (1 u v us)
  then show ?case by (cases "tu_id u = tu_id v") force+
qed auto

lemma manifest_new_units:
  assumes "manifest_new D target runner src listing filtering sharding units = Inr m"
  shows "units_ok (tm_units m)"
proof -
  have "tm_units m = dedup_by_id (sort_key tu_id units)" "[] \<notin> tu_id ` set units"
    using assms by (auto simp: manifest_new_def refresh_id_def list_ex_iff split: if_splits)
  then show ?thesis using dedup_by_id_spec [of "sort_key tu_id units"] by (simp add: units_ok_def)
qed

lemma sort_dedup_mset: "distinct g \<Longrightarrow> mset (sort_dedup g) = mset g"
  by (simp add: sort_dedup_def remdups_adj_distinct)

lemma scope_ok_groups:
  assumes "[] \<notin> set gs" and "distinct (concat gs)" and "[] \<notin> set (concat gs)"
  shows "scope_ok (map sort_dedup gs)"
proof -
  have "mset (concat (map sort_dedup gs)) = mset (concat gs)"
    using assms(2) by (induction gs) (simp_all add: sort_dedup_mset)
  moreover have "[] \<notin> set (map sort_dedup gs)" using assms(1) by (metis (no_types) imageE set_map sort_dedup_Nil(2))
  ultimately show ?thesis
    using mset_eq_imp_distinct_iff [of "concat (map sort_dedup gs)" "concat gs"] mset_eq_setD assms(2,3)
    unfolding scope_ok_def by blast
qed

lemma scope_ok_distinct: "scope_ok fss \<Longrightarrow> distinct fss"
proof (induction fss)
  case (Cons fs fss)
  then have "scope_ok fss" using scope_ok_prefix by (auto simp: scope_ok_def)
  moreover have "fs \<notin> set fss" using Cons.prems by (cases fs) (auto simp: scope_ok_def)
  ultimately show ?case using Cons.IH by simp
qed simp

lemma batches_for_manifest_spec:
  assumes "units_ok (tm_units m)" and "tm_units m \<noteq> []"
  shows "(\<forall>b\<in>set (batches_for_manifest D t m). b_target b = st_id t \<and> b = batch_new D (b_target b) (test_filters b))
    \<and> batches_for_manifest D t m \<noteq> [] \<and> scope_ok (map test_filters (batches_for_manifest D t m))"
proof -
  let ?whole = "[batch_new D (st_id t) []]"
  have whole: "(\<forall>b\<in>set ?whole. b_target b = st_id t \<and> b = batch_new D (b_target b) (test_filters b))
    \<and> ?whole \<noteq> [] \<and> scope_ok (map test_filters ?whole)"
    using batch_new_canonical [OF refl] by (simp add: scope_ok_def)
  have split: "(\<forall>b\<in>set bs. b_target b = st_id t \<and> b = batch_new D (b_target b) (test_filters b))
      \<and> bs \<noteq> [] \<and> scope_ok (map test_filters bs)"
    if "bs = map (batch_new D (st_id t)) gs" "gs \<noteq> []" "[] \<notin> set gs" "mset (concat gs) = mset (map tu_id (tm_units m))" for bs gs
  proof -
    have "distinct (concat gs)" "[] \<notin> set (concat gs)"
      using assms(1) mset_eq_imp_distinct_iff [OF that(4)] mset_eq_setD [OF that(4)] by (simp_all add: units_ok_def)
    then have "scope_ok (map sort_dedup gs)" using scope_ok_groups that(3) by blast
    then show ?thesis using that(1,2) batch_new_canonical [OF refl] by (auto simp: comp_def)
  qed
  show ?thesis
  proof (cases "granularity (tm_sharding m) = ''case''")
    case True
    then show ?thesis using assms(2)
      by (intro split [of _ "map (\<lambda>u. [tu_id u]) (tm_units m)"]) (auto simp: batches_for_manifest_def comp_def concat_map_singleton)
  next
    case not_case: False
    show ?thesis
    proof (cases "granularity (tm_sharding m) = ''file'' \<and> group_by_file (tm_units m) [] \<noteq> None
        \<and> group_by_file (tm_units m) [] \<noteq> Some []")
      case True
      then obtain by_file where g: "group_by_file (tm_units m) [] = Some by_file" "by_file \<noteq> []" by blast
      from group_by_file_spec [OF g(1)] True g show ?thesis
        by (intro split [of _ "map snd by_file"]) (auto simp: batches_for_manifest_def not_case)
    next
      case False
      then have "batches_for_manifest D t m = ?whole"
        using not_case by (auto simp: batches_for_manifest_def split: option.splits)
      then show ?thesis using whole by simp
    qed
  qed
qed

lemma batches_of_test_spec:
  assumes "\<And>m. stored (st_id t) = Some m \<Longrightarrow> units_ok (tm_units m)"
  shows "(\<forall>b\<in>set (batches_of_test D stored current t). b_target b = st_id t \<and> b = batch_new D (b_target b) (test_filters b))
    \<and> batches_of_test D stored current t \<noteq> [] \<and> scope_ok (map test_filters (batches_of_test D stored current t))"
proof (cases "\<exists>m. stored (st_id t) = Some m \<and> shardable m \<and> current (st_id t) m")
  case True
  then obtain m where m: "stored (st_id t) = Some m" "shardable m" "current (st_id t) m" by blast
  then have "batches_of_test D stored current t = batches_for_manifest D t m" "tm_units m \<noteq> []"
    by (simp_all add: batches_of_test_def shardable_def)
  then show ?thesis using batches_for_manifest_spec [OF assms [OF m(1)]] by simp
next
  case False
  then have "batches_of_test D stored current t = [batch_new D (st_id t) []]"
    by (auto simp: batches_of_test_def split: option.splits)
  then show ?thesis using batch_new_canonical [OF refl] by (simp add: scope_ok_def)
qed

lemma filters_of_other: "\<forall>b\<in>set bs. b_target b \<noteq> t \<Longrightarrow> filters_of t bs = []"
  by (simp add: filters_of_def)

lemma filters_of_own: "\<forall>b\<in>set bs. b_target b = t \<Longrightarrow> filters_of t bs = map test_filters bs"
  by (simp add: filters_of_def)

lemma filters_of_append: "filters_of t (bs @ cs) = filters_of t bs @ filters_of t cs"
  by (simp add: filters_of_def)

lemma filters_of_concat:
  assumes "\<And>x. x \<in> set ts \<Longrightarrow> \<forall>b\<in>set (f x). b_target b = st_id x" and "distinct (map st_id ts)"
  shows "filters_of t (concat (map f ts)) = (case find (\<lambda>x. st_id x = t) ts of None \<Rightarrow> [] | Some x \<Rightarrow> map test_filters (f x))"
  using assms
proof (induction ts)
  case (Cons x ts)
  have own: "\<forall>b\<in>set (f x). b_target b = st_id x" using Cons.prems(1) by simp
  have IH: "filters_of t (concat (map f ts)) = (case find (\<lambda>x. st_id x = t) ts of None \<Rightarrow> [] | Some x \<Rightarrow> map test_filters (f x))"
    using Cons by simp
  show ?case
  proof (cases "st_id x = t")
    case True
    then have "find (\<lambda>x. st_id x = t) ts = None" using Cons.prems(2) by (simp add: find_None_iff) (metis image_eqI)
    then show ?thesis using True IH own by (simp add: filters_of_append filters_of_own)
  next
    case False
    then have "filters_of t (f x) = []" using own by (intro filters_of_other) simp
    then show ?thesis using False IH by (simp add: filters_of_append)
  qed
qed simp

lemma distinct_batch_keys:
  "(\<And>t. distinct (filters_of t bs)) \<Longrightarrow> distinct (map (\<lambda>b. (b_target b, test_filters b)) bs)"
proof (induction bs rule: rev_induct)
  case (snoc b bs)
  have "distinct (filters_of t bs)" for t using snoc.prems [of t] by (simp split: if_splits)
  moreover have "test_filters b \<notin> set (filters_of (b_target b) bs)" using snoc.prems [of "b_target b"] by simp
  ultimately show ?case using snoc.IH by (auto simp: filters_of_def)
qed simp

text \<open>C23. Every plan the planner makes passes its own validation. Whatever the selection, with stored
  manifests as \<open>TestManifest::new\<close> leaves them, sharded by case, by file or not at all, current or
  stale, the batches cover each selected target without overlap and the plan is canonical. The
  hypothesis on the digest is that the batches of this plan do not collide.\<close>

theorem planned_batches_validate:
  assumes "sel_schema s = TEST_SELECTION_SCHEMA" and "distinct ([] # map st_id (sel_tests s))"
    and "\<And>i m. stored i = Some m \<Longrightarrow> distinct ([] # map tu_id (tm_units m))"
    and "inj_on (batch_digest D) ((\<lambda>b. (b_target b, test_filters b)) ` set (concat (map (batches_of_test D stored current) (sel_tests s))))"
  shows "validate D (plan_from_selection_with_graph D stored current s) = Inr ()"
proof -
  let ?f = "batches_of_test D stored current" and ?key = "\<lambda>b. (b_target b, test_filters b)"
  let ?bs = "concat (map ?f (sel_tests s))"
  have spec: "(\<forall>b\<in>set (?f t). b_target b = st_id t \<and> b = batch_new D (b_target b) (test_filters b))
      \<and> ?f t \<noteq> [] \<and> scope_ok (map test_filters (?f t))" for t
    by (rule batches_of_test_spec) (use assms(3) in \<open>simp add: units_ok_def\<close>)
  have fo: "filters_of t ?bs = (case find (\<lambda>x. st_id x = t) (sel_tests s) of None \<Rightarrow> [] | Some x \<Rightarrow> map test_filters (?f x))" for t
    using filters_of_concat [of "sel_tests s" ?f t] spec assms(2) by simp
  have scope: "scope_ok (filters_of t ?bs)" for t
    unfolding fo using spec by (cases "find (\<lambda>x. st_id x = t) (sel_tests s)") simp_all
  have canon: "b_target b \<in> st_id ` set (sel_tests s) \<and> b = batch_new D (b_target b) (test_filters b)" if b: "b \<in> set ?bs" for b
  proof -
    obtain t where "t \<in> set (sel_tests s)" "b \<in> set (?f t)" using b by auto
    then show ?thesis using spec [of t] by blast
  qed
  have "distinct (map ?key ?bs)" using distinct_batch_keys scope scope_ok_distinct by blast
  moreover have "map b_id ?bs = map (\<lambda>b. batch_digest D (?key b)) ?bs"
  proof (rule map_cong [OF refl])
    fix b assume "b \<in> set ?bs"
    then have "b = batch_new D (b_target b) (test_filters b)" using canon by blast
    then show "b_id b = batch_digest D (?key b)" by (metis batch_new_def batch_new_sel(2) test_batch.select_convs(1))
  qed
  ultimately have "distinct (map b_id ?bs)"
    using assms(4) by (simp only: distinct_map) (auto simp: inj_on_def)
  then have "batches_ok D (map st_id (sel_tests s)) ?bs"
    unfolding batches_ok_def using canon scope by (simp del: set_concat)
  moreover have "filters_of t ?bs \<noteq> []" if "t \<in> st_id ` set (sel_tests s)" for t
    using that spec unfolding fo by (auto simp: find_None_iff split: option.split)
  ultimately show ?thesis
    unfolding plan_from_selection_with_graph_def validate_iff using assms(1,2) by (intro plan_ok_new) auto
qed

section \<open>Selecting batches of a portable plan\<close>

lemma check_selected_iff:
  "check_selected bs selected is = Inr selected' \<longleftrightarrow>
     distinct is \<and> set is \<inter> set selected = {} \<and> set is \<subseteq> b_id ` set bs \<and> selected' = rev is @ selected"
  by (induction "is" arbitrary: selected) (auto simp: list_ex_iff)

lemma plan_ok_sorted:
  assumes "plan_ok D plan"
  shows "sorted (map b_id (plan_batches plan))"
    and "sorted (map (\<lambda>t. (st_id t, st_kind t)) (sel_tests (plan_selection plan)))"
    and "\<forall>t\<in>set (sel_tests (plan_selection plan)). sort_dedup (reasons t) = reasons t"
proof -
  obtain s bs where s: "s = plan_selection plan" and bs: "bs = plan_batches plan" by blast
  have eq: "plan = plan_new D s bs" using assms unfolding plan_ok_def Let_def s bs by blast
  show "sorted (map b_id (plan_batches plan))"
    unfolding eq by (simp add: plan_new_def Let_def)
  show "sorted (map (\<lambda>t. (st_id t, st_kind t)) (sel_tests (plan_selection plan)))"
    unfolding eq by (simp add: plan_new_def canonical_selection_def Let_def)
  show "\<forall>t\<in>set (sel_tests (plan_selection plan)). sort_dedup (reasons t) = reasons t"
    unfolding eq by (simp add: plan_new_def canonical_selection_def Let_def)
qed

lemma scope_ok_map_filter:
  assumes "scope_ok (map g xs)"
  shows "scope_ok (map g (filter P xs))"
proof (cases "map g xs = [[]]")
  case True
  then show ?thesis by (cases xs) (auto simp: scope_ok_def)
next
  case False
  have "distinct (concat (map g (filter P xs)))" if "distinct (concat (map g xs))"
    using that by (induction xs) auto
  then show ?thesis using assms False unfolding scope_ok_def by auto
qed

lemma scope_ok_filter: "scope_ok (filters_of t bs) \<Longrightarrow> scope_ok (filters_of t (filter P bs))"
  using scope_ok_map_filter [of test_filters "filter (\<lambda>b. b_target b = t) bs" P]
  by (simp add: filters_of_def conj_commute)

lemma batches_ok_filter:
  assumes "batches_ok D ids bs" and "b_target ` set (filter P bs) \<subseteq> set ids'"
  shows "batches_ok D ids' (filter P bs)"
  using assms scope_ok_filter unfolding batches_ok_def by (auto simp: distinct_map_filter)

text \<open>C24. Selecting batches of a valid portable plan succeeds exactly when the identifiers are distinct and
  known, and gives a valid plan with exactly those batches, in order, and exactly the targets they
  belong to. So shards chosen by identifier run every batch once when the shards partition the
  identifiers.\<close>

theorem portable_select_exact:
  assumes "validate D (pp_plan p) = Inr ()" and "ids \<noteq> []"
  shows "case portable_select D p ids of
      Inl e \<Rightarrow> \<not> (distinct ids \<and> set ids \<subseteq> b_id ` set (plan_batches (pp_plan p)))
    | Inr plan \<Rightarrow> distinct ids \<and> set ids \<subseteq> b_id ` set (plan_batches (pp_plan p)) \<and> validate D plan = Inr ()
        \<and> plan_batches plan = filter (\<lambda>b. b_id b \<in> set ids) (plan_batches (pp_plan p))
        \<and> map st_id (sel_tests (plan_selection plan))
          = filter (\<lambda>t. t \<in> b_target ` set (plan_batches plan)) (map st_id (sel_tests (plan_selection (pp_plan p))))"
proof (cases "check_selected (plan_batches (pp_plan p)) [] ids")
  case (Inl e)
  then have "\<not> (distinct ids \<and> set ids \<subseteq> b_id ` set (plan_batches (pp_plan p)))"
    using check_selected_iff [of "plan_batches (pp_plan p)" "[]" ids "rev ids"] by auto
  then show ?thesis using Inl assms(2) by (simp add: portable_select_def)
next
  case (Inr selected)
  then have sel: "distinct ids" "set ids \<subseteq> b_id ` set (plan_batches (pp_plan p))" "set selected = set ids"
    by (simp_all add: check_selected_iff)
  define s where "s = plan_selection (pp_plan p)"
  define bs where "bs = filter (\<lambda>b. b_id b \<in> set ids) (plan_batches (pp_plan p))"
  define ts where "ts = filter (\<lambda>t. st_id t \<in> b_target ` set bs) (sel_tests s)"
  define s' where "s' = s\<lparr>sel_tests := ts, sel_policy := (sel_policy s)\<lparr>pol_evidence := ''portable_test_batches''\<rparr>\<rparr>"
  have ok: "plan_ok D (pp_plan p)" using assms(1) by (simp add: validate_iff)
  have run: "portable_select D p ids = rbind (validate D (plan_new D s' bs)) (\<lambda>_. Inr (plan_new D s' bs))"
    using Inr assms(2) sel(3) by (simp add: portable_select_def Let_def s_def bs_def ts_def s'_def)
  have fields: "sel_tests s' = ts" "sel_schema s' = sel_schema s" by (simp_all add: s'_def)
  have tests: "sel_schema s = TEST_SELECTION_SCHEMA" "[] \<notin> set (map st_id (sel_tests s))" "distinct (map st_id (sel_tests s))"
      "batches_ok D (map st_id (sel_tests s)) (plan_batches (pp_plan p))"
    using ok by (simp_all add: plan_ok_def Let_def s_def)
  have "b_target ` set bs \<subseteq> set (map st_id ts)"
  proof
    fix t assume t: "t \<in> b_target ` set bs"
    then have "t \<in> st_id ` set (sel_tests s)" using tests(4) unfolding batches_ok_def bs_def by auto
    then show "t \<in> set (map st_id ts)" using t by (auto simp: ts_def)
  qed
  then have "batches_ok D (map st_id ts) bs" using batches_ok_filter [OF tests(4)] by (simp add: bs_def)
  moreover have "filters_of t bs \<noteq> []" if "t \<in> st_id ` set ts" for t
    using that by (auto simp: filters_of_def filter_empty_conv ts_def)
  ultimately have valid: "validate D (plan_new D s' bs) = Inr ()"
    unfolding validate_iff using tests(1-3) by (intro plan_ok_new) (auto simp: fields ts_def distinct_map_filter)
  note order = plan_ok_sorted [OF ok, folded s_def]
  have "sort_key b_id bs = bs" using order(1) by (simp add: bs_def sort_key_sorted sorted_filter)
  moreover have "map (\<lambda>t. t\<lparr>reasons := sort_dedup (reasons t)\<rparr>) ts = ts"
    using order(3) by (intro map_idI) (auto simp: ts_def)
  moreover have "sort_key (\<lambda>t. (st_id t, st_kind t)) ts = ts" using order(2) by (simp add: ts_def sort_key_sorted sorted_filter)
  ultimately have "plan_batches (plan_new D s' bs) = bs" "sel_tests (plan_selection (plan_new D s' bs)) = ts"
    by (simp_all add: plan_new_def canonical_selection_def Let_def fields)
  then show ?thesis using run valid sel by (simp add: bs_def ts_def s_def filter_map comp_def)
qed

text \<open>A plan with a file-sharded and an unsharded target.\<close>

definition demo_digests :: portable_digests where
  "demo_digests = \<lparr>batch_digest = (\<lambda>(t, fs). t @ concat fs), plan_digest = (\<lambda>_. ''p''), manifest_digest = (\<lambda>_. ''m''),
     portable_digest = (\<lambda>_. ''x'')\<rparr>"

definition demo_manifest :: test_manifest where
  "demo_manifest = \<lparr>tm_schema = TEST_MANIFEST_SCHEMA, tm_id = ''m'', tm_target = ''a'', tm_runner = None,
     tm_source = ''normalized_results'', listing_supported = True, case_filtering = ''runner_args'', tm_fingerprint = None,
     tm_sharding = \<lparr>shard_supported = True, granularity = ''file''\<rparr>,
     tm_units = [\<lparr>tu_id = ''u'', tu_name = ''u'', tu_suite = ''s'', tu_file = Some ''f''\<rparr>,
                 \<lparr>tu_id = ''v'', tu_name = ''v'', tu_suite = ''s'', tu_file = Some ''g''\<rparr>,
                 \<lparr>tu_id = ''w'', tu_name = ''w'', tu_suite = ''s'', tu_file = Some ''f''\<rparr>]\<rparr>"

definition demo_stored :: "string \<Rightarrow> test_manifest option" where
  "demo_stored i = (if i = ''a'' then Some demo_manifest else None)"

definition demo_selection :: test_selection_report where
  "demo_selection = explicit_selection ''requested_targets''
     [\<lparr>st_id = ''b'', st_kind = ''k'', reasons = [''r'']\<rparr>, \<lparr>st_id = ''a'', st_kind = ''k'', reasons = [''r'']\<rparr>]"

lemma demo_batches:
  "concat (map (batches_of_test demo_digests demo_stored (\<lambda>_ _. True)) (sel_tests demo_selection))
     = [\<lparr>b_id = ''b'', b_target = ''b'', test_filters = []\<rparr>, \<lparr>b_id = ''auw'', b_target = ''a'', test_filters = [''u'', ''w'']\<rparr>,
        \<lparr>b_id = ''av'', b_target = ''a'', test_filters = [''v'']\<rparr>]"
  by code_simp

theorem planned_batches_validate_witness:
  "validate demo_digests (plan_from_selection_with_graph demo_digests demo_stored (\<lambda>_ _. True) demo_selection) = Inr ()"
proof (rule planned_batches_validate)
  show "sel_schema demo_selection = TEST_SELECTION_SCHEMA" "distinct ([] # map st_id (sel_tests demo_selection))"
    by (simp_all add: demo_selection_def explicit_selection_def)
  show "distinct ([] # map tu_id (tm_units m))" if "demo_stored i = Some m" for i m
    using that by (auto simp: demo_stored_def demo_manifest_def split: if_splits)
  show "inj_on (batch_digest demo_digests)
     ((\<lambda>b. (b_target b, test_filters b)) ` set (concat (map (batches_of_test demo_digests demo_stored (\<lambda>_ _. True)) (sel_tests demo_selection))))"
    unfolding demo_batches by (simp add: demo_digests_def)
qed

theorem portable_select_exact_witness:
  "case portable_select demo_digests
       \<lparr>pp_schema = PORTABLE_SCHEMA, pp_id = ''x'', pp_plan = for_selected_targets demo_digests demo_selection, pp_bindings = []\<rparr> [''b''] of
     Inl _ \<Rightarrow> False
   | Inr plan \<Rightarrow> map b_id (plan_batches plan) = [''b''] \<and> map st_id (sel_tests (plan_selection plan)) = [''b'']"
proof -
  let ?plan = "for_selected_targets demo_digests demo_selection"
  let ?p = "\<lparr>pp_schema = PORTABLE_SCHEMA, pp_id = ''x'', pp_plan = ?plan, pp_bindings = []\<rparr>"
  have v: "validate demo_digests (pp_plan ?p) = Inr ()" by code_simp
  have b: "map b_id (plan_batches ?plan) = [''a'', ''b'']" "map st_id (sel_tests (plan_selection ?plan)) = [''a'', ''b'']"
      "map b_id (filter (\<lambda>b. b_id b \<in> set [''b'']) (plan_batches ?plan)) = [''b'']"
      "map b_target (filter (\<lambda>b. b_id b \<in> set [''b'']) (plan_batches ?plan)) = [''b'']"
    by code_simp+
  have known: "distinct [''b''] \<and> set [''b''] \<subseteq> b_id ` set (plan_batches (pp_plan ?p))"
    using arg_cong [OF b(1), of set] by simp
  have targets: "b_target ` set (filter (\<lambda>b. b_id b \<in> set [''b'']) (plan_batches ?plan)) = {''b''}"
    using arg_cong [OF b(4), of set] by simp
  show ?thesis
    using portable_select_exact [OF v, of "[''b'']"] known b(2,3) targets
    by (cases "portable_select demo_digests ?p [''b'']") simp_all
qed

end
