(* ===== verification/Test_Selection.thy ===== *)
theory Test_Selection
  imports Test_Plan Workspace_Path
begin

text \<open>
  Which tests a change affects: \<open>selection.rs\<close> and \<open>inputs.rs\<close> under
  \<open>crates/once-cli/src/commands/query/test_plan\<close>, and the entry points of \<open>test_plan.rs\<close>.
  Glob patterns are a library: whether a pattern is one and what it matches are arguments. The
  inputs a target's metadata analysis reports and the module paths of the workspace manifest are
  read from the workspace and are arguments as well.
\<close>

section \<open>Input patterns\<close>

datatype input_pattern = Exact string | Glob string

record globs =
  glob_valid :: "string \<Rightarrow> bool"
  glob_matches :: "string \<Rightarrow> string \<Rightarrow> bool"

definition TOML_BUILD_FILE_NAME :: string where "TOML_BUILD_FILE_NAME = ''once.toml''"

definition has_glob_metacharacters :: "string \<Rightarrow> bool" where
  "has_glob_metacharacters pattern = list_ex (\<lambda>c. c = CHR ''?'' \<or> c = CHR ''*'' \<or> c = CHR ''['') pattern"

definition safe_pattern :: "string \<Rightarrow> bool" where
  "safe_pattern pattern \<longleftrightarrow> \<not> is_absolute pattern
     \<and> list_all (\<lambda>c. case c of Normal _ \<Rightarrow> True | CurDir \<Rightarrow> True | _ \<Rightarrow> False) (path_components pattern)"

definition workspace_relative :: "globs \<Rightarrow> string \<Rightarrow> input_pattern option" where
  "workspace_relative G pattern =
     (if \<not> safe_pattern pattern then None
      else if has_glob_metacharacters pattern then (if glob_valid G pattern then Some (Glob pattern) else None)
      else case try_from pattern of Inl _ \<Rightarrow> None | Inr path \<Rightarrow> Some (Exact path))"

definition package_relative :: "globs \<Rightarrow> string \<Rightarrow> string \<Rightarrow> input_pattern option" where
  "package_relative G package pattern =
     workspace_relative G (if package = [] then pattern else package @ ''/'' @ pattern)"

fun pattern_matches :: "globs \<Rightarrow> input_pattern \<Rightarrow> string \<Rightarrow> bool" where
  "pattern_matches G (Exact expected) path = (expected = path)"
| "pattern_matches G (Glob pattern) path = glob_matches G pattern path"

definition is_graph_input :: "globs \<Rightarrow> string \<Rightarrow> input_pattern list \<Rightarrow> bool" where
  "is_graph_input G path patterns = list_ex (\<lambda>p. pattern_matches G p path) patterns"

definition target_patterns_of :: "globs \<Rightarrow> (graph_target \<Rightarrow> string list) \<Rightarrow> graph_target \<Rightarrow> input_pattern list" where
  "target_patterns_of G affected_inputs t =
     List.map_filter (package_relative G (gt_package t)) (gt_srcs t)
     @ (if has_capability t ''metadata'' then List.map_filter (workspace_relative G) (affected_inputs t) else [])"

definition target_input_patterns ::
  "globs \<Rightarrow> (graph_target \<Rightarrow> string list) \<Rightarrow> graph_target list \<Rightarrow> (string, input_pattern list) bmap" where
  "target_input_patterns G affected_inputs graph =
     foldl (\<lambda>m t. bm_insert (gt_id t) (target_patterns_of G affected_inputs t) m) [] graph"

text \<open>Without a workspace manifest there are no graph inputs.\<close>

definition workspace_graph_input_patterns :: "globs \<Rightarrow> string list option \<Rightarrow> input_pattern list" where
  "workspace_graph_input_patterns G manifest =
     (case manifest of
        None \<Rightarrow> []
      | Some module_paths \<Rightarrow> Exact TOML_BUILD_FILE_NAME # List.map_filter (workspace_relative G) module_paths)"

section \<open>Owners of a path\<close>

definition package_contains_path :: "string \<Rightarrow> string \<Rightarrow> bool" where
  "package_contains_path package path_package =
     (if package = [] then path_package = []
      else path_package = package
        \<or> (case strip_prefix package path_package of None \<Rightarrow> False | Some rest \<Rightarrow> starts_with ''/'' rest))"

definition before_last_slash :: "string \<Rightarrow> string" where
  "before_last_slash path =
     (if CHR ''/'' \<in> set path then rev (tl (dropWhile (\<lambda>c. c \<noteq> CHR ''/'') (rev path))) else [])"

definition path_package :: "string \<Rightarrow> string" where
  "path_package path =
     (let manifest_suffix = ''/'' @ TOML_BUILD_FILE_NAME
      in if ends_with manifest_suffix path then take (length path - length manifest_suffix) path
         else before_last_slash path)"

definition nearest_package_owners :: "string \<Rightarrow> graph_target list \<Rightarrow> string list" where
  "nearest_package_owners path graph =
     (let containing = filter (\<lambda>t. package_contains_path (gt_package t) (path_package path)) graph
      in case map (\<lambda>t. length (gt_package t)) containing of
           [] \<Rightarrow> []
         | l # ls \<Rightarrow>
             let longest = fold max ls l
             in map gt_id (filter (\<lambda>t. length (gt_package t) = longest
                  \<and> package_contains_path (gt_package t) (path_package path)) graph))"

fun trim_start_dot_slash :: "string \<Rightarrow> string" where
  "trim_start_dot_slash (c # d # rest) = (if c = CHR ''.'' \<and> d = CHR ''/'' then trim_start_dot_slash rest else c # d # rest)"
| "trim_start_dot_slash s = s"

definition normalize_changed_paths :: "string list \<Rightarrow> string list" where
  "normalize_changed_paths paths =
     sort_dedup (map (\<lambda>p. case try_from p of Inl _ \<Rightarrow> trim_start_dot_slash p | Inr w \<Rightarrow> w) paths)"

definition owners_of :: "globs \<Rightarrow> (string, input_pattern list) bmap \<Rightarrow> graph_target list \<Rightarrow> string \<Rightarrow> string list" where
  "owners_of G target_patterns graph path =
     (let owners = map fst (filter (\<lambda>(_, patterns). list_ex (\<lambda>p. pattern_matches G p path) patterns) target_patterns)
      in if owners = [] then nearest_package_owners path graph else owners)"

section \<open>Walking dependents\<close>

type_synonym adjacency = "(string, string list) bmap"

definition neighbours :: "adjacency \<Rightarrow> string \<Rightarrow> string list" where
  "neighbours adj x = (case bm_get adj x of None \<Rightarrow> [] | Some ys \<Rightarrow> ys)"

definition push_entry :: "string \<Rightarrow> string \<Rightarrow> adjacency \<Rightarrow> adjacency" where
  "push_entry k v m = bm_insert k (neighbours m k @ [v]) m"

definition reverse_dependencies :: "graph_target list \<Rightarrow> adjacency" where
  "reverse_dependencies graph =
     foldl (\<lambda>m t. foldl (\<lambda>m dependency. push_entry dependency (gt_id t) m) m (dependency_ids t)) [] graph"

type_synonym reason_map = "(string, string list) bmap"

definition add_reason :: "string \<Rightarrow> string \<Rightarrow> reason_map \<Rightarrow> reason_map" where
  "add_reason i reason m =
     bm_insert i (insort_insert reason (case bm_get m i of None \<Rightarrow> [] | Some rs \<Rightarrow> rs)) m"

definition add_full_test_scope :: "graph_target list \<Rightarrow> string \<Rightarrow> reason_map \<Rightarrow> reason_map" where
  "add_full_test_scope graph reason m =
     foldl (\<lambda>m t. add_reason (gt_id t) reason m) m (filter (\<lambda>t. has_capability t ''test'') graph)"

type_synonym target_index = "(string, graph_target) bmap"

definition index_by_id :: "graph_target list \<Rightarrow> target_index" where
  "index_by_id graph = foldl (\<lambda>m t. bm_insert (gt_id t) t m) [] graph"

text \<open>What the loop does with a target it visits for the first time.\<close>

definition affect :: "string \<Rightarrow> string \<Rightarrow> target_index \<Rightarrow> string \<Rightarrow> reason_map \<Rightarrow> reason_map" where
  "affect path owner targets target_id m =
     (case bm_get targets target_id of
        None \<Rightarrow> m
      | Some t \<Rightarrow>
          if has_capability t ''test'' then
            add_reason (gt_id t)
              (if target_id = owner then ''changed test input `'' @ path @ ''`''
               else ''changed dependency `'' @ owner @ ''` input `'' @ path @ ''`'') m
          else m)"

function add_affected ::
  "string \<Rightarrow> string \<Rightarrow> target_index \<Rightarrow> adjacency \<Rightarrow> string list \<Rightarrow> string list \<Rightarrow> reason_map \<Rightarrow> reason_map" where
  "add_affected path owner targets reverse [] visited m = m"
| "add_affected path owner targets reverse (x # queue) visited m =
     (if x \<in> set visited then add_affected path owner targets reverse queue visited m
      else add_affected path owner targets reverse (queue @ neighbours reverse x) (x # visited) (affect path owner targets x m))"
  by pat_completeness auto

text \<open>Every turn of a work list shortens the queue or visits one more of finitely many identifiers.\<close>

definition unvisited :: "adjacency \<Rightarrow> string list \<Rightarrow> string list \<Rightarrow> string set" where
  "unvisited adj queue visited = (set queue \<union> \<Union> (set ` snd ` set adj)) - set visited"

lemma finite_unvisited [simp]: "finite (unvisited adj queue visited)"
  by (simp add: unvisited_def)

lemma set_neighbours: "set (neighbours adj x) \<subseteq> \<Union> (set ` snd ` set adj)"
proof (cases "bm_get adj x")
  case (Some ys)
  from bm_get_Some_in [OF Some] show ?thesis by (force simp: neighbours_def Some)
qed (simp add: neighbours_def)

lemma unvisited_skip: "card (unvisited adj queue visited) \<le> card (unvisited adj (x # queue) visited)"
  by (rule card_mono) (auto simp: unvisited_def)

lemma unvisited_visit:
  "x \<notin> set visited \<Longrightarrow> card (unvisited adj (queue @ neighbours adj x) (x # visited)) < card (unvisited adj (x # queue) visited)"
  using set_neighbours [of adj x] by (intro psubset_card_mono) (auto simp: unvisited_def)

termination add_affected
proof (relation "measures [\<lambda>(path, owner, targets, reverse, queue, visited, m). card (unvisited reverse queue visited),
    \<lambda>(path, owner, targets, reverse, queue, visited, m). length queue]", goal_cases)
  case (2 path owner targets reverse x queue visited m)
  then show ?case using unvisited_skip [of reverse queue visited x] by auto
next
  case (3 path owner targets reverse x queue visited m)
  then show ?case using unvisited_visit [of x visited reverse queue] by auto
qed simp

definition add_affected_tests :: "string \<Rightarrow> target_index \<Rightarrow> adjacency \<Rightarrow> string \<Rightarrow> reason_map \<Rightarrow> reason_map" where
  "add_affected_tests path targets reverse owner m = add_affected path owner targets reverse [owner] [] m"

section \<open>Reports\<close>

definition test_record :: "string list \<Rightarrow> graph_target \<Rightarrow> selected_test" where
  "test_record rs t = \<lparr>st_id = gt_id t, st_kind = gt_kind t, reasons = rs\<rparr>"

definition all_tests :: "graph_target list \<Rightarrow> string \<Rightarrow> selected_test list" where
  "all_tests graph reason = map (test_record [reason]) (filter (\<lambda>t. has_capability t ''test'') graph)"

definition report :: "string \<Rightarrow> string \<Rightarrow> string \<Rightarrow> string list \<Rightarrow> string list \<Rightarrow> selected_test list \<Rightarrow> test_selection_report" where
  "report mode safety ev changed unmatched ts =
     \<lparr>sel_schema = TEST_SELECTION_SCHEMA, sel_policy = \<lparr>pol_mode = mode, pol_safety = safety, pol_evidence = ev\<rparr>,
      changed_paths = changed, unmatched_paths = unmatched, sel_tests = ts\<rparr>"

text \<open>One changed path: the reasons so far and the paths without an owner.\<close>

definition select_path ::
  "globs \<Rightarrow> graph_target list \<Rightarrow> input_pattern list \<Rightarrow> (string, input_pattern list) bmap \<Rightarrow> target_index \<Rightarrow> adjacency
   \<Rightarrow> reason_map \<times> string list \<Rightarrow> string \<Rightarrow> reason_map \<times> string list" where
  "select_path G graph graph_inputs target_patterns targets reverse st path = (case st of (m, unmatched) \<Rightarrow>
     if is_graph_input G path graph_inputs
     then (add_full_test_scope graph (''changed graph definition `'' @ path @ ''`; include test target'') m, unmatched)
     else
       (let owners = owners_of G target_patterns graph path
        in if owners = []
           then (add_full_test_scope graph (''changed path `'' @ path @ ''` has no declared owner; include test target'') m,
                 unmatched @ [path])
           else (foldl (\<lambda>m owner. add_affected_tests path targets reverse owner m) m owners, unmatched)))"

text \<open>The tests in graph order, each with its reasons; a reason is taken once.\<close>

fun collect_tests :: "graph_target list \<Rightarrow> reason_map \<Rightarrow> selected_test list" where
  "collect_tests [] m = []"
| "collect_tests (t # ts) m =
     (if has_capability t ''test'' then
        (case bm_get m (gt_id t) of
           None \<Rightarrow> collect_tests ts m
         | Some rs \<Rightarrow> test_record rs t # collect_tests ts (bm_remove (gt_id t) m))
      else collect_tests ts m)"

definition selection_report ::
  "globs \<Rightarrow> (graph_target \<Rightarrow> string list) \<Rightarrow> string list option \<Rightarrow> graph_target list \<Rightarrow> string list \<Rightarrow> test_selection_report" where
  "selection_report G affected_inputs manifest graph paths =
     (let changed = normalize_changed_paths paths
      in if changed = []
         then report ''full'' ''exact'' ''complete_test_scope'' changed []
                (all_tests graph ''no changed paths supplied; include test target'')
         else
           (let graph_inputs = workspace_graph_input_patterns G manifest;
                target_patterns = target_input_patterns G affected_inputs graph;
                reverse = reverse_dependencies graph;
                targets = index_by_id graph
            in case foldl (select_path G graph graph_inputs target_patterns targets reverse) ([], []) changed of
                 (m, unmatched) \<Rightarrow>
                   report ''affected'' ''conservative'' ''declared_graph_and_package_ownership'' changed unmatched
                     (collect_tests graph m)))"

section \<open>The default selection\<close>

function depends_on :: "(string, string list) bmap \<Rightarrow> string list \<Rightarrow> string list \<Rightarrow> string list \<Rightarrow> bool" where
  "depends_on adj roots [] visited = False"
| "depends_on adj roots (x # pending) visited =
     (if x \<in> set roots then True
      else if x \<in> set visited then depends_on adj roots pending visited
      else depends_on adj roots (pending @ neighbours adj x) (x # visited))"
  by pat_completeness auto

termination depends_on
proof (relation "measures [\<lambda>(adj, roots, queue, visited). card (unvisited adj queue visited), \<lambda>(adj, roots, queue, visited). length queue]",
    goal_cases)
  case (2 adj roots x queue visited)
  then show ?case using unvisited_skip [of adj queue visited x] by auto
next
  case (3 adj roots x queue visited)
  then show ?case using unvisited_visit [of x visited adj queue] by auto
qed simp

text \<open>The dependencies of every indexed target.\<close>

definition forward_dependencies :: "target_index \<Rightarrow> adjacency" where
  "forward_dependencies targets = map (\<lambda>(i, t). (i, dependency_ids t)) targets"

definition depends_on_any_root :: "target_index \<Rightarrow> string list \<Rightarrow> graph_target \<Rightarrow> bool" where
  "depends_on_any_root targets roots t = depends_on (forward_dependencies targets) roots [gt_id t] []"

definition declared_roots :: "graph_target \<Rightarrow> string list option" where
  "declared_roots t =
     (case bm_get (gt_attrs t) ''_default_test_roots'' of
        Some (JArr values) \<Rightarrow>
          Some (List.map_filter (\<lambda>v. case v of
            JStr name \<Rightarrow> Some (if gt_package t = [] then name else gt_package t @ ''/'' @ name) | _ \<Rightarrow> None) values)
      | _ \<Rightarrow> None)"

definition default_selection_report :: "graph_target list \<Rightarrow> string list \<Rightarrow> test_selection_report" where
  "default_selection_report graph resolver_kinds =
     (let resolvers = filter (\<lambda>t. gt_kind t \<in> set resolver_kinds) graph;
          declared = List.map_filter declared_roots resolvers
      in if declared \<noteq> []
         then report ''default'' ''exact'' ''resolver_test_roots'' [] []
                (map (test_record [''first-party test reported by a discovered workspace root''])
                  (filter (\<lambda>t. gt_id t \<in> set (concat declared) \<and> has_capability t ''test'') graph))
         else
           (let targets = index_by_id graph;
                roots = concat (map dependency_ids resolvers);
                tests = map (test_record [''belongs to a discovered workspace root''])
                  (filter (\<lambda>t. has_capability t ''test''
                     \<and> (gt_kind t \<in> set resolver_kinds \<or> depends_on_any_root targets roots t)) graph);
                tests = (if roots = [] then all_tests graph ''no discovered workspace root; include test target'' else tests)
            in report ''default'' ''exact'' ''discovered_workspace_roots'' [] [] tests))"

section \<open>Entry points\<close>

definition affected_tests ::
  "globs \<Rightarrow> (graph_target \<Rightarrow> string list) \<Rightarrow> string list option \<Rightarrow> graph_target list \<Rightarrow> string list \<Rightarrow> selected_test list" where
  "affected_tests G affected_inputs manifest graph paths = sel_tests (selection_report G affected_inputs manifest graph paths)"

definition affected_plan ::
  "'p digests \<Rightarrow> (string \<Rightarrow> test_manifest option) \<Rightarrow> (string \<Rightarrow> test_manifest \<Rightarrow> bool) \<Rightarrow> globs \<Rightarrow> (graph_target \<Rightarrow> string list)
   \<Rightarrow> string list option \<Rightarrow> graph_target list \<Rightarrow> string list \<Rightarrow> test_plan" where
  "affected_plan D stored current G affected_inputs manifest graph paths =
     plan_from_selection_with_graph D stored current (selection_report G affected_inputs manifest graph paths)"

definition default_plan ::
  "'p digests \<Rightarrow> (string \<Rightarrow> test_manifest option) \<Rightarrow> (string \<Rightarrow> test_manifest \<Rightarrow> bool) \<Rightarrow> graph_target list \<Rightarrow> string list \<Rightarrow> test_plan" where
  "default_plan D stored current graph resolver_kinds =
     plan_from_selection_with_graph D stored current (default_selection_report graph resolver_kinds)"

section \<open>What the work lists reach\<close>

definition adj_rel :: "adjacency \<Rightarrow> (string \<times> string) set" where
  "adj_rel adj = {(x, y). y \<in> set (neighbours adj x)}"

text \<open>Nothing leads out of the visited identifiers but into the queue.\<close>

definition frontier :: "adjacency \<Rightarrow> string list \<Rightarrow> string list \<Rightarrow> bool" where
  "frontier adj queue visited \<longleftrightarrow> (\<forall>v\<in>set visited. set (neighbours adj v) \<subseteq> set visited \<union> set queue)"

lemma frontier_visit: "frontier adj (x # queue) visited \<Longrightarrow> frontier adj (queue @ neighbours adj x) (x # visited)"
  by (auto simp: frontier_def)

lemma frontier_skip: "frontier adj (x # queue) visited \<Longrightarrow> x \<in> set visited \<Longrightarrow> frontier adj queue visited"
  by (auto simp: frontier_def)

lemma frontier_reach:
  assumes "frontier adj queue visited" and "(x, y) \<in> (adj_rel adj)\<^sup>*" and "x \<in> set visited"
  shows "y \<in> set visited \<union> (adj_rel adj)\<^sup>* `` set queue"
  using assms(2,3)
proof (induction rule: converse_rtrancl_induct)
  case (step x z)
  then have "z \<in> set visited \<union> set queue" using assms(1) by (auto simp: frontier_def adj_rel_def)
  then show ?case using step by auto
qed simp

lemma reach_visit: "(adj_rel adj)\<^sup>* `` set (x # queue) = insert x ((adj_rel adj)\<^sup>* `` set (queue @ neighbours adj x))"
proof -
  have "(adj_rel adj)\<^sup>* `` {x} = insert x ((adj_rel adj)\<^sup>* `` set (neighbours adj x))"
    by (auto simp: adj_rel_def elim: converse_rtranclE intro: converse_rtrancl_into_rtrancl)
  moreover have "set (x # queue) = {x} \<union> set queue" by simp
  ultimately show ?thesis by (simp only: Image_Un set_append) blast
qed

lemma reach_skip:
  assumes "frontier adj (x # queue) visited" and "x \<in> set visited"
  shows "(adj_rel adj)\<^sup>* `` set (x # queue) \<union> set visited = (adj_rel adj)\<^sup>* `` set queue \<union> set visited"
  using frontier_reach [OF frontier_skip [OF assms]] assms(2) by auto

definition keys :: "reason_map \<Rightarrow> string set" where
  "keys m = fst ` set m"

definition index_ok :: "target_index \<Rightarrow> bool" where
  "index_ok targets \<longleftrightarrow> (\<forall>x t. bm_get targets x = Some t \<longrightarrow> gt_id t = x)"

definition test_ids :: "target_index \<Rightarrow> string set \<Rightarrow> string set" where
  "test_ids targets S = {x \<in> S. \<exists>t. bm_get targets x = Some t \<and> has_capability t ''test''}"

lemma test_ids_insert: "test_ids targets (insert x S) = test_ids targets {x} \<union> test_ids targets S"
  by (auto simp: test_ids_def)

lemma add_reason_keys: "bm_ok m \<Longrightarrow> bm_ok (add_reason i r m) \<and> keys (add_reason i r m) = insert i (keys m)"
  by (simp add: add_reason_def bm_ok_insert keys_def set_bm_insert)

lemma affect_keys:
  assumes "index_ok targets" and "bm_ok m"
  shows "bm_ok (affect path owner targets x m) \<and> keys (affect path owner targets x m) = keys m \<union> test_ids targets {x}"
proof (cases "\<exists>t. bm_get targets x = Some t \<and> has_capability t ''test''")
  case True
  then obtain t where t: "bm_get targets x = Some t" "has_capability t ''test''" by blast
  then have "gt_id t = x" using assms(1) by (simp add: index_ok_def)
  then show ?thesis using t add_reason_keys [OF assms(2)] by (auto simp: affect_def test_ids_def)
next
  case False
  then show ?thesis using assms(2) by (auto simp: affect_def test_ids_def split: option.splits)
qed

lemma add_affected_keys:
  assumes "index_ok targets"
  shows "frontier reverse queue visited \<Longrightarrow> bm_ok m \<Longrightarrow>
    bm_ok (add_affected path owner targets reverse queue visited m)
    \<and> (\<exists>U. keys (add_affected path owner targets reverse queue visited m) = keys m \<union> test_ids targets U
        \<and> U \<union> set visited = (adj_rel reverse)\<^sup>* `` set queue \<union> set visited)"
  using assms
proof (induction path owner targets reverse queue visited m rule: add_affected.induct)
  case (1 path owner targets reverse visited m)
  show ?case using "1.prems" by (intro conjI exI [of _ "{}"]) (simp_all add: test_ids_def)
next
  case (2 path owner targets reverse x queue visited m)
  show ?case
  proof (cases "x \<in> set visited")
    case True
    from "2.IH"(1) [OF True frontier_skip [OF "2.prems"(1) True] "2.prems"(2,3)]
    show ?thesis using True by (simp add: reach_skip [OF "2.prems"(1) True, simplified])
  next
    case False
    note a = affect_keys [OF "2.prems"(3,2), of path owner x]
    from "2.IH"(2) [OF False frontier_visit [OF "2.prems"(1)] _ "2.prems"(3)] a
    obtain U where U: "bm_ok (add_affected path owner targets reverse (x # queue) visited m)"
      "keys (add_affected path owner targets reverse (x # queue) visited m) = keys m \<union> test_ids targets {x} \<union> test_ids targets U"
      "U \<union> set (x # visited) = (adj_rel reverse)\<^sup>* `` set (queue @ neighbours reverse x) \<union> set (x # visited)"
      using False by auto
    have "insert x U \<union> set visited = (adj_rel reverse)\<^sup>* `` set (x # queue) \<union> set visited"
      using U(3) unfolding reach_visit by simp
    then show ?thesis using U(1,2) test_ids_insert [of targets x U] by (intro conjI exI [of _ "insert x U"]) auto
  qed
qed

lemma add_affected_tests_keys:
  assumes "index_ok targets" and "bm_ok m"
  shows "bm_ok (add_affected_tests path targets reverse owner m)
    \<and> keys (add_affected_tests path targets reverse owner m) = keys m \<union> test_ids targets ((adj_rel reverse)\<^sup>* `` {owner})"
  using add_affected_keys [OF assms(1), of reverse "[owner]" "[]" m path owner] assms(2)
  by (simp add: add_affected_tests_def frontier_def)

lemma full_scope_keys:
  "bm_ok m \<Longrightarrow> bm_ok (add_full_test_scope graph reason m)
     \<and> keys (add_full_test_scope graph reason m) = keys m \<union> {gt_id t | t. t \<in> set graph \<and> has_capability t ''test''}"
proof -
  have "bm_ok m \<Longrightarrow> bm_ok (foldl (\<lambda>m t. add_reason (gt_id t) reason m) m ts)
      \<and> keys (foldl (\<lambda>m t. add_reason (gt_id t) reason m) m ts) = keys m \<union> gt_id ` set ts" for ts
    using add_reason_keys by (induction ts arbitrary: m) auto
  then show "bm_ok m \<Longrightarrow> ?thesis" by (auto simp: add_full_test_scope_def)
qed

lemma owners_keys:
  assumes "index_ok targets"
  shows "bm_ok m \<Longrightarrow> bm_ok (foldl (\<lambda>m owner. add_affected_tests path targets reverse owner m) m owners)
    \<and> keys (foldl (\<lambda>m owner. add_affected_tests path targets reverse owner m) m owners)
      = keys m \<union> test_ids targets ((adj_rel reverse)\<^sup>* `` set owners)"
proof (induction owners arbitrary: m)
  case (Cons owner owners)
  note a = add_affected_tests_keys [OF assms Cons.prems, of path reverse owner]
  have "set (owner # owners) = {owner} \<union> set owners" by simp
  then show ?case using Cons.IH [of "add_affected_tests path targets reverse owner m"] a
    by (simp only: Image_Un foldl.simps) (auto simp: test_ids_def)
qed (simp add: test_ids_def)

text \<open>The index and the reversed edges of a graph.\<close>

lemma index_by_id_get:
  assumes "distinct (map gt_id graph)"
  shows "bm_get (index_by_id graph) x = Some t \<longleftrightarrow> t \<in> set graph \<and> gt_id t = x"
  using assms
proof (induction graph rule: rev_induct)
  case (snoc t' graph)
  then show ?case by (auto simp: index_by_id_def bm_get_insert) (metis image_eqI)
qed (simp add: index_by_id_def)

definition dependents_rel :: "graph_target list \<Rightarrow> (string \<times> string) set" where
  "dependents_rel graph = {(d, gt_id t) | d t. t \<in> set graph \<and> d \<in> set (dependency_ids t)}"

lemma neighbours_insert: "neighbours (bm_insert k ys m) x = (if x = k then ys else neighbours m x)"
  unfolding neighbours_def bm_get_insert by simp

lemma neighbours_push: "set (neighbours (push_entry k v m) x) = set (neighbours m x) \<union> (if x = k then {v} else {})"
  unfolding push_entry_def neighbours_insert by simp

lemma neighbours_push_all:
  "set (neighbours (foldl (\<lambda>m d. push_entry d v m) m ds) x) = set (neighbours m x) \<union> (if x \<in> set ds then {v} else {})"
  by (induction ds arbitrary: m) (auto simp: neighbours_push)

lemma reverse_dependencies_rel: "adj_rel (reverse_dependencies graph) = dependents_rel graph"
proof -
  have "set (neighbours (foldl (\<lambda>m t. foldl (\<lambda>m d. push_entry d (gt_id t) m) m (dependency_ids t)) m graph) x)
      = set (neighbours m x) \<union> {gt_id t | t. t \<in> set graph \<and> x \<in> set (dependency_ids t)}" for m x
    by (induction graph arbitrary: m) (auto simp: neighbours_push_all)
  then show ?thesis
    unfolding adj_rel_def reverse_dependencies_def dependents_rel_def by (auto simp: neighbours_def)
qed

text \<open>The tests one changed path selects.\<close>

definition affected_by ::
  "globs \<Rightarrow> graph_target list \<Rightarrow> input_pattern list \<Rightarrow> (string, input_pattern list) bmap \<Rightarrow> string \<Rightarrow> graph_target \<Rightarrow> bool" where
  "affected_by G graph graph_inputs target_patterns path t \<longleftrightarrow>
     is_graph_input G path graph_inputs \<or> owners_of G target_patterns graph path = []
     \<or> (\<exists>owner\<in>set (owners_of G target_patterns graph path). (owner, gt_id t) \<in> (dependents_rel graph)\<^sup>*)"

lemma select_path_keys:
  assumes "distinct (map gt_id graph)" and "bm_ok m"
  shows "bm_ok (fst (select_path G graph gi tp (index_by_id graph) (reverse_dependencies graph) (m, un) path))
    \<and> keys (fst (select_path G graph gi tp (index_by_id graph) (reverse_dependencies graph) (m, un) path))
      = keys m \<union> {gt_id t | t. t \<in> set graph \<and> has_capability t ''test'' \<and> affected_by G graph gi tp path t}"
proof -
  let ?owners = "owners_of G tp graph path"
  have idx: "index_ok (index_by_id graph)" using index_by_id_get [OF assms(1)] by (simp add: index_ok_def)
  have tests: "test_ids (index_by_id graph) ((dependents_rel graph)\<^sup>* `` set ?owners)
      = {gt_id t | t. t \<in> set graph \<and> has_capability t ''test'' \<and> (\<exists>owner\<in>set ?owners. (owner, gt_id t) \<in> (dependents_rel graph)\<^sup>*)}"
    using index_by_id_get [OF assms(1)] by (auto simp: test_ids_def)
  consider "is_graph_input G path gi \<or> ?owners = []" | "\<not> is_graph_input G path gi" "?owners \<noteq> []" by blast
  then show ?thesis
  proof cases
    case 1
    then show ?thesis using full_scope_keys [OF assms(2), of graph]
      by (auto simp: select_path_def Let_def affected_by_def)
  next
    case 2
    then show ?thesis
      using owners_keys [OF idx assms(2), of path "reverse_dependencies graph" ?owners] tests
      by (simp add: select_path_def Let_def affected_by_def reverse_dependencies_rel)
  qed
qed

lemma select_paths_keys:
  assumes "distinct (map gt_id graph)"
  shows "bm_ok m \<Longrightarrow>
    (let st = foldl (select_path G graph gi tp (index_by_id graph) (reverse_dependencies graph)) (m, un) paths
     in bm_ok (fst st) \<and> keys (fst st)
        = keys m \<union> {gt_id t | t. t \<in> set graph \<and> has_capability t ''test'' \<and> (\<exists>p\<in>set paths. affected_by G graph gi tp p t)})"
proof (induction paths arbitrary: m un)
  case (Cons p paths)
  obtain m' un' where st: "select_path G graph gi tp (index_by_id graph) (reverse_dependencies graph) (m, un) p = (m', un')"
    by (cases "select_path G graph gi tp (index_by_id graph) (reverse_dependencies graph) (m, un) p")
  have m': "bm_ok m'" "keys m' = keys m \<union> {gt_id t | t. t \<in> set graph \<and> has_capability t ''test'' \<and> affected_by G graph gi tp p t}"
    using select_path_keys [OF assms Cons.prems, of G gi tp un p] st by simp_all
  then show ?case using Cons.IH [OF m'(1), of un'] by (auto simp: Let_def st)
qed (simp add: Let_def)

lemma collect_tests_ids:
  "distinct (map gt_id graph) \<Longrightarrow> bm_ok m \<Longrightarrow>
   map st_id (collect_tests graph m) = map gt_id (filter (\<lambda>t. has_capability t ''test'' \<and> gt_id t \<in> keys m) graph)"
proof (induction graph arbitrary: m)
  case (Cons t ts)
  have other: "filter (\<lambda>t'. has_capability t' ''test'' \<and> gt_id t' \<in> keys (bm_remove (gt_id t) m)) ts
      = filter (\<lambda>t'. has_capability t' ''test'' \<and> gt_id t' \<in> keys m) ts"
  proof (rule filter_cong [OF refl])
    fix t' assume "t' \<in> set ts"
    then have "gt_id t' \<noteq> gt_id t" using Cons.prems(1) by (auto simp: image_iff)
    then have "bm_get (bm_remove (gt_id t) m) (gt_id t') = bm_get m (gt_id t')"
      by (simp add: bm_get_remove [OF Cons.prems(2)])
    then have "gt_id t' \<in> keys (bm_remove (gt_id t) m) \<longleftrightarrow> gt_id t' \<in> keys m"
      unfolding keys_def by (metis bm_get_None_iff)
    then show "(has_capability t' ''test'' \<and> gt_id t' \<in> keys (bm_remove (gt_id t) m)) = (has_capability t' ''test'' \<and> gt_id t' \<in> keys m)"
      by simp
  qed
  show ?case
  proof (cases "bm_get m (gt_id t)")
    case None
    then have "gt_id t \<notin> keys m" by (simp add: keys_def bm_get_None_iff)
    then show ?thesis using Cons None by simp
  next
    case (Some rs)
    then have "gt_id t \<in> keys m" using bm_get_None_iff [of m "gt_id t"] by (auto simp: keys_def)
    then show ?thesis using Cons.IH [of m] Cons.IH [OF _ bm_ok_remove [OF Cons.prems(2)], of "gt_id t"] Cons.prems Some other
      by (simp add: test_record_def)
  qed
qed simp

text \<open>Package ownership looks at the text of a path only: a path that starts in a package and leaves it through \<open>..\<close> is
  owned by that package.\<close>

lemma before_last_slash_append:
  "before_last_slash (a @ ''/'' @ b) = (if CHR ''/'' \<in> set b then a @ ''/'' @ before_last_slash b else a)"
proof (cases "CHR ''/'' \<in> set b")
  case True
  then have "dropWhile (\<lambda>c. c \<noteq> CHR ''/'') (rev b @ CHR ''/'' # rev a) = dropWhile (\<lambda>c. c \<noteq> CHR ''/'') (rev b) @ CHR ''/'' # rev a"
    by (intro dropWhile_append1) auto
  moreover have "dropWhile (\<lambda>c. c \<noteq> CHR ''/'') (rev b) \<noteq> []" using True by (auto simp: dropWhile_eq_Nil_conv)
  ultimately show ?thesis using True by (simp add: before_last_slash_def)
next
  case False
  then have "dropWhile (\<lambda>c. c \<noteq> CHR ''/'') (rev b @ CHR ''/'' # rev a) = CHR ''/'' # rev a"
    by (subst dropWhile_append2) auto
  then show ?thesis using False by (simp add: before_last_slash_def)
qed

lemma path_package_eq: "path_package path = before_last_slash path"
proof (cases "ends_with (''/'' @ TOML_BUILD_FILE_NAME) path")
  case True
  then obtain y where y: "path = y @ ''/'' @ TOML_BUILD_FILE_NAME" by (auto simp: ends_with_iff)
  have "CHR ''/'' \<notin> set TOML_BUILD_FILE_NAME" by (simp add: TOML_BUILD_FILE_NAME_def)
  then have "before_last_slash path = y" unfolding y before_last_slash_append by simp
  moreover have "path_package path = y" using True by (simp add: path_package_def y)
  ultimately show ?thesis by simp
qed (simp add: path_package_def)

lemma nearest_package_owners_nonempty:
  assumes "t \<in> set graph" and "package_contains_path (gt_package t) (path_package path)"
  shows "nearest_package_owners path graph \<noteq> []"
proof -
  let ?c = "filter (\<lambda>t. package_contains_path (gt_package t) (path_package path)) graph"
  have "map (\<lambda>t. length (gt_package t)) ?c \<noteq> []" using assms by (auto simp: filter_empty_conv)
  then obtain l ls where l: "map (\<lambda>t. length (gt_package t)) ?c = l # ls" by (cases "map (\<lambda>t. length (gt_package t)) ?c") auto
  have "fold max ls l \<in> set (l # ls)" using Max_in [of "set (l # ls)"] by (simp only: Max.set_eq_fold) simp
  then obtain u where "u \<in> set ?c" "length (gt_package u) = fold max ls l" unfolding l [symmetric] by auto
  then show ?thesis by (auto simp: nearest_package_owners_def l filter_empty_conv)
qed

lemma dotdot_in_package:
  assumes "t \<in> set graph" and "gt_package t \<noteq> []"
  shows "owners_of G tp graph (gt_package t @ ''/../'' @ rest) \<noteq> []" and "\<exists>e. try_from (gt_package t @ ''/../'' @ rest) = Inl e"
proof -
  let ?path = "gt_package t @ ''/../'' @ rest"
  have "path_package ?path = gt_package t @ ''/..'' @ (if CHR ''/'' \<in> set rest then ''/'' @ before_last_slash rest else [])"
    using before_last_slash_append [of "gt_package t @ ''/..''" rest] by (simp add: path_package_eq)
  then have "package_contains_path (gt_package t) (path_package ?path)"
    using assms(2) by (simp add: package_contains_path_def strip_prefix_def starts_with_def)
  then show "owners_of G tp graph ?path \<noteq> []"
    using nearest_package_owners_nonempty [OF assms(1)] by (simp add: owners_of_def Let_def)
  have "''..'' \<in> set (split_on CHR ''/'' ?path)"
    using split_on_append_sep [of "CHR ''/''" "gt_package t" "''../'' @ rest"] split_on_append_sep [of "CHR ''/''" "''..''" rest] by simp
  then show "\<exists>e. try_from ?path = Inl e" by (simp add: try_from_eq)
qed


text \<open>A library, a test that depends on it through a named role, and an unrelated test.\<close>

definition demo_target :: "string \<Rightarrow> string list \<Rightarrow> (string, string list) bmap \<Rightarrow> string list \<Rightarrow> string \<Rightarrow> graph_target" where
  "demo_target i ds es ss cap = \<lparr>gt_id = i, gt_package = i, gt_name = i, gt_kind = ''k'', gt_deps = ds, gt_dependency_edges = es,
     gt_srcs = ss, gt_visibility = [], gt_attrs = [],
     gt_capabilities = [\<lparr>cap_name = cap, cap_output_groups = [], cap_requires_outputs = []\<rparr>], gt_providers = []\<rparr>"

definition demo_graph :: "graph_target list" where
  "demo_graph = [demo_target ''lib'' [] [] [''a.rs''] ''build'', demo_target ''t'' [] [(''subject'', [''lib''])] [] ''test'',
     demo_target ''u'' [] [] [] ''test'']"

definition no_globs :: globs where
  "no_globs = \<lparr>glob_valid = (\<lambda>_. False), glob_matches = (\<lambda>_ _. False)\<rparr>"


section \<open>Reaching a discovered root\<close>

lemma depends_on_reach:
  "frontier adj queue visited \<Longrightarrow> set visited \<inter> set roots = {} \<Longrightarrow>
   depends_on adj roots queue visited \<longleftrightarrow> ((adj_rel adj)\<^sup>* `` set queue) \<inter> set roots \<noteq> {}"
proof (induction adj roots queue visited rule: depends_on.induct)
  case (2 adj roots x queue visited)
  show ?case
  proof (cases "x \<in> set roots")
    case True
    then show ?thesis by auto
  next
    case x: False
    show ?thesis
    proof (cases "x \<in> set visited")
      case True
      have "((adj_rel adj)\<^sup>* `` set queue) \<inter> set roots = ((adj_rel adj)\<^sup>* `` set (x # queue)) \<inter> set roots"
        using reach_skip [OF "2.prems"(1) True] "2.prems"(2) by blast
      then show ?thesis using "2.IH"(1) [OF x True frontier_skip [OF "2.prems"(1) True] "2.prems"(2)] x True by simp
    next
      case False
      then show ?thesis using "2.IH"(2) [OF x False frontier_visit [OF "2.prems"(1)]] "2.prems"(2) x
        unfolding reach_visit [of adj x queue] by simp
    qed
  qed
qed simp

text \<open>A test belongs to the default selection when it is, or depends on, a discovered root.\<close>

lemma depends_on_any_root_iff:
  "depends_on_any_root targets roots t \<longleftrightarrow>
     (\<exists>root\<in>set roots. (gt_id t, root) \<in> (adj_rel (forward_dependencies targets))\<^sup>*)"
  using depends_on_reach [of "forward_dependencies targets" "[gt_id t]" "[]" roots]
  by (auto simp: depends_on_any_root_def frontier_def)

end
