(* ===== verification/Build_State.thy ===== *)
theory Build_State
  imports Graph_Target
begin

text \<open>
  The state of the graph build: \<open>state.rs\<close> and \<open>ranking.rs\<close> under
  \<open>crates/once-cli/src/commands/graph/analysis/scheduler\<close>. Hash maps are partial functions; the
  set of reachable targets is the list of its elements in the order it is iterated. An outcome
  keeps the fields the state reads, and the rest as one value.
\<close>

section \<open>Data\<close>

record available_input =
  blob_digest :: string
  same_target :: bool
  materialized :: bool

record ('p, 'x) build_outcome =
  provider :: 'p
  action_digest :: string
  available_inputs :: "(string, available_input) bmap"
  outcome_rest :: 'x

record 'p dependency_inputs =
  di_providers :: "'p list"
  di_providers_by_role :: "(string, 'p list) bmap"
  di_action_digests :: "(string \<times> string) list"
  di_available_inputs :: "(string, available_input) bmap"

type_synonym heap = "(nat \<times> string) list"

record ('p, 'x) build_state =
  remaining_deps :: "string \<rightharpoonup> nat"
  bs_dependents :: "string \<rightharpoonup> string list"
  bs_depths :: "string \<rightharpoonup> nat"
  remaining_readers :: "string \<rightharpoonup> nat"
  bs_ready :: heap
  bs_outcomes :: "string \<rightharpoonup> ('p, 'x) build_outcome"
  bs_completed :: nat

datatype build_error =
  Vanished string | RankCycle string | MissingCount string | MissingReaders string | NoReaders string | MissingOutcome string
| BuildCycle string | Underflow

section \<open>Counting down\<close>

text \<open>The loop that releases targets: each entry of the list counts one off, and a target whose count reaches
  zero is released.\<close>

fun release :: "(string \<rightharpoonup> nat) \<Rightarrow> string list \<Rightarrow> build_error + (string \<rightharpoonup> nat) \<times> string list" where
  "release rem [] = Inr (rem, [])"
| "release rem (x # xs) =
     (case rem x of
        None \<Rightarrow> Inl (MissingCount x)
      | Some 0 \<Rightarrow> Inl Underflow
      | Some (Suc n) \<Rightarrow>
          rbind (release (rem(x \<mapsto> n)) xs) (\<lambda>(rem, new). Inr (rem, if n = 0 then x # new else new)))"

section \<open>Critical depths\<close>

definition entry_push :: "(string \<rightharpoonup> string list) \<Rightarrow> string \<Rightarrow> string \<Rightarrow> (string \<rightharpoonup> string list)" where
  "entry_push m k v = m(k \<mapsto> (case m k of None \<Rightarrow> [] | Some vs \<Rightarrow> vs) @ [v])"

definition entries :: "(string \<rightharpoonup> string list) \<Rightarrow> string \<Rightarrow> string list" where
  "entries m k = (case m k of None \<Rightarrow> [] | Some vs \<Rightarrow> vs)"

definition predecessors_of :: "string list \<Rightarrow> (string \<rightharpoonup> string list) \<Rightarrow> string \<rightharpoonup> string list" where
  "predecessors_of reachable dependents =
     foldl (\<lambda>m x. foldl (\<lambda>m next_id. entry_push m next_id x) m
       (filter (\<lambda>next_id. next_id \<in> set reachable) (entries dependents x))) Map.empty reachable"

definition rank_remaining :: "string list \<Rightarrow> (string \<rightharpoonup> string list) \<Rightarrow> string \<rightharpoonup> nat" where
  "rank_remaining reachable dependents x =
     (if x \<in> set reachable then Some (length (filter (\<lambda>next_id. next_id \<in> set reachable) (entries dependents x))) else None)"

definition raise_depth :: "nat \<Rightarrow> (string \<rightharpoonup> nat) \<Rightarrow> string \<Rightarrow> (string \<rightharpoonup> nat)" where
  "raise_depth depth pending x =
     pending(x \<mapsto> max (case pending x of None \<Rightarrow> 1 | Some d \<Rightarrow> d) (sat_add depth 1))"

text \<open>The work list is a stack with its top at the end. A round visits one target and counts off its
  predecessors; the fuel is the number of rounds, at most one per target.\<close>

fun rank_loop ::
  "nat \<Rightarrow> (string \<rightharpoonup> string list) \<Rightarrow> (string \<rightharpoonup> nat) \<Rightarrow> string list \<Rightarrow> (string \<rightharpoonup> nat) \<Rightarrow> (string \<rightharpoonup> nat)
   \<Rightarrow> (build_error + (string \<rightharpoonup> nat)) option" where
  "rank_loop fuel predecessors remaining [] pending ranked = Some (Inr ranked)"
| "rank_loop 0 predecessors remaining ready pending ranked = None"
| "rank_loop (Suc fuel) predecessors remaining ready pending ranked =
     (let x = last ready;
          depth = (case pending x of None \<Rightarrow> 1 | Some d \<Rightarrow> d);
          previous = entries predecessors x
      in case release remaining previous of
           Inl e \<Rightarrow> Some (Inl e)
         | Inr (remaining, new) \<Rightarrow>
             rank_loop fuel predecessors remaining (butlast ready @ new)
               (foldl (raise_depth depth) (pending(x := None)) previous) (ranked(x \<mapsto> depth)))"

definition critical_depths :: "string list \<Rightarrow> (string \<rightharpoonup> string list) \<Rightarrow> (build_error + (string \<rightharpoonup> nat)) option" where
  "critical_depths reachable dependents =
     (let remaining = rank_remaining reachable dependents
      in case rank_loop (length reachable) (predecessors_of reachable dependents) remaining
           (filter (\<lambda>x. remaining x = Some 0) reachable) Map.empty Map.empty of
         None \<Rightarrow> None
       | Some (Inl e) \<Rightarrow> Some (Inl e)
       | Some (Inr ranked) \<Rightarrow>
           (case filter (\<lambda>x. ranked x = None) reachable of
              [] \<Rightarrow> Some (Inr ranked)
            | x # xs \<Rightarrow> Some (Inl (RankCycle (fold min xs x)))))"

section \<open>Building the state\<close>

fun count_dependencies ::
  "(string \<rightharpoonup> graph_target) \<Rightarrow> string list \<Rightarrow> string list \<Rightarrow> (string \<rightharpoonup> nat) \<times> (string \<rightharpoonup> string list)
   \<Rightarrow> build_error + (string \<rightharpoonup> nat) \<times> (string \<rightharpoonup> string list)" where
  "count_dependencies targets reachable [] st = Inr st"
| "count_dependencies targets reachable (x # xs) (remaining, dependents) =
     (case targets x of
        None \<Rightarrow> Inl (Vanished x)
      | Some t \<Rightarrow>
          let ds = filter (\<lambda>d. d \<in> set reachable) (dependency_ids t)
          in count_dependencies targets reachable xs
               (remaining(x \<mapsto> length ds), foldl (\<lambda>m d. entry_push m d x) dependents ds))"

definition count_readers :: "(string \<rightharpoonup> string list) \<Rightarrow> string list \<Rightarrow> (string \<rightharpoonup> nat)" where
  "count_readers dependents retained =
     foldl (\<lambda>m x. m(x \<mapsto> (case m x of None \<Rightarrow> 0 | Some n \<Rightarrow> n) + 1)) (\<lambda>x. map_option length (dependents x)) retained"

definition depth_of :: "(string \<rightharpoonup> nat) \<Rightarrow> string \<Rightarrow> nat" where
  "depth_of ds x = (case ds x of None \<Rightarrow> 1 | Some d \<Rightarrow> d)"

definition build_state_new ::
  "(string \<rightharpoonup> graph_target) \<Rightarrow> string list \<Rightarrow> string list \<Rightarrow> (build_error + ('p, 'x) build_state) option" where
  "build_state_new targets reachable retained =
     (case count_dependencies targets reachable reachable (Map.empty, Map.empty) of
        Inl e \<Rightarrow> Some (Inl e)
      | Inr (remaining, dependents) \<Rightarrow>
          map_option (\<lambda>r. rbind r (\<lambda>ds. Inr
            \<lparr>remaining_deps = remaining, bs_dependents = dependents, bs_depths = ds,
             remaining_readers = count_readers dependents retained,
             bs_ready = map (\<lambda>x. (depth_of ds x, x)) (filter (\<lambda>x. remaining x = Some 0) reachable),
             bs_outcomes = Map.empty, bs_completed = 0\<rparr>)) (critical_depths reachable dependents))"

section \<open>Completion and reading\<close>

definition record_completion ::
  "('p, 'x) build_state \<Rightarrow> string \<Rightarrow> ('p, 'x) build_outcome \<Rightarrow> build_error + ('p, 'x) build_state" where
  "record_completion st target_id oc =
     (let st = st\<lparr>bs_outcomes := (bs_outcomes st)(target_id \<mapsto> oc), bs_completed := bs_completed st + 1\<rparr>
      in case bs_dependents st target_id of
           None \<Rightarrow> Inr st
         | Some next_targets \<Rightarrow>
             rbind (release (remaining_deps st) next_targets) (\<lambda>(remaining, new).
               Inr (st\<lparr>remaining_deps := remaining, bs_ready := bs_ready st @ map (\<lambda>x. (depth_of (bs_depths st) x, x)) new\<rparr>)))"

definition read_dependency ::
  "('p, 'x) build_state \<Rightarrow> string \<Rightarrow> build_error + ('p, 'x) build_state \<times> ('p, 'x) build_outcome" where
  "read_dependency st dep_id =
     (case remaining_readers st dep_id of
        None \<Rightarrow> Inl (MissingReaders dep_id)
      | Some n \<Rightarrow>
          (case checked_sub n 1 of
             None \<Rightarrow> Inl (NoReaders dep_id)
           | Some n \<Rightarrow>
               (let st = st\<lparr>remaining_readers := (remaining_readers st)(dep_id \<mapsto> n)\<rparr>
                in case bs_outcomes st dep_id of
                     None \<Rightarrow> Inl (MissingOutcome dep_id)
                   | Some oc \<Rightarrow>
                       Inr (if n = 0 then st\<lparr>bs_outcomes := (bs_outcomes st)(dep_id := None)\<rparr> else st, oc))))"

fun read_all :: "('p, 'x) build_state \<Rightarrow> string list \<Rightarrow> build_error + ('p, 'x) build_state \<times> (string \<times> ('p, 'x) build_outcome) list" where
  "read_all st [] = Inr (st, [])"
| "read_all st (d # ds) =
     rbind (read_dependency st d) (\<lambda>(st, oc). rbind (read_all st ds) (\<lambda>(st, ocs). Inr (st, (d, oc) # ocs)))"

text \<open>Inputs a dependency made available are no longer of the same target.\<close>

definition extend_inputs :: "(string, available_input) bmap \<Rightarrow> (string \<times> ('p, 'x) build_outcome) list \<Rightarrow> (string, available_input) bmap" where
  "extend_inputs m ocs =
     foldl (\<lambda>m (_, oc). foldl (\<lambda>m (path, i). bm_insert path (i\<lparr>same_target := False\<rparr>) m) m (available_inputs oc)) m ocs"

fun read_roles ::
  "string list \<Rightarrow> (string, string list) bmap \<Rightarrow> ('p, 'x) build_state \<Rightarrow> 'p dependency_inputs
   \<Rightarrow> build_error + ('p, 'x) build_state \<times> 'p dependency_inputs" where
  "read_roles reachable [] st inputs = Inr (st, inputs)"
| "read_roles reachable ((role, dep_ids) # roles) st inputs =
     rbind (read_all st (filter (\<lambda>d. d \<in> set reachable) dep_ids)) (\<lambda>(st, ocs).
       read_roles reachable roles st
         \<lparr>di_providers = di_providers inputs,
          di_providers_by_role = bm_insert role (map (\<lambda>(_, oc). provider oc) ocs) (di_providers_by_role inputs),
          di_action_digests = di_action_digests inputs @ map (\<lambda>(d, oc). (d, action_digest oc)) ocs,
          di_available_inputs = extend_inputs (di_available_inputs inputs) ocs\<rparr>)"

definition read_inputs ::
  "('p, 'x) build_state \<Rightarrow> graph_target \<Rightarrow> string list \<Rightarrow> build_error + ('p, 'x) build_state \<times> 'p dependency_inputs" where
  "read_inputs st t reachable =
     rbind (read_all st (filter (\<lambda>d. d \<in> set reachable) (gt_deps t))) (\<lambda>(st, ocs).
       read_roles reachable (gt_dependency_edges t) st
         \<lparr>di_providers = map (\<lambda>(_, oc). provider oc) ocs, di_providers_by_role = [],
          di_action_digests = map (\<lambda>(d, oc). (d, action_digest oc)) ocs,
          di_available_inputs = extend_inputs [] ocs\<rparr>)"

section \<open>Counting down a graph\<close>

lemma release_spec:
  "(\<And>x. x \<in> set xs \<Longrightarrow> \<exists>n. rem x = Some n \<and> count_list xs x \<le> n) \<Longrightarrow>
   \<exists>new. release rem xs = Inr ((\<lambda>x. if x \<in> set xs then Some (the (rem x) - count_list xs x) else rem x), new)
     \<and> distinct new \<and> set new = {x \<in> set xs. rem x = Some (count_list xs x)}"
proof (induction xs arbitrary: rem)
  case (Cons x xs)
  obtain n where n: "rem x = Some n" "Suc (count_list xs x) \<le> n" using Cons.prems [of x] by auto
  then obtain k where k: "n = Suc k" by (cases n) auto
  let ?rem = "rem(x \<mapsto> k)"
  have "\<exists>n. ?rem y = Some n \<and> count_list xs y \<le> n" if "y \<in> set xs" for y
    using Cons.prems [of y] n k that by (cases "y = x") auto
  from Cons.IH [OF this] obtain new where
    new: "release ?rem xs = Inr ((\<lambda>y. if y \<in> set xs then Some (the (?rem y) - count_list xs y) else ?rem y), new)"
      "distinct new" "set new = {y \<in> set xs. ?rem y = Some (count_list xs y)}" by blast
  have x_in: "x \<in> set xs" if "x \<in> set new" using that new(3) by auto
  have zero: "k = 0 \<Longrightarrow> x \<notin> set xs" using n(2) k count_list_0_iff by fastforce
  have rem': "(\<lambda>y. if y \<in> set xs then Some (the (?rem y) - count_list xs y) else ?rem y)
      = (\<lambda>y. if y \<in> set (x # xs) then Some (the (rem y) - count_list (x # xs) y) else rem y)"
  proof
    fix y
    show "(if y \<in> set xs then Some (the (?rem y) - count_list xs y) else ?rem y)
        = (if y \<in> set (x # xs) then Some (the (rem y) - count_list (x # xs) y) else rem y)"
      using n k by (cases "y = x") (auto simp: count_list_0_iff)
  qed
  have "set (if k = 0 then x # new else new) = {y \<in> set (x # xs). rem y = Some (count_list (x # xs) y)}"
  proof (rule set_eqI)
    fix y
    have "x \<in> set new \<longleftrightarrow> x \<in> set xs \<and> k = count_list xs x" unfolding new(3) by simp
    moreover have "y \<noteq> x \<Longrightarrow> y \<in> set new \<longleftrightarrow> y \<in> set xs \<and> rem y = Some (count_list xs y)" unfolding new(3) by simp
    moreover have "k = count_list xs x \<Longrightarrow> x \<notin> set xs \<Longrightarrow> k = 0" by (simp add: count_list_0_iff)
    ultimately show "y \<in> set (if k = 0 then x # new else new) \<longleftrightarrow> y \<in> {y \<in> set (x # xs). rem y = Some (count_list (x # xs) y)}"
      using n(1) k zero count_list_0_iff [of xs x] by (cases "y = x"; cases "k = 0") (simp_all, auto)
  qed
  moreover have "distinct (if k = 0 then x # new else new)" using new(2) zero x_in by auto
  ultimately show ?case
    using new(1) n(1) k unfolding rem' by (intro exI [of _ "if k = 0 then x # new else new"]) simp
qed simp

text \<open>What a target still waits for when the targets in \<open>D\<close> are done.\<close>

definition waits :: "string list \<Rightarrow> (string \<Rightarrow> string list) \<Rightarrow> string set \<Rightarrow> string \<rightharpoonup> nat" where
  "waits V out D x = (if x \<in> set V then Some (length (filter (\<lambda>y. y \<notin> D) (out x))) else None)"

text \<open>The contract of an inverted graph: who waits for whom, and the same entries the other way round.\<close>

locale counted_graph =
  fixes V :: "string list" and out inc :: "string \<Rightarrow> string list"
  assumes distinct_nodes: "distinct V"
    and outs: "x \<in> set V \<Longrightarrow> set (out x) \<subseteq> set V"
    and incs: "y \<in> set V \<Longrightarrow> set (inc y) \<subseteq> set V"
    and entry_counts: "x \<in> set V \<Longrightarrow> y \<in> set V \<Longrightarrow> count_list (inc y) x = count_list (out x) y"
begin

lemma release_waits:
  assumes "y \<in> set V" and "y \<notin> D"
  shows "\<exists>new. release (waits V out D) (inc y) = Inr (waits V out (insert y D), new) \<and> distinct new
    \<and> set new = {x \<in> set V. waits V out D x \<noteq> Some 0 \<and> waits V out (insert y D) x = Some 0}"
proof -
  have split: "length (filter (\<lambda>z. z \<notin> D) (out x)) = length (filter (\<lambda>z. z \<notin> insert y D) (out x)) + count_list (inc y) x"
    if "x \<in> set V" for x
    using filter_insert_count [OF assms(2), of "out x"] entry_counts [OF that assms(1)] by simp
  have in_V: "x \<in> set V" if "x \<in> set (inc y)" for x using incs [OF assms(1)] that by blast
  have pre: "\<exists>n. waits V out D x = Some n \<and> count_list (inc y) x \<le> n" if "x \<in> set (inc y)" for x
    using split [OF in_V [OF that]] in_V [OF that] by (simp add: waits_def)
  have eq: "(\<lambda>x. if x \<in> set (inc y) then Some (the (waits V out D x) - count_list (inc y) x) else waits V out D x)
      = waits V out (insert y D)"
  proof
    fix x
    show "(if x \<in> set (inc y) then Some (the (waits V out D x) - count_list (inc y) x) else waits V out D x)
        = waits V out (insert y D) x"
    proof (cases "x \<in> set V")
      case True
      then show ?thesis using split [OF True] count_list_0_iff [of "inc y" x] by (auto simp: waits_def)
    next
      case False
      then show ?thesis using in_V by (auto simp: waits_def)
    qed
  qed
  have "{x \<in> set (inc y). waits V out D x = Some (count_list (inc y) x)}
      = {x \<in> set V. waits V out D x \<noteq> Some 0 \<and> waits V out (insert y D) x = Some 0}"
  proof (intro set_eqI iffI)
    fix x assume "x \<in> {x \<in> set (inc y). waits V out D x = Some (count_list (inc y) x)}"
    then have x: "x \<in> set (inc y)" "waits V out D x = Some (count_list (inc y) x)" "x \<in> set V" using in_V by auto
    moreover have "count_list (inc y) x \<noteq> 0" using x(1) by (simp add: count_list_0_iff)
    ultimately show "x \<in> {x \<in> set V. waits V out D x \<noteq> Some 0 \<and> waits V out (insert y D) x = Some 0}"
      using split [OF x(3)] by (simp add: waits_def)
  next
    fix x assume "x \<in> {x \<in> set V. waits V out D x \<noteq> Some 0 \<and> waits V out (insert y D) x = Some 0}"
    then have x: "x \<in> set V" "waits V out D x \<noteq> Some 0" "waits V out (insert y D) x = Some 0" by auto
    have s: "waits V out D x = Some (count_list (inc y) x)" using split [OF x(1)] x(1,3) by (simp add: waits_def)
    then have "x \<in> set (inc y)" using x(2) by (metis count_list_0_iff)
    then show "x \<in> {x \<in> set (inc y). waits V out D x = Some (count_list (inc y) x)}" using s by simp
  qed
  then show ?thesis using release_spec [of "inc y" "waits V out D"] pre unfolding eq by auto
qed

end

text \<open>Pushing under every key of every node inverts the lists.\<close>

definition inverted :: "string list \<Rightarrow> (string \<Rightarrow> string list) \<Rightarrow> string \<Rightarrow> string list" where
  "inverted V e k = concat (map (\<lambda>x. replicate (count_list (e x) k) x) V)"

lemma count_inverted: "distinct V \<Longrightarrow> count_list (inverted V e k) x = (if x \<in> set V then count_list (e x) k else 0)"
  by (induction V) (auto simp: inverted_def count_list_replicate_eq)

lemma set_inverted: "set (inverted V e k) = {x \<in> set V. k \<in> set (e x)}"
  by (auto simp: inverted_def count_list_0_iff)

interpretation inv: counted_graph "remdups V" "\<lambda>x. filter (\<lambda>y. y \<in> set V) (e x)"
    "inverted (remdups V) (\<lambda>x. filter (\<lambda>y. y \<in> set V) (e x))" for V e
  by unfold_locales (auto simp: count_inverted set_inverted)

lemma entries_push: "entries (entry_push m k v) j = entries m j @ (if j = k then [v] else [])"
  by (simp add: entries_def entry_push_def)

lemma entries_push_all: "entries (foldl (\<lambda>m k. entry_push m k v) m ks) j = entries m j @ replicate (count_list ks j) v"
  by (induction ks arbitrary: m) (auto simp: entries_push replicate_append_same [symmetric])

lemma push_all_None: "foldl (\<lambda>m k. entry_push m k v) m ks j = None \<longleftrightarrow> m j = None \<and> j \<notin> set ks"
  by (induction ks arbitrary: m) (auto simp: entry_push_def)

lemma entries_inverted:
  "entries (foldl (\<lambda>m x. foldl (\<lambda>m k. entry_push m k x) m (e x)) m V) j = entries m j @ inverted V e j"
  by (induction V arbitrary: m) (simp_all add: inverted_def entries_push_all)

lemma predecessors_inverted:
  "entries (predecessors_of V dependents) = inverted V (\<lambda>x. filter (\<lambda>y. y \<in> set V) (entries dependents x))"
  using entries_inverted [of "\<lambda>x. filter (\<lambda>y. y \<in> set V) (entries dependents x)" Map.empty V]
  by (intro ext) (simp add: predecessors_of_def entries_def)

section \<open>Ranking ends and orders the graph\<close>

definition ordered_by :: "(string \<Rightarrow> string list) \<Rightarrow> string set \<Rightarrow> bool" where
  "ordered_by out D \<longleftrightarrow> (\<exists>f::string \<Rightarrow> nat. \<forall>x\<in>D. \<forall>y\<in>set (out x). y \<in> D \<and> f y < f x)"

lemma ordered_by_insert:
  assumes "ordered_by out D" and "x \<notin> D" and "set (out x) \<subseteq> D"
  shows "ordered_by out (insert x D)"
proof -
  obtain f :: "string \<Rightarrow> nat" where f: "\<forall>x\<in>D. \<forall>y\<in>set (out x). y \<in> D \<and> f y < f x"
    using assms(1) by (auto simp: ordered_by_def)
  let ?g = "f(x := Suc (Max (insert 0 (f ` set (out x)))))"
  have "f y \<le> Max (insert 0 (f ` set (out x)))" if "y \<in> set (out x)" for y
    using that by (intro Max_ge) auto
  then have "\<forall>z\<in>insert x D. \<forall>y\<in>set (out z). y \<in> insert x D \<and> ?g y < ?g z"
    using f assms(2,3) by (auto simp: less_Suc_eq_le)
  then show ?thesis unfolding ordered_by_def by blast
qed

context counted_graph
begin

definition runnable :: "string set \<Rightarrow> string set" where
  "runnable D = {x \<in> set V. x \<notin> D \<and> set (out x) \<subseteq> D}"

lemma waits_zero: "waits V out D x = Some 0 \<longleftrightarrow> x \<in> set V \<and> set (out x) \<subseteq> D"
  by (auto simp: waits_def filter_empty_conv)

lemma runnable_insert:
  assumes "x \<in> runnable D" and "\<forall>z\<in>D. set (out z) \<subseteq> D"
  shows "runnable (insert x D) = runnable D - {x} \<union> {z \<in> set V. waits V out D z \<noteq> Some 0 \<and> waits V out (insert x D) z = Some 0}"
proof (rule set_eqI)
  fix z
  have "set (out x) \<subseteq> D" "z \<in> D \<Longrightarrow> set (out z) \<subseteq> D" using assms by (auto simp: runnable_def)
  then show "z \<in> runnable (insert x D) \<longleftrightarrow>
      z \<in> runnable D - {x} \<union> {z \<in> set V. waits V out D z \<noteq> Some 0 \<and> waits V out (insert x D) z = Some 0}"
    unfolding runnable_def waits_zero by (cases "z = x") auto
qed

lemma new_runnable_disjoint:
  "runnable D \<inter> {z \<in> set V. waits V out D z \<noteq> Some 0 \<and> P z} = {}"
  unfolding runnable_def waits_zero by auto

end

context counted_graph
begin

lemma rank_loop_spec:
  assumes "\<And>y. y \<in> set V \<Longrightarrow> entries p y = inc y"
  shows "dom ranked \<subseteq> set V \<Longrightarrow> distinct ready \<Longrightarrow> set ready = runnable (dom ranked) \<Longrightarrow> ordered_by out (dom ranked) \<Longrightarrow>
    card (set V) - card (dom ranked) \<le> fuel \<Longrightarrow>
    \<exists>ranked'. rank_loop fuel p (waits V out (dom ranked)) ready pending ranked = Some (Inr ranked')
      \<and> dom ranked' \<subseteq> set V \<and> ordered_by out (dom ranked') \<and> runnable (dom ranked') = {}"
proof (induction fuel arbitrary: ready pending ranked)
  case 0
  then have "card (set V) \<le> card (dom ranked)" by simp
  then have "dom ranked = set V" using 0(1) by (metis List.finite_set card_seteq)
  then have "set ready = {}" using 0(3) by (auto simp: runnable_def)
  then show ?case using 0 by simp
next
  case (Suc fuel)
  show ?case
  proof (cases "ready = []")
    case True
    then show ?thesis using Suc.prems by (intro exI [of _ ranked]) simp
  next
    case False
    let ?x = "last ready" and ?D = "dom ranked"
    have x: "?x \<in> runnable ?D" using False Suc.prems(3) by (metis last_in_set)
    then have xV: "?x \<in> set V" "?x \<notin> ?D" "set (out ?x) \<subseteq> ?D" by (auto simp: runnable_def)
    obtain new where new: "release (waits V out ?D) (inc ?x) = Inr (waits V out (insert ?x ?D), new)" "distinct new"
        "set new = {z \<in> set V. waits V out ?D z \<noteq> Some 0 \<and> waits V out (insert ?x ?D) z = Some 0}"
      using release_waits [OF xV(1,2)] by blast
    define depth where "depth = (case pending ?x of None \<Rightarrow> 1 | Some d \<Rightarrow> d)"
    have step: "rank_loop (Suc fuel) p (waits V out ?D) ready pending ranked =
        rank_loop fuel p (waits V out (insert ?x ?D)) (butlast ready @ new)
          (foldl (raise_depth depth) (pending(?x := None)) (inc ?x)) (ranked(?x \<mapsto> depth))"
      using False new(1) assms [OF xV(1)] by (cases ready) (simp_all add: Let_def depth_def)
    have closed: "\<forall>z\<in>?D. set (out z) \<subseteq> ?D" using Suc.prems(4) by (auto simp: ordered_by_def)
    have "set (butlast ready @ new) = runnable (insert ?x ?D)"
      unfolding runnable_insert [OF x closed] set_append new(3) set_butlast_distinct [OF Suc.prems(2) False] Suc.prems(3) by blast
    moreover have "distinct (butlast ready @ new)"
    proof -
      have "set (butlast ready) \<subseteq> runnable ?D" using Suc.prems(3) in_set_butlastD by fastforce
      then have "set (butlast ready) \<inter> set new = {}" unfolding new(3) using new_runnable_disjoint by blast
      then show ?thesis using Suc.prems(2) new(2) by (simp add: distinct_butlast)
    qed
    moreover have "card (set V) - card (insert ?x ?D) \<le> fuel"
      using Suc.prems(1,5) xV(2) finite_subset [OF Suc.prems(1)] by simp
    moreover have "ordered_by out (insert ?x ?D)" using ordered_by_insert [OF Suc.prems(4) xV(2,3)] .
    moreover have "dom (ranked(?x \<mapsto> depth)) = insert ?x ?D" by simp
    ultimately show ?thesis
      unfolding step
      using Suc.IH [of "ranked(?x \<mapsto> depth)" "butlast ready @ new" "foldl (raise_depth depth) (pending(?x := None)) (inc ?x)"]
        Suc.prems(1) xV(1) by (simp del: fun_upd_apply)
  qed
qed

lemma ordered_complete:
  assumes "runnable D = {}" and "D \<subseteq> set V" and "ordered_by out (set V)"
  shows "D = set V"
proof (rule ccontr)
  assume "D \<noteq> set V"
  then have ne: "set V - D \<noteq> {}" using assms(2) by blast
  obtain f :: "string \<Rightarrow> nat" where f: "\<forall>x\<in>set V. \<forall>y\<in>set (out x). y \<in> set V \<and> f y < f x"
    using assms(3) by (auto simp: ordered_by_def)
  obtain x where x: "x \<in> set V - D" "\<And>y. y \<in> set V - D \<Longrightarrow> f x \<le> f y"
    using ex_has_least_nat [of "\<lambda>x. x \<in> set V - D" _ f] ne by blast
  have "set (out x) \<subseteq> D"
  proof
    fix y assume "y \<in> set (out x)"
    then show "y \<in> D" using f x by (metis DiffD1 DiffI linorder_not_less)
  qed
  then have "x \<in> runnable D" using x(1) by (simp add: runnable_def)
  then show False using assms(1) by simp
qed

end

section \<open>The built state\<close>

lemma critical_depths_spec:
  fixes V :: "string list" and dependents :: "string \<rightharpoonup> string list"
  assumes "distinct V"
  defines "out \<equiv> \<lambda>x. filter (\<lambda>y. y \<in> set V) (entries dependents x)"
  shows "\<exists>r. critical_depths V dependents = Some r
    \<and> (case r of Inl e \<Rightarrow> \<not> ordered_by out (set V) \<and> (\<exists>x\<in>set V. e = RankCycle x) | Inr ranked \<Rightarrow> ordered_by out (set V) \<and> dom ranked = set V)"
proof -
  have V: "remdups V = V" using assms(1) by (simp add: distinct_remdups_id)
  note loop = inv.rank_loop_spec [where V = V and e = "entries dependents" and p = "predecessors_of V dependents"
      and ranked = Map.empty and ready = "filter (\<lambda>x. rank_remaining V dependents x = Some 0) V" and fuel = "length V"
      and pending = Map.empty, folded out_def, unfolded V]
  have rem: "rank_remaining V dependents = waits V out {}"
    by (intro ext) (simp add: rank_remaining_def waits_def out_def)
  have ready: "set (filter (\<lambda>x. rank_remaining V dependents x = Some 0) V) = inv.runnable V (entries dependents) {}"
    unfolding inv.runnable_def by (auto simp: rem waits_def out_def filter_empty_conv)
  have "ordered_by out {}" by (simp add: ordered_by_def)
  then obtain ranked where r: "rank_loop (length V) (predecessors_of V dependents) (rank_remaining V dependents)
        (filter (\<lambda>x. rank_remaining V dependents x = Some 0) V) Map.empty Map.empty = Some (Inr ranked)"
      "dom ranked \<subseteq> set V" "ordered_by out (dom ranked)" "inv.runnable V (entries dependents) (dom ranked) = {}"
    using loop ready assms(1) predecessors_inverted [of V dependents] unfolding rem out_def [symmetric]
    by (auto simp: distinct_card V)
  show ?thesis
  proof (cases "filter (\<lambda>x. ranked x = None) V")
    case Nil
    then have "dom ranked = set V" using r(2) by (auto simp: filter_empty_conv)
    moreover have "critical_depths V dependents = Some (Inr ranked)" using r(1) Nil by (simp add: critical_depths_def Let_def)
    ultimately show ?thesis using r(3) by simp
  next
    case (Cons x xs)
    have min_in: "fold min ys y \<in> insert y (set ys)" for y :: string and ys
      by (induction ys arbitrary: y) (auto simp: min_def)
    have unranked: "insert x (set xs) = {x \<in> set V. ranked x = None}" using arg_cong [OF Cons, of set] by simp
    then have sub: "insert x (set xs) \<subseteq> set V" by blast
    have "x \<in> {x \<in> set V. ranked x = None}" using unranked by blast
    then have "x \<in> set V - dom ranked" by auto
    then have "\<not> ordered_by out (set V)"
      using inv.ordered_complete [where V = V and e = "entries dependents" and D = "dom ranked", folded out_def] r(2) r(4) [folded out_def] by auto
    moreover have "critical_depths V dependents = Some (Inl (RankCycle (fold min xs x)))"
      using r(1) Cons by (simp add: critical_depths_def Let_def)
    ultimately show ?thesis using min_in [of xs x] sub by auto
  qed
qed

definition deps_in :: "(string \<rightharpoonup> graph_target) \<Rightarrow> string list \<Rightarrow> string \<Rightarrow> string list" where
  "deps_in targets V x = (case targets x of None \<Rightarrow> [] | Some t \<Rightarrow> filter (\<lambda>d. d \<in> set V) (dependency_ids t))"

abbreviation waiting :: "(string \<rightharpoonup> graph_target) \<Rightarrow> string list \<Rightarrow> string \<Rightarrow> string list" where
  "waiting targets V \<equiv> inverted V (deps_in targets V)"

lemma count_dependencies_spec:
  assumes "\<And>x. x \<in> set xs \<Longrightarrow> targets x \<noteq> None"
  shows "count_dependencies targets V xs (remaining, m) = Inr
    ((\<lambda>x. if x \<in> set xs then Some (length (deps_in targets V x)) else remaining x),
     foldl (\<lambda>m x. foldl (\<lambda>m d. entry_push m d x) m (deps_in targets V x)) m xs)"
  using assms
proof (induction xs arbitrary: remaining m)
  case (Cons x xs)
  obtain t where t: "targets x = Some t" using Cons.prems [of x] by auto
  have "(\<lambda>y. if y \<in> set xs then Some (length (deps_in targets V y)) else (remaining(x \<mapsto> length (deps_in targets V x))) y)
      = (\<lambda>y. if y \<in> set (x # xs) then Some (length (deps_in targets V y)) else remaining y)" by auto
  moreover have "filter (\<lambda>d. d \<in> set V) (dependency_ids t) = deps_in targets V x" using t by (simp add: deps_in_def)
  ultimately show ?case using Cons t by (simp add: Let_def)
qed simp

lemma inverted_None:
  "foldl (\<lambda>m x. foldl (\<lambda>m d. entry_push m d x) m (e x)) m V j = None \<longleftrightarrow> m j = None \<and> inverted V e j = []"
  by (induction V arbitrary: m) (auto simp: push_all_None inverted_def count_list_0_iff)

definition initial_readers :: "(string \<Rightarrow> string list) \<Rightarrow> string list \<Rightarrow> string \<rightharpoonup> nat" where
  "initial_readers w retained x =
     (if w x = [] \<and> x \<notin> set retained then None else Some (length (w x) + (if x \<in> set retained then 1 else 0)))"

lemma count_readers_spec:
  assumes "distinct retained" and "\<And>x. entries dependents x = w x" and "\<And>x. dependents x = None \<longleftrightarrow> w x = []"
  shows "count_readers dependents retained = initial_readers w retained"
proof -
  have base: "map_option length (dependents x) = initial_readers w [] x" for x
    using assms(2,3) [of x] by (cases "dependents x") (auto simp: entries_def initial_readers_def)
  have "distinct rs \<Longrightarrow> foldl (\<lambda>m x. m(x \<mapsto> (case m x of None \<Rightarrow> 0 | Some n \<Rightarrow> n) + 1)) (initial_readers w []) rs
      = initial_readers w rs" for rs
  proof (induction rs rule: rev_induct)
    case (snoc r rs)
    then have d: "distinct rs" "r \<notin> set rs" by simp_all
    show ?case
      unfolding foldl_append foldl.simps snoc.IH [OF d(1)] using d(2) by (intro ext) (simp add: initial_readers_def)
  qed simp
  then show ?thesis using assms(1) base unfolding count_readers_def by (simp add: fun_eq_iff [symmetric])
qed

lemma ordered_by_flip:
  assumes into: "\<And>x. x \<in> V \<Longrightarrow> set (out x) \<subseteq> V" and flip: "\<And>x y. x \<in> V \<Longrightarrow> y \<in> set (out x) \<Longrightarrow> x \<in> set (inc y)"
    and fin: "finite V" and ord: "ordered_by inc V"
  shows "ordered_by out V"
proof -
  obtain f :: "string \<Rightarrow> nat" where f: "\<forall>x\<in>V. \<forall>y\<in>set (inc x). y \<in> V \<and> f y < f x"
    using ord by (auto simp: ordered_by_def)
  have "y \<in> V \<and> Max (f ` V) - f y < Max (f ` V) - f x" if x: "x \<in> V" and y: "y \<in> set (out x)" for x y
  proof -
    have yV: "y \<in> V" using into x y by blast
    have "f x < f y" using f yV flip [OF x y] by blast
    moreover have "f y \<le> Max (f ` V)" using yV fin by simp
    ultimately show ?thesis using yV by linarith
  qed
  then show ?thesis unfolding ordered_by_def by (intro exI [of _ "\<lambda>x. Max (f ` V) - f x"]) blast
qed

lemma ordered_by_inverted:
  assumes "\<And>x. x \<in> set V \<Longrightarrow> set (e x) \<subseteq> set V"
  shows "ordered_by (inverted V e) (set V) \<longleftrightarrow> ordered_by e (set V)"
proof
  show "ordered_by e (set V)" if "ordered_by (inverted V e) (set V)"
    using assms _ _ that by (rule ordered_by_flip) (simp_all add: set_inverted)
  show "ordered_by (inverted V e) (set V)" if "ordered_by e (set V)"
    using _ _ _ that by (rule ordered_by_flip) (auto simp: set_inverted)
qed

lemma ordered_by_acyclic:
  assumes "finite V" and into: "\<And>x. x \<in> V \<Longrightarrow> set (out x) \<subseteq> V" and acyc: "acyclic {(y, x). x \<in> V \<and> y \<in> set (out x)}"
  shows "ordered_by out V"
proof -
  let ?R = "{(y, x). x \<in> V \<and> y \<in> set (out x)}"
  let ?f = "\<lambda>x. card {z. (z, x) \<in> ?R\<^sup>+}"
  have sub: "?R \<subseteq> V \<times> V" using into by blast
  have "?f y < ?f x" if "(y, x) \<in> ?R" for x y
  proof (rule psubset_card_mono)
    have "{z. (z, x) \<in> ?R\<^sup>+} \<subseteq> V" using trancl_subset_Sigma [OF sub] by blast
    then show "finite {z. (z, x) \<in> ?R\<^sup>+}" using assms(1) by (rule finite_subset)
    have "(y, y) \<notin> ?R\<^sup>+" using acyc by (simp add: acyclic_def)
    then show "{z. (z, y) \<in> ?R\<^sup>+} \<subset> {z. (z, x) \<in> ?R\<^sup>+}" using that by (auto intro: trancl_into_trancl)
  qed
  then show ?thesis unfolding ordered_by_def using into by (intro exI [of _ ?f]) blast
qed

end
