(* ===== verification/Build_Scheduler.thy ===== *)
theory Build_Scheduler
  imports Build_State
begin

text \<open>
  The loop that builds a graph: \<open>crates/once-cli/src/commands/graph/analysis/scheduler.rs\<close> over the
  state of \<open>Build_State\<close>. Tasks finish in any order with any outcome, so the loop is a step
  relation; a running task is its target with the inputs it was given. Building a target, events
  and tracing are outside the model.
\<close>

section \<open>The loop\<close>

record build_config =
  cfg_root :: string
  cfg_targets :: "string \<rightharpoonup> graph_target"
  cfg_reachable :: "string list"
  cfg_retained :: "string list"
  cfg_max_in_flight :: nat

text \<open>The heap gives the greatest depth first and, at equal depth, the least identifier.\<close>

definition heap_better :: "nat \<times> string \<Rightarrow> nat \<times> string \<Rightarrow> bool" where
  "heap_better a b \<longleftrightarrow> fst a > fst b \<or> fst a = fst b \<and> snd a < snd b"

definition heap_pop :: "heap \<Rightarrow> ((nat \<times> string) \<times> heap) option" where
  "heap_pop h =
     (case h of
        [] \<Rightarrow> None
      | x # xs \<Rightarrow> let first = fold (\<lambda>y best. if heap_better y best then y else best) xs x in Some (first, remove1 first h))"

type_synonym 'p running = "(string \<times> 'p dependency_inputs) list"

lemma heap_pop_Some: "heap_pop h = Some (first, rest) \<Longrightarrow> first \<in> set h \<and> rest = remove1 first h"
proof -
  have "fold (\<lambda>y best. if heap_better y best then y else best) ys y \<in> insert y (set ys)" for y ys
    by (induction ys arbitrary: y) auto
  then show "heap_pop h = Some (first, rest) \<Longrightarrow> first \<in> set h \<and> rest = remove1 first h"
    by (cases h) (auto simp: heap_pop_def Let_def simp del: remove1.simps)
qed

lemma heap_pop_None: "heap_pop h = None \<longleftrightarrow> h = []"
  by (cases h) (simp_all add: heap_pop_def Let_def)

lemma read_all_ready: "read_all st ds = Inr (st', ocs) \<Longrightarrow> bs_ready st' = bs_ready st"
proof (induction ds arbitrary: st ocs)
  case (Cons d ds)
  then show ?case
    by (fastforce simp: rbind_Inr read_dependency_def Let_def split: option.splits if_splits)
qed simp

lemma read_roles_ready: "read_roles reachable roles st inputs = Inr (st', inputs') \<Longrightarrow> bs_ready st' = bs_ready st"
proof (induction reachable roles st inputs rule: read_roles.induct)
  case (2 reachable role dep_ids roles st inputs)
  then show ?case by (fastforce simp: rbind_Inr dest: read_all_ready)
qed simp

lemma read_inputs_ready: "read_inputs st t reachable = Inr (st', inputs) \<Longrightarrow> bs_ready st' = bs_ready st"
  by (auto simp: read_inputs_def rbind_Inr dest!: read_all_ready read_roles_ready)

function spawn_ready ::
  "build_config \<Rightarrow> ('p, 'x) build_state \<Rightarrow> 'p running \<Rightarrow> build_error + ('p, 'x) build_state \<times> 'p running" where
  "spawn_ready c st running =
     (if length running < cfg_max_in_flight c then
        (case heap_pop (bs_ready st) of
           None \<Rightarrow> Inr (st, running)
         | Some ((_, target_id), rest) \<Rightarrow>
             (case cfg_targets c target_id of
                None \<Rightarrow> Inl (Vanished target_id)
              | Some t \<Rightarrow>
                  rbind (read_inputs (st\<lparr>bs_ready := rest\<rparr>) t (cfg_reachable c)) (\<lambda>(st, inputs).
                    spawn_ready c st (running @ [(target_id, inputs)]))))
      else Inr (st, running))"
  by auto

termination spawn_ready
proof (relation "measure (\<lambda>(c, st, running). length (bs_ready st))", goal_cases)
  case (2 c st running p pair rest depth target_id t r st' inputs)
  then have "bs_ready st' = rest" using read_inputs_ready by fastforce
  moreover have "length rest < length (bs_ready st)"
    using 2 heap_pop_Some [of "bs_ready st"] by (metis length_remove1_less lessI)
  ultimately show ?case using 2 by simp
qed simp

datatype ('p, 'x) build_run =
  Building "('p, 'x) build_state" "'p running"
| Built "string \<rightharpoonup> ('p, 'x) build_outcome"
| BuildFailed build_error
| TaskFailed

text \<open>The head of the loop, after the ready targets were spawned.\<close>

definition loop_head :: "build_config \<Rightarrow> ('p, 'x) build_state \<Rightarrow> 'p running \<Rightarrow> ('p, 'x) build_run" where
  "loop_head c st running =
     (case spawn_ready c st running of
        Inl e \<Rightarrow> BuildFailed e
      | Inr (st, running) \<Rightarrow>
          if bs_completed st < length (cfg_reachable c)
          then (if running = [] then BuildFailed (BuildCycle (cfg_root c)) else Building st running)
          else Built (bs_outcomes st))"

definition build_start :: "build_config \<Rightarrow> ('p, 'x) build_run option" where
  "build_start c =
     map_option (\<lambda>r. case r of Inl e \<Rightarrow> BuildFailed e | Inr st \<Rightarrow> loop_head c st [])
       (build_state_new (cfg_targets c) (cfg_reachable c) (cfg_retained c))"

definition join_task ::
  "build_config \<Rightarrow> ('p, 'x) build_state \<Rightarrow> 'p running \<Rightarrow> string \<times> 'p dependency_inputs \<Rightarrow> ('p, 'x) build_outcome \<Rightarrow> ('p, 'x) build_run" where
  "join_task c st running task oc =
     (case record_completion st (fst task) oc of
        Inl e \<Rightarrow> BuildFailed e
      | Inr st \<Rightarrow> loop_head c st (remove1 task running))"

text \<open>The runs, with the outcomes recorded so far.\<close>

inductive build_reach :: "build_config \<Rightarrow> (string \<rightharpoonup> ('p, 'x) build_outcome) \<Rightarrow> ('p, 'x) build_run \<Rightarrow> bool" for c where
  build_begins: "build_start c = Some r \<Longrightarrow> build_reach c Map.empty r"
| build_joins: "build_reach c rec (Building st running) \<Longrightarrow> task \<in> set running \<Longrightarrow>
    build_reach c (rec(fst task \<mapsto> oc)) (join_task c st running task oc)"
| build_fails: "build_reach c rec (Building st running) \<Longrightarrow> build_reach c rec TaskFailed"

section \<open>Reading\<close>

lemma read_all_spec:
  "(\<And>d. d \<in> set ds \<Longrightarrow> \<exists>n. remaining_readers st d = Some n \<and> count_list ds d \<le> n \<and> bs_outcomes st d \<noteq> None) \<Longrightarrow>
   read_all st ds = Inr
     (st\<lparr>remaining_readers := (\<lambda>d. if d \<in> set ds then Some (the (remaining_readers st d) - count_list ds d) else remaining_readers st d),
         bs_outcomes := (\<lambda>d. if d \<in> set ds \<and> remaining_readers st d = Some (count_list ds d) then None else bs_outcomes st d)\<rparr>,
      map (\<lambda>d. (d, the (bs_outcomes st d))) ds)"
proof (induction ds arbitrary: st)
  case (Cons d ds)
  obtain n oc where n: "remaining_readers st d = Some n" "Suc (count_list ds d) \<le> n" "bs_outcomes st d = Some oc"
    using Cons.prems [of d] by auto
  then obtain k where k: "n = Suc k" by (cases n) auto
  define st1 where "st1 = st\<lparr>remaining_readers := (remaining_readers st)(d \<mapsto> k),
    bs_outcomes := (if k = 0 then (bs_outcomes st)(d := None) else bs_outcomes st)\<rparr>"
  have r: "read_dependency st d = Inr (st1, oc)"
    using n k by (simp add: read_dependency_def checked_sub_def st1_def)
  have zero: "k = 0 \<Longrightarrow> d \<notin> set ds" using n(2) k count_list_0_iff by fastforce
  have pre: "\<exists>m. remaining_readers st1 y = Some m \<and> count_list ds y \<le> m \<and> bs_outcomes st1 y \<noteq> None" if "y \<in> set ds" for y
    using Cons.prems [of y] n k zero that by (cases "y = d") (auto simp: st1_def)
  have step: "read_all st (d # ds) = rbind (read_all st1 ds) (\<lambda>(st, ocs). Inr (st, (d, oc) # ocs))" by (simp add: r)
  have IH: "read_all st1 ds = Inr
     (st1\<lparr>remaining_readers := (\<lambda>d. if d \<in> set ds then Some (the (remaining_readers st1 d) - count_list ds d) else remaining_readers st1 d),
         bs_outcomes := (\<lambda>d. if d \<in> set ds \<and> remaining_readers st1 d = Some (count_list ds d) then None else bs_outcomes st1 d)\<rparr>,
      map (\<lambda>d. (d, the (bs_outcomes st1 d))) ds)"
    using pre by (rule Cons.IH)
  have readers: "(\<lambda>y. if y \<in> set ds then Some (the (remaining_readers st1 y) - count_list ds y) else remaining_readers st1 y)
      = (\<lambda>y. if y \<in> set (d # ds) then Some (the (remaining_readers st y) - count_list (d # ds) y) else remaining_readers st y)"
  proof
    fix y
    show "(if y \<in> set ds then Some (the (remaining_readers st1 y) - count_list ds y) else remaining_readers st1 y)
      = (if y \<in> set (d # ds) then Some (the (remaining_readers st y) - count_list (d # ds) y) else remaining_readers st y)"
      using n k by (cases "y = d") (auto simp: st1_def count_list_0_iff)
  qed
  have outs: "(\<lambda>y. if y \<in> set ds \<and> remaining_readers st1 y = Some (count_list ds y) then None else bs_outcomes st1 y)
      = (\<lambda>y. if y \<in> set (d # ds) \<and> remaining_readers st y = Some (count_list (d # ds) y) then None else bs_outcomes st y)"
  proof
    fix y
    show "(if y \<in> set ds \<and> remaining_readers st1 y = Some (count_list ds y) then None else bs_outcomes st1 y)
      = (if y \<in> set (d # ds) \<and> remaining_readers st y = Some (count_list (d # ds) y) then None else bs_outcomes st y)"
    proof (cases "y = d")
      case True
      have "count_list ds d = k \<Longrightarrow> d \<notin> set ds \<Longrightarrow> k = 0" by (auto simp: count_list_0_iff)
      then show ?thesis using True n k zero by (auto simp: st1_def)
    next
      case False
      then show ?thesis by (simp add: st1_def)
    qed
  qed
  have vals: "map (\<lambda>y. (y, the (bs_outcomes st1 y))) ds = map (\<lambda>y. (y, the (bs_outcomes st y))) ds"
    using zero by (auto simp: st1_def)
  show ?case
    unfolding step IH readers outs vals rbind_simps prod.case using n(3) by (simp add: st1_def)
qed simp

lemma read_all_append:
  "read_all st (ds @ es) = rbind (read_all st ds) (\<lambda>(st, ocs). rbind (read_all st es) (\<lambda>(st, ocs'). Inr (st, ocs @ ocs')))"
proof (induction ds arbitrary: st)
  case Nil
  show ?case by (cases "read_all st es") auto
next
  case (Cons d ds)
  show ?case
  proof (cases "read_dependency st d")
    case (Inr r)
    obtain st1 oc where r: "r = (st1, oc)" by (cases r)
    show ?thesis
      unfolding append_Cons read_all.simps Inr r rbind_simps prod.case Cons.IH
      by (cases "read_all st1 ds") (auto simp: rbind_def split: sum.split)
  qed simp
qed

lemma read_roles_spec:
  "read_all st (concat (map (\<lambda>(_, ds). filter (\<lambda>d. d \<in> set V) ds) roles)) = Inr (st', ocs) \<Longrightarrow>
   \<exists>inputs'. read_roles V roles st inputs = Inr (st', inputs')
     \<and> di_action_digests inputs' = di_action_digests inputs @ map (\<lambda>(d, oc). (d, action_digest oc)) ocs"
proof (induction roles arbitrary: st ocs inputs)
  case (Cons r roles)
  obtain role ds where r: "r = (role, ds)" by (cases r)
  obtain st1 ocs1 ocs2 where s: "read_all st (filter (\<lambda>d. d \<in> set V) ds) = Inr (st1, ocs1)"
      "read_all st1 (concat (map (\<lambda>(_, ds). filter (\<lambda>d. d \<in> set V) ds) roles)) = Inr (st', ocs2)" "ocs = ocs1 @ ocs2"
    using Cons.prems r by (auto simp: read_all_append rbind_Inr)
  show ?case using Cons.IH [OF s(2)] s(1,3) r by fastforce
qed simp

lemma read_inputs_spec:
  assumes "read_all st (filter (\<lambda>d. d \<in> set V) (dependency_ids t)) = Inr (st', ocs)"
  shows "\<exists>inputs. read_inputs st t V = Inr (st', inputs) \<and> di_action_digests inputs = map (\<lambda>(d, oc). (d, action_digest oc)) ocs"
proof -
  have ids: "filter (\<lambda>d. d \<in> set V) (dependency_ids t) = filter (\<lambda>d. d \<in> set V) (gt_deps t)
      @ concat (map (\<lambda>(_, ds). filter (\<lambda>d. d \<in> set V) ds) (gt_dependency_edges t))"
    by (simp add: dependency_ids_def filter_concat comp_def case_prod_unfold)
  obtain st1 ocs1 ocs2 where s: "read_all st (filter (\<lambda>d. d \<in> set V) (gt_deps t)) = Inr (st1, ocs1)"
      "read_all st1 (concat (map (\<lambda>(_, ds). filter (\<lambda>d. d \<in> set V) ds) (gt_dependency_edges t))) = Inr (st', ocs2)" "ocs = ocs1 @ ocs2"
    using assms unfolding ids by (auto simp: read_all_append rbind_Inr)
  show ?thesis using read_roles_spec [OF s(2)] s(1,3) by (fastforce simp: read_inputs_def)
qed

section \<open>The invariant\<close>

abbreviation cfg_deps :: "build_config \<Rightarrow> string \<Rightarrow> string list" where
  "cfg_deps c \<equiv> deps_in (cfg_targets c) (cfg_reachable c)"

abbreviation cfg_waiting :: "build_config \<Rightarrow> string \<Rightarrow> string list" where
  "cfg_waiting c \<equiv> inverted (cfg_reachable c) (cfg_deps c)"

definition config_ok :: "build_config \<Rightarrow> bool" where
  "config_ok c \<longleftrightarrow> distinct (cfg_reachable c) \<and> distinct (cfg_retained c) \<and> 0 < cfg_max_in_flight c
     \<and> (\<forall>x\<in>set (cfg_reachable c). cfg_targets c x \<noteq> None)"

text \<open>The readers a result still has when the targets in \<open>S\<close> were started.\<close>

definition readers_left :: "build_config \<Rightarrow> string set \<Rightarrow> string \<rightharpoonup> nat" where
  "readers_left c S d =
     (if cfg_waiting c d = [] \<and> d \<notin> set (cfg_retained c) then None
      else Some (length (filter (\<lambda>x. x \<notin> S) (cfg_waiting c d)) + (if d \<in> set (cfg_retained c) then 1 else 0)))"

definition kept :: "build_config \<Rightarrow> string set \<Rightarrow> (string \<rightharpoonup> ('p, 'x) build_outcome) \<Rightarrow> string \<rightharpoonup> ('p, 'x) build_outcome" where
  "kept c S rec d = (if readers_left c S d = Some 0 then None else rec d)"

definition started :: "(string \<rightharpoonup> 'o) \<Rightarrow> 'p running \<Rightarrow> string set" where
  "started rec running = dom rec \<union> fst ` set running"

definition inputs_of :: "build_config \<Rightarrow> (string \<rightharpoonup> ('p, 'x) build_outcome) \<Rightarrow> string \<Rightarrow> (string \<times> string) list" where
  "inputs_of c rec x = map (\<lambda>d. (d, action_digest (the (rec d)))) (cfg_deps c x)"

definition build_inv :: "build_config \<Rightarrow> (string \<rightharpoonup> ('p, 'x) build_outcome) \<Rightarrow> ('p, 'x) build_state \<Rightarrow> 'p running \<Rightarrow> bool" where
  "build_inv c rec st running \<longleftrightarrow>
     started rec running \<subseteq> set (cfg_reachable c)
     \<and> distinct (map fst running) \<and> dom rec \<inter> fst ` set running = {} \<and> length running \<le> cfg_max_in_flight c
     \<and> (\<forall>x\<in>started rec running. set (cfg_deps c x) \<subseteq> dom rec)
     \<and> (\<forall>(x, inputs)\<in>set running. di_action_digests inputs = inputs_of c rec x)
     \<and> bs_completed st = card (dom rec)
     \<and> remaining_deps st = waits (cfg_reachable c) (cfg_deps c) (dom rec)
     \<and> entries (bs_dependents st) = cfg_waiting c
     \<and> distinct (map snd (bs_ready st))
     \<and> snd ` set (bs_ready st) = {x \<in> set (cfg_reachable c) - started rec running. set (cfg_deps c x) \<subseteq> dom rec}
     \<and> remaining_readers st = readers_left c (started rec running)
     \<and> bs_outcomes st = kept c (started rec running) rec"

lemma build_invD:
  assumes "build_inv c rec st running"
  shows "started rec running \<subseteq> set (cfg_reachable c)" and "distinct (map fst running)" and "dom rec \<inter> fst ` set running = {}"
    and "length running \<le> cfg_max_in_flight c" and "\<And>x. x \<in> started rec running \<Longrightarrow> set (cfg_deps c x) \<subseteq> dom rec"
    and "\<And>x inputs. (x, inputs) \<in> set running \<Longrightarrow> di_action_digests inputs = inputs_of c rec x"
    and "bs_completed st = card (dom rec)" and "remaining_deps st = waits (cfg_reachable c) (cfg_deps c) (dom rec)"
    and "entries (bs_dependents st) = cfg_waiting c" and "distinct (map snd (bs_ready st))"
    and "snd ` set (bs_ready st) = {x \<in> set (cfg_reachable c) - started rec running. set (cfg_deps c x) \<subseteq> dom rec}"
    and "remaining_readers st = readers_left c (started rec running)" and "bs_outcomes st = kept c (started rec running) rec"
  using assms unfolding build_inv_def by blast+

lemma filter_deps_in [simp]: "filter (\<lambda>d. d \<in> set V) (deps_in targets V x) = deps_in targets V x"
  by (cases "targets x") (auto simp: deps_in_def)

lemma set_deps_in: "set (deps_in targets V x) \<subseteq> set V"
  by (cases "targets x") (simp_all add: deps_in_def, blast)

lemma readers_insert:
  assumes "distinct (cfg_reachable c)" and "x \<in> set (cfg_reachable c)" and "x \<notin> S"
  shows "readers_left c S d =
    map_option (\<lambda>n. n + count_list (cfg_deps c x) d) (readers_left c (insert x S) d)"
  using filter_insert_count [OF assms(3), of "cfg_waiting c d"] count_inverted [OF assms(1), of "cfg_deps c" d x] assms(2)
  by (simp add: readers_left_def)

text \<open>Popping a ready target and reading its inputs keeps the invariant.\<close>

lemma start_one:
  assumes ok: "config_ok c" and inv: "build_inv c rec st running" and room: "length running < cfg_max_in_flight c"
    and pop: "heap_pop (bs_ready st) = Some ((depth, x), rest)"
  shows "\<exists>t st' inputs. cfg_targets c x = Some t \<and> read_inputs (st\<lparr>bs_ready := rest\<rparr>) t (cfg_reachable c) = Inr (st', inputs)
    \<and> build_inv c rec st' (running @ [(x, inputs)])"
proof -
  let ?V = "cfg_reachable c" and ?S = "started rec running" and ?e = "cfg_deps c" and ?st = "st\<lparr>bs_ready := rest\<rparr>"
  note i = build_invD [OF inv]
  have h: "(depth, x) \<in> set (bs_ready st)" "rest = remove1 (depth, x) (bs_ready st)" using heap_pop_Some [OF pop] by auto
  have "x \<in> snd ` set (bs_ready st)" using h(1) by force
  then have x: "x \<in> set ?V" "x \<notin> ?S" "set (?e x) \<subseteq> dom rec" unfolding i(11) by blast+
  obtain t where t: "cfg_targets c x = Some t" using ok x(1) by (auto simp: config_ok_def)
  have ids: "filter (\<lambda>d. d \<in> set ?V) (dependency_ids t) = ?e x" using t by (simp add: deps_in_def)
  have dV: "distinct ?V" using ok by (simp add: config_ok_def)
  note ri = readers_insert [OF dV x(1,2)]
  have waits_x: "cfg_waiting c d \<noteq> []" if "d \<in> set (?e x)" for d
  proof -
    have "x \<in> set (cfg_waiting c d)" using that x(1) by (simp add: set_inverted)
    then show ?thesis by auto
  qed
  have left: "\<exists>n. readers_left c ?S d = Some n \<and> count_list (?e x) d \<le> n" if "d \<in> set (?e x)" for d
    using ri [of d] waits_x [OF that] by (auto simp: readers_left_def)
  have fields: "remaining_readers ?st = readers_left c ?S" "bs_outcomes ?st = kept c ?S rec" using i(12,13) by simp_all
  have here: "kept c ?S rec d = rec d" if d: "d \<in> set (?e x)" for d
  proof -
    obtain n where n: "readers_left c ?S d = Some n" "count_list (?e x) d \<le> n" using left [OF d] by blast
    have "n \<noteq> 0" using n(2) d count_list_0_iff by fastforce
    then show ?thesis using n(1) by (simp add: kept_def)
  qed
  have pre: "\<exists>n. remaining_readers ?st d = Some n \<and> count_list (?e x) d \<le> n \<and> bs_outcomes ?st d \<noteq> None"
    if d: "d \<in> set (?e x)" for d
    unfolding fields here [OF d] using left [OF d] x(3) d by auto
  note reads = read_all_spec [of "?e x" ?st, OF pre, unfolded fields]
  from read_inputs_spec [of ?st ?V t, unfolded ids, OF reads] obtain inputs where
    inputs: "read_inputs ?st t ?V = Inr
       (?st\<lparr>remaining_readers := (\<lambda>d. if d \<in> set (?e x) then Some (the (readers_left c ?S d) - count_list (?e x) d) else readers_left c ?S d),
         bs_outcomes := (\<lambda>d. if d \<in> set (?e x) \<and> readers_left c ?S d = Some (count_list (?e x) d) then None else kept c ?S rec d)\<rparr>, inputs)"
      "di_action_digests inputs = map (\<lambda>(d, oc). (d, action_digest oc)) (map (\<lambda>d. (d, the (kept c ?S rec d))) (?e x))" by blast
  have started': "started rec (running @ [(x, inputs)]) = insert x ?S" by (auto simp: started_def)
  have readers': "(\<lambda>d. if d \<in> set (?e x) then Some (the (readers_left c ?S d) - count_list (?e x) d) else readers_left c ?S d)
      = readers_left c (insert x ?S)"
  proof
    fix d
    show "(if d \<in> set (?e x) then Some (the (readers_left c ?S d) - count_list (?e x) d) else readers_left c ?S d)
        = readers_left c (insert x ?S) d"
      using ri [of d] left [of d] count_list_0_iff [of "?e x" d] by (cases "readers_left c (insert x ?S) d") auto
  qed
  have outcomes': "(\<lambda>d. if d \<in> set (?e x) \<and> readers_left c ?S d = Some (count_list (?e x) d) then None else kept c ?S rec d)
      = kept c (insert x ?S) rec"
  proof
    fix d
    show "(if d \<in> set (?e x) \<and> readers_left c ?S d = Some (count_list (?e x) d) then None else kept c ?S rec d)
        = kept c (insert x ?S) rec d"
      using ri [of d] count_list_0_iff [of "?e x" d] here [of d]
      by (cases "readers_left c (insert x ?S) d"; cases "d \<in> set (?e x)") (auto simp: kept_def)
  qed
  define st' where "st' = ?st\<lparr>remaining_readers := readers_left c (insert x ?S), bs_outcomes := kept c (insert x ?S) rec\<rparr>"
  have digests: "di_action_digests inputs = inputs_of c rec x" using inputs(2) here by (simp add: inputs_of_def)
  have ready': "distinct (map snd rest)" "snd ` set rest = snd ` set (bs_ready st) - {x}"
  proof -
    have d: "distinct (bs_ready st)" and inj: "inj_on snd (set (bs_ready st))" using i(10) by (simp_all add: distinct_map)
    have rest: "set rest = set (bs_ready st) - {(depth, x)}" using d h(2) by simp
    show "distinct (map snd rest)" using d inj h(2) rest by (simp add: distinct_map inj_on_diff)
    show "snd ` set rest = snd ` set (bs_ready st) - {x}"
      unfolding rest using inj_on_image_set_diff [OF inj, of "set (bs_ready st)" "{(depth, x)}"] h(1) by simp
  qed
  have "build_inv c rec st' (running @ [(x, inputs)])"
    unfolding build_inv_def started'
  proof (intro conjI)
    show "snd ` set (bs_ready st') = {y \<in> set ?V - insert x ?S. set (?e y) \<subseteq> dom rec}"
      using ready'(2) i(11) by (auto simp: st'_def)
    show "\<forall>y\<in>insert x ?S. set (?e y) \<subseteq> dom rec" using i(5) x(3) by blast
    show "\<forall>(y, inputs)\<in>set (running @ [(x, inputs)]). di_action_digests inputs = inputs_of c rec y"
      using i(6) digests by auto
  qed (use i x room ready'(1) in \<open>auto simp: st'_def started_def\<close>)
  then show ?thesis using t inputs(1) unfolding readers' outcomes' st'_def by blast
qed

declare spawn_ready.simps [simp del]

lemma spawn_ready_inv:
  assumes "config_ok c"
  shows "build_inv c rec st running \<Longrightarrow>
    \<exists>st' running'. spawn_ready c st running = Inr (st', running') \<and> build_inv c rec st' running'
      \<and> (bs_ready st' = [] \<or> length running' = cfg_max_in_flight c)"
proof (induction "length (bs_ready st)" arbitrary: st running rule: less_induct)
  case less
  show ?case
  proof (cases "length running < cfg_max_in_flight c \<and> bs_ready st \<noteq> []")
    case True
    then obtain depth x rest where pop: "heap_pop (bs_ready st) = Some ((depth, x), rest)"
      using heap_pop_None [of "bs_ready st"] by fastforce
    obtain t st' inputs where s: "cfg_targets c x = Some t" "read_inputs (st\<lparr>bs_ready := rest\<rparr>) t (cfg_reachable c) = Inr (st', inputs)"
        "build_inv c rec st' (running @ [(x, inputs)])"
      using start_one [OF assms less.prems _ pop] True by blast
    have "bs_ready st' = rest" using read_inputs_ready [OF s(2)] by simp
    moreover have "length rest < length (bs_ready st)" using heap_pop_Some [OF pop] by (metis length_remove1_less lessI)
    ultimately have "length (bs_ready st') < length (bs_ready st)" by simp
    from less.hyps [OF this s(3)] show ?thesis
      using True pop s(1,2) by (subst spawn_ready.simps) simp
  next
    case False
    then have "spawn_ready c st running = Inr (st, running)"
      by (subst spawn_ready.simps) (auto simp: heap_pop_None [THEN iffD2])
    moreover have "bs_ready st = [] \<or> length running = cfg_max_in_flight c"
      using False build_invD(4) [OF less.prems] by auto
    ultimately show ?thesis using less.prems by blast
  qed
qed

lemma record_completion_release:
  "record_completion st x oc =
     rbind (release (remaining_deps st) (entries (bs_dependents st) x)) (\<lambda>(remaining, new).
       Inr (st\<lparr>bs_outcomes := (bs_outcomes st)(x \<mapsto> oc), bs_completed := bs_completed st + 1, remaining_deps := remaining,
         bs_ready := bs_ready st @ map (\<lambda>x. (depth_of (bs_depths st) x, x)) new\<rparr>))"
  by (cases "bs_dependents st x") (simp_all add: record_completion_def entries_def Let_def)

lemma unfinished_readers:
  assumes "x \<notin> dom rec" and "\<And>y. y \<in> S \<Longrightarrow> set (cfg_deps c y) \<subseteq> dom rec"
  shows "readers_left c S x \<noteq> Some 0"
proof -
  have "filter (\<lambda>y. y \<notin> S) (cfg_waiting c x) = cfg_waiting c x"
  proof (rule filter_True, rule ballI)
    fix y assume "y \<in> set (cfg_waiting c x)"
    then have "x \<in> set (cfg_deps c y)" by (simp add: set_inverted)
    then show "y \<notin> S" using assms by blast
  qed
  then show ?thesis by (simp add: readers_left_def)
qed

lemma record_completion_inv:
  assumes ok: "config_ok c" and inv: "build_inv c rec st running" and task: "(x, inputs) \<in> set running"
  shows "\<exists>st'. record_completion st x oc = Inr st' \<and> build_inv c (rec(x \<mapsto> oc)) st' (remove1 (x, inputs) running)"
proof -
  let ?V = "cfg_reachable c" and ?S = "started rec running" and ?e = "cfg_deps c" and ?D = "dom rec"
  note i = build_invD [OF inv]
  have V: "remdups ?V = ?V" using ok by (simp add: config_ok_def distinct_remdups_id)
  have xS: "x \<in> ?S" using task by (force simp: started_def)
  have "x \<in> fst ` set running" using task by force
  then have xD: "x \<notin> ?D" using i(3) by blast
  have xV: "x \<in> set ?V" using xS i(1) by blast
  have fin: "finite ?D" using i(1) finite_subset [of ?D "set ?V"] by (simp add: started_def)
  obtain new where new: "release (waits ?V ?e ?D) (cfg_waiting c x) = Inr (waits ?V ?e (insert x ?D), new)" "distinct new"
      "set new = {z \<in> set ?V. waits ?V ?e ?D z \<noteq> Some 0 \<and> waits ?V ?e (insert x ?D) z = Some 0}"
    using inv.release_waits [where V = ?V and e = ?e and y = x and D = ?D] xV xD unfolding V filter_deps_in by auto
  have zero: "waits ?V ?e D z = Some 0 \<longleftrightarrow> z \<in> set ?V \<and> set (?e z) \<subseteq> D" for D z
    using inv.waits_zero [where V = ?V and e = ?e] unfolding V filter_deps_in by auto
  define st' where "st' = st\<lparr>bs_outcomes := (bs_outcomes st)(x \<mapsto> oc), bs_completed := bs_completed st + 1,
    remaining_deps := waits ?V ?e (insert x ?D), bs_ready := bs_ready st @ map (\<lambda>x. (depth_of (bs_depths st) x, x)) new\<rparr>"
  have run: "record_completion st x oc = Inr st'"
    unfolding record_completion_release i(8,9) new(1) by (simp add: st'_def)
  have inj: "inj_on fst (set running)" and dr: "distinct running" using i(2) by (simp_all add: distinct_map)
  have rest: "set (remove1 (x, inputs) running) = set running - {(x, inputs)}" using dr by simp
  have left: "fst ` set (remove1 (x, inputs) running) = fst ` set running - {x}"
    unfolding rest using inj_on_image_set_diff [OF inj, of "set running" "{(x, inputs)}"] task by simp
  have S: "started (rec(x \<mapsto> oc)) (remove1 (x, inputs) running) = ?S" unfolding started_def left using task by force
  have new_out: "snd ` set (bs_ready st) \<inter> set new = {}" unfolding i(11) new(3) zero by auto
  have "build_inv c (rec(x \<mapsto> oc)) st' (remove1 (x, inputs) running)"
    unfolding build_inv_def S
  proof (intro conjI)
    show "distinct (map fst (remove1 (x, inputs) running))" using inj dr rest by (simp add: distinct_map inj_on_diff)
    show "dom (rec(x \<mapsto> oc)) \<inter> fst ` set (remove1 (x, inputs) running) = {}" unfolding left using i(3) by auto
    show "length (remove1 (x, inputs) running) \<le> cfg_max_in_flight c" using i(4) length_remove1 [of "(x, inputs)" running] by (simp split: if_splits)
    show "\<forall>y\<in>?S. set (?e y) \<subseteq> dom (rec(x \<mapsto> oc))" using i(5) by fastforce
    have "inputs_of c (rec(x \<mapsto> oc)) y = inputs_of c rec y" if "y \<in> ?S" for y
      using i(5) [OF that] xD by (auto simp: inputs_of_def)
    moreover have "y \<in> ?S" if "(y, inp) \<in> set running" for y inp using that by (force simp: started_def)
    ultimately show "\<forall>(y, inputs)\<in>set (remove1 (x, inputs) running). di_action_digests inputs = inputs_of c (rec(x \<mapsto> oc)) y"
      using i(6) rest by auto
    show "distinct (map snd (bs_ready st'))" using i(10) new(2) new_out by (simp add: st'_def comp_def)
    show "snd ` set (bs_ready st') = {z \<in> set ?V - ?S. set (?e z) \<subseteq> dom (rec(x \<mapsto> oc))}"
    proof -
      have "snd ` set (bs_ready st') = snd ` set (bs_ready st) \<union> set new" by (simp add: st'_def image_Un image_image)
      also have "\<dots> = {z \<in> set ?V - ?S. set (?e z) \<subseteq> insert x ?D}"
        unfolding i(11) new(3) zero using i(5) by blast
      finally show ?thesis by simp
    qed
    show "bs_outcomes st' = kept c ?S (rec(x \<mapsto> oc))"
    proof
      fix d
      show "bs_outcomes st' d = kept c ?S (rec(x \<mapsto> oc)) d"
        using unfinished_readers [OF xD i(5)] by (cases "d = x") (simp_all add: st'_def kept_def i(13))
    qed
    show "?S \<subseteq> set ?V" using i(1) .
    show "bs_completed st' = card (dom (rec(x \<mapsto> oc)))" using i(7) xD fin by (simp add: st'_def)
    show "remaining_deps st' = waits ?V ?e (dom (rec(x \<mapsto> oc)))" by (simp add: st'_def)
    show "entries (bs_dependents st') = cfg_waiting c" using i(9) by (simp add: st'_def)
    show "remaining_readers st' = readers_left c ?S" using i(12) by (simp add: st'_def)
  qed
  then show ?thesis using run by blast
qed

section \<open>Whole runs\<close>

text \<open>A failure of the ranking names a cycle; otherwise the state it starts from satisfies the invariant.\<close>

lemma build_state_new_spec:
  fixes c :: build_config
  assumes ok: "config_ok c"
  shows "\<exists>r. build_state_new (cfg_targets c) (cfg_reachable c) (cfg_retained c) = Some (r :: build_error + ('p, 'x) build_state)
    \<and> (case r of
        Inl e \<Rightarrow> \<not> ordered_by (cfg_deps c) (set (cfg_reachable c)) \<and> (\<exists>x\<in>set (cfg_reachable c). e = RankCycle x)
      | Inr st \<Rightarrow> ordered_by (cfg_deps c) (set (cfg_reachable c)) \<and> build_inv c Map.empty st [])"
proof -
  let ?V = "cfg_reachable c" and ?e = "cfg_deps c"
  have d: "distinct ?V" "distinct (cfg_retained c)" and known: "\<And>x. x \<in> set ?V \<Longrightarrow> cfg_targets c x \<noteq> None"
    using ok by (auto simp: config_ok_def)
  define m where "m = foldl (\<lambda>m x. foldl (\<lambda>m d. entry_push m d x) m (?e x)) Map.empty ?V"
  define rem where "rem = (\<lambda>x. if x \<in> set ?V then Some (length (?e x)) else None)"
  have cd: "count_dependencies (cfg_targets c) ?V ?V (Map.empty, Map.empty) = Inr (rem, m)"
    using count_dependencies_spec [of ?V "cfg_targets c" ?V Map.empty Map.empty] known by (simp add: m_def rem_def)
  have w: "entries m x = cfg_waiting c x" for x unfolding m_def entries_inverted by (simp add: entries_def)
  have n: "m x = None \<longleftrightarrow> cfg_waiting c x = []" for x unfolding m_def inverted_None by simp
  have waiting: "rem = waits ?V ?e {}" by (intro ext) (simp add: rem_def waits_def)
  have readers: "count_readers m (cfg_retained c) = readers_left c {}"
    unfolding count_readers_spec [OF d(2) w n] by (intro ext) (simp add: initial_readers_def readers_left_def)
  have fw: "(\<lambda>x. filter (\<lambda>y. y \<in> set ?V) (entries m x)) = cfg_waiting c"
    unfolding w by (intro ext filter_True) (auto simp: set_inverted)
  have ord: "ordered_by (cfg_waiting c) (set ?V) \<longleftrightarrow> ordered_by ?e (set ?V)" by (rule ordered_by_inverted) (rule set_deps_in)
  obtain r where r: "critical_depths ?V m = Some r"
      "case r of Inl e \<Rightarrow> \<not> ordered_by ?e (set ?V) \<and> (\<exists>x\<in>set ?V. e = RankCycle x) | Inr ranked \<Rightarrow> ordered_by ?e (set ?V) \<and> dom ranked = set ?V"
    using critical_depths_spec [OF d(1), of m] unfolding fw ord by blast
  show ?thesis
  proof (cases r)
    case (Inl e)
    then show ?thesis using r by (simp add: build_state_new_def cd)
  next
    case (Inr ds)
    define st :: "('p, 'x) build_state" where "st = \<lparr>remaining_deps = rem, bs_dependents = m, bs_depths = ds,
      remaining_readers = count_readers m (cfg_retained c),
      bs_ready = map (\<lambda>x. (depth_of ds x, x)) (filter (\<lambda>x. rem x = Some 0) ?V), bs_outcomes = Map.empty, bs_completed = 0\<rparr>"
    have "build_state_new (cfg_targets c) ?V (cfg_retained c) = Some (Inr st)"
      using r(1) Inr by (simp add: build_state_new_def cd st_def)
    moreover have "build_inv c Map.empty st []"
    proof -
      have "entries m = cfg_waiting c" by (intro ext) (rule w)
      moreover have "snd ` set (bs_ready st) = {x \<in> set ?V. set (?e x) \<subseteq> {}}" by (auto simp: st_def rem_def image_image)
      moreover have "distinct (map snd (bs_ready st))" using d(1) by (simp add: st_def comp_def)
      moreover have "remaining_deps st = waits ?V ?e {}" "remaining_readers st = readers_left c {}"
        using waiting readers by (simp_all add: st_def)
      moreover have "bs_outcomes st = kept c {} Map.empty" by (intro ext) (simp add: st_def kept_def)
      ultimately show ?thesis unfolding build_inv_def by (simp add: started_def) (simp add: st_def)
    qed
    ultimately show ?thesis using r(2) Inr by simp
  qed
qed

lemma build_state_new_cases:
  fixes r :: "build_error + ('p, 'x) build_state"
  assumes "config_ok c" and "build_state_new (cfg_targets c) (cfg_reachable c) (cfg_retained c) = Some r"
  shows "case r of
        Inl e \<Rightarrow> \<not> ordered_by (cfg_deps c) (set (cfg_reachable c)) \<and> (\<exists>x\<in>set (cfg_reachable c). e = RankCycle x)
      | Inr st \<Rightarrow> ordered_by (cfg_deps c) (set (cfg_reachable c)) \<and> build_inv c Map.empty st []"
  using build_state_new_spec [OF assms(1), where ?'p = 'p and ?'x = 'x] assms(2) by simp

lemma build_start_total: "config_ok c \<Longrightarrow> (build_start c :: ('p, 'x) build_run option) \<noteq> None"
  using build_state_new_spec [of c, where ?'p = 'p and ?'x = 'x] by (auto simp: build_start_def)

lemma set_waiting: "filter (\<lambda>y. y \<notin> set (cfg_reachable c)) (cfg_waiting c x) = []"
  by (auto simp: filter_empty_conv set_inverted)

text \<open>The facts a run keeps, whichever task ends next.\<close>

definition run_ok :: "build_config \<Rightarrow> (string \<rightharpoonup> ('p, 'x) build_outcome) \<Rightarrow> ('p, 'x) build_run \<Rightarrow> bool" where
  "run_ok c rec r \<longleftrightarrow> (case r of
      Building st running \<Rightarrow> build_inv c rec st running \<and> ordered_by (cfg_deps c) (set (cfg_reachable c))
        \<and> running \<noteq> [] \<and> card (dom rec) < length (cfg_reachable c)
    | Built outcomes \<Rightarrow> dom rec = set (cfg_reachable c) \<and> outcomes = kept c (set (cfg_reachable c)) rec
    | BuildFailed e \<Rightarrow> \<not> ordered_by (cfg_deps c) (set (cfg_reachable c)) \<and> (\<exists>x\<in>set (cfg_reachable c). e = RankCycle x)
    | TaskFailed \<Rightarrow> True)"

lemma idle_complete:
  assumes ok: "config_ok c" and inv: "build_inv c rec st []" and "bs_ready st = []"
    and ord: "ordered_by (cfg_deps c) (set (cfg_reachable c))"
  shows "dom rec = set (cfg_reachable c)"
proof -
  let ?V = "cfg_reachable c" and ?e = "cfg_deps c"
  note i = build_invD [OF inv]
  have V: "remdups ?V = ?V" using ok by (simp add: config_ok_def distinct_remdups_id)
  have "inv.runnable ?V ?e (dom rec) = {}"
    unfolding inv.runnable_def unfolding V filter_deps_in using i(11) assms(3) by (auto simp: started_def)
  moreover have "dom rec \<subseteq> set ?V" using i(1) by (simp add: started_def)
  ultimately show ?thesis
    using inv.ordered_complete [where V = ?V and e = ?e and D = "dom rec"] ord unfolding V filter_deps_in by blast
qed

lemma loop_head_ok:
  assumes ok: "config_ok c" and inv: "build_inv c rec st running" and ord: "ordered_by (cfg_deps c) (set (cfg_reachable c))"
  shows "run_ok c rec (loop_head c st running)"
proof -
  let ?V = "cfg_reachable c"
  obtain st' running' where s: "spawn_ready c st running = Inr (st', running')" "build_inv c rec st' running'"
      "bs_ready st' = [] \<or> length running' = cfg_max_in_flight c"
    using spawn_ready_inv [OF ok inv] by blast
  note i = build_invD [OF s(2)]
  have d: "card (set ?V) = length ?V" "0 < cfg_max_in_flight c" using ok by (simp_all add: config_ok_def distinct_card)
  have sub: "dom rec \<subseteq> set ?V" using i(1) by (simp add: started_def)
  show ?thesis
  proof (cases "bs_completed st' < length ?V")
    case True
    then have less: "card (dom rec) < length ?V" using i(7) by simp
    have "running' \<noteq> []"
    proof
      assume none: "running' = []"
      then have "bs_ready st' = []" using s(3) d(2) by auto
      then have "dom rec = set ?V" using idle_complete [OF ok s(2) [unfolded none] _ ord] by blast
      then show False using less d(1) by simp
    qed
    then show ?thesis using True s(1,2) ord less by (simp add: loop_head_def run_ok_def)
  next
    case False
    then have "card (set ?V) \<le> card (dom rec)" using i(7) d(1) by simp
    then have all: "dom rec = set ?V" using sub by (simp add: card_seteq)
    then have "started rec running' = set ?V" using i(1) by (auto simp: started_def)
    then show ?thesis using False s(1) i(13) all by (simp add: loop_head_def run_ok_def)
  qed
qed

lemma build_reach_ok:
  assumes ok: "config_ok c" and "build_reach c rec r"
  shows "run_ok c rec r"
  using assms(2)
proof induction
  case (build_begins r)
  then obtain q where q: "build_state_new (cfg_targets c) (cfg_reachable c) (cfg_retained c) = Some q"
      "r = (case q of Inl e \<Rightarrow> BuildFailed e | Inr st \<Rightarrow> loop_head c st [])"
    by (auto simp: build_start_def)
  then show ?case
  proof (cases q)
    case (Inl e)
    then show ?thesis using q(2) build_state_new_cases [OF ok q(1)] by (simp add: run_ok_def)
  next
    case (Inr st)
    then have "ordered_by (cfg_deps c) (set (cfg_reachable c))" "build_inv c Map.empty st []"
      using build_state_new_cases [OF ok q(1)] by simp_all
    then show ?thesis using loop_head_ok [OF ok] q(2) Inr by simp
  qed
next
  case (build_joins rec st running task oc)
  obtain x inputs where t: "task = (x, inputs)" by (cases task)
  have "build_inv c rec st running" and ord: "ordered_by (cfg_deps c) (set (cfg_reachable c))"
    using build_joins.IH by (simp_all add: run_ok_def)
  then obtain st' where "record_completion st x oc = Inr st'" "build_inv c (rec(x \<mapsto> oc)) st' (remove1 task running)"
    using record_completion_inv [OF ok, of rec st running x inputs oc] build_joins.hyps(2) t by blast
  then show ?case using loop_head_ok [OF ok _ ord] by (simp add: join_task_def t del: fun_upd_apply)
qed (simp add: run_ok_def)


text \<open>C3. Over a known, repetition-free graph the build loop never stalls, never loses a result it still needs and
  never fails by its own bookkeeping: whatever order the tasks end in, while it runs there is a running task
  and never more than the bound allows; each running task was started once, after all its dependencies
  completed, and was given their action digests in order; the loop ends when every reachable target has
  completed, holding exactly the outcomes of the retained targets and of those nothing depends on; and the only
  error of its own is a cycle that the dependencies really have.\<close>

theorem build_bookkeeping_sound:
  fixes r :: "('p, 'x) build_run"
  assumes "config_ok c" and "build_reach c rec r"
  shows "build_start c \<noteq> (None :: ('p, 'x) build_run option) \<and> (case r of
      Building st running \<Rightarrow>
        running \<noteq> [] \<and> length running \<le> cfg_max_in_flight c \<and> distinct (map fst running) \<and> dom rec \<inter> fst ` set running = {}
        \<and> card (dom rec) < length (cfg_reachable c)
        \<and> list_all (\<lambda>(x, inputs). set (deps_in (cfg_targets c) (cfg_reachable c) x) \<subseteq> dom rec \<and> di_action_digests inputs
            = map (\<lambda>d. (d, action_digest (the (rec d)))) (deps_in (cfg_targets c) (cfg_reachable c) x)) running
    | Built outcomes \<Rightarrow>
        dom rec = set (cfg_reachable c)
        \<and> outcomes = (\<lambda>x. if x \<in> set (cfg_retained c) \<or> waiting (cfg_targets c) (cfg_reachable c) x = [] then rec x else None)
    | BuildFailed e \<Rightarrow>
        (\<exists>x\<in>set (cfg_reachable c). e = RankCycle x)
        \<and> \<not> acyclic {(d, x). x \<in> set (cfg_reachable c) \<and> d \<in> set (deps_in (cfg_targets c) (cfg_reachable c) x)}
    | TaskFailed \<Rightarrow> True)"
proof -
  note total = build_start_total [OF assms(1), where ?'p = 'p and ?'x = 'x]
  show ?thesis
  proof (cases r)
    case (Building st running)
    then have inv: "build_inv c rec st running" and rest: "running \<noteq> []" "card (dom rec) < length (cfg_reachable c)"
      using build_reach_ok [OF assms] by (simp_all add: run_ok_def)
    note i = build_invD [OF inv]
    have "x \<in> started rec running" if "(x, inputs) \<in> set running" for x inputs using that by (force simp: started_def)
    then have "list_all (\<lambda>(x, inputs). set (cfg_deps c x) \<subseteq> dom rec \<and> di_action_digests inputs = inputs_of c rec x) running"
      using i(5,6) by (force simp: list_all_iff)
    then show ?thesis using total Building rest i(2,3,4) by (simp add: inputs_of_def)
  next
    case (Built outcomes)
    have "kept c (set (cfg_reachable c)) rec x = (if x \<in> set (cfg_retained c) \<or> cfg_waiting c x = [] then rec x else None)" for x
      using set_waiting [of c x] by (simp add: kept_def readers_left_def)
    then show ?thesis using total Built build_reach_ok [OF assms] by (auto simp: run_ok_def)
  next
    case (BuildFailed e)
    then show ?thesis
      using total build_reach_ok [OF assms] ordered_by_acyclic [of "set (cfg_reachable c)" "cfg_deps c"] set_deps_in
      by (auto simp: run_ok_def)
  qed (use total in simp)
qed

definition chain_target :: "string \<Rightarrow> string list \<Rightarrow> graph_target" where
  "chain_target name ds = \<lparr>gt_id = name, gt_package = '''', gt_name = name, gt_kind = ''k'', gt_deps = ds, gt_dependency_edges = [],
     gt_srcs = [], gt_visibility = [], gt_attrs = [], gt_capabilities = [], gt_providers = []\<rparr>"

definition chain_build :: build_config where
  "chain_build = \<lparr>cfg_root = ''b'', cfg_targets = [''a'' \<mapsto> chain_target ''a'' [], ''b'' \<mapsto> chain_target ''b'' [''a'']],
     cfg_reachable = [''a'', ''b''], cfg_retained = [''b''], cfg_max_in_flight = 2\<rparr>"

definition chain_outcome :: "(nat, unit) build_outcome" where
  "chain_outcome = \<lparr>provider = 7, action_digest = ''d1'', available_inputs = [], outcome_rest = ()\<rparr>"

definition chain_second :: "(nat, unit) build_run" where
  "chain_second = (case build_start chain_build of
     Some (Building st running) \<Rightarrow> join_task chain_build st running (hd running) chain_outcome | _ \<Rightarrow> TaskFailed)"

lemmas chain_defs = build_state_new_def chain_build_def chain_target_def dependency_ids_def entry_push_def critical_depths_def
  rank_remaining_def predecessors_of_def entries_def Let_def raise_depth_def count_readers_def depth_of_def loop_head_def
  heap_pop_def read_inputs_def build_start_def join_task_def record_completion_def read_dependency_def checked_sub_def

lemma chain_first: "(case build_start chain_build :: (nat, unit) build_run option of
   Some (Building st running) \<Rightarrow> map fst running = [''a''] | _ \<Rightarrow> False)"
  by (simp add: chain_defs spawn_ready.simps)

lemma chain_then: "(case chain_second of Building st running \<Rightarrow> map fst running = [''b''] | _ \<Rightarrow> False)"
  by (simp add: chain_second_def chain_defs spawn_ready.simps)

lemma chain_reach: "build_reach chain_build [''a'' \<mapsto> chain_outcome] chain_second"
proof -
  obtain st inputs where s: "(build_start chain_build :: (nat, unit) build_run option) = Some (Building st [(''a'', inputs)])"
    using chain_first by (auto split: option.splits build_run.splits)
  then show ?thesis
    using build_joins [OF build_begins [OF s], of "(''a'', inputs)" chain_outcome] by (simp add: chain_second_def del: fun_upd_apply)
qed

theorem build_bookkeeping_sound_witness:
  "config_ok chain_build \<and> build_reach chain_build [''a'' \<mapsto> chain_outcome] chain_second
   \<and> (\<exists>st inputs. chain_second = Building st [(''b'', inputs)] \<and> di_action_digests inputs = [(''a'', ''d1'')])"
proof -
  have ok: "config_ok chain_build" by (simp add: config_ok_def chain_build_def)
  obtain st inputs where s: "chain_second = Building st [(''b'', inputs)]"
    using chain_then by (auto split: build_run.splits)
  have "di_action_digests inputs = [(''a'', ''d1'')]"
    using build_bookkeeping_sound [OF ok chain_reach, unfolded s]
    by (simp add: deps_in_def chain_build_def chain_target_def dependency_ids_def chain_outcome_def)
  then show ?thesis using ok chain_reach s by blast
qed

end
