(* ===== verification/Cas_Gc.thy ===== *)
theory Cas_Gc
  imports BTree_Map
begin

text \<open>
  Reclaiming disk space from the local store: \<open>crates/once-cas/src/gc.rs\<close>, with the result record
  of \<open>model.rs\<close>. A pass works on a snapshot of the blob files and the action results; digests are
  opaque, modification times are natural numbers. Reading the directories and the JSON of a result
  are outside the model: the snapshot, and the decoded result, are arguments. Removing a file may
  fail, by an arbitrary predicate on paths.
\<close>

section \<open>The pass\<close>

record 'd blob_file =
  bf_path :: string
  bf_digest :: "'d option"
  bf_size :: nat
  bf_modified :: nat

record 'd action_file =
  af_path :: string
  af_size :: nat
  af_modified :: nat
  af_refs :: "'d list"

record 'd action_result =
  exit_code :: int
  ar_stdout :: "'d option"
  ar_stderr :: "'d option"
  ar_outputs :: "(string, 'd) bmap"

record gc_report =
  bytes_before :: nat
  bytes_after :: nat
  gc_removed :: nat
  gc_dry_run :: bool

definition parse_action_refs :: "'d action_result option \<Rightarrow> 'd list" where
  "parse_action_refs decoded =
     (case decoded of
        None \<Rightarrow> []
      | Some r \<Rightarrow> map snd (ar_outputs r) @ (case ar_stdout r of None \<Rightarrow> [] | Some d \<Rightarrow> [d])
          @ (case ar_stderr r of None \<Rightarrow> [] | Some d \<Rightarrow> [d]))"

definition count_refs :: "'d action_file list \<Rightarrow> 'd \<rightharpoonup> nat" where
  "count_refs actions =
     foldl (\<lambda>m a. foldl (\<lambda>m d. m(d \<mapsto> (case m d of None \<Rightarrow> 0 | Some n \<Rightarrow> n) + 1)) m (af_refs a)) Map.empty actions"

definition blob_index :: "'d blob_file list \<Rightarrow> 'd \<rightharpoonup> nat" where
  "blob_index blobs =
     foldl (\<lambda>m (i, b). case bf_digest b of None \<Rightarrow> m | Some d \<Rightarrow> m(d \<mapsto> i)) Map.empty (zip [0..<length blobs] blobs)"

definition is_orphan :: "('d \<rightharpoonup> nat) \<Rightarrow> 'd blob_file \<Rightarrow> bool" where
  "is_orphan refcount b =
     (case bf_digest b of None \<Rightarrow> True | Some d \<Rightarrow> (case refcount d of None \<Rightarrow> 0 | Some n \<Rightarrow> n) = 0)"

definition orphans :: "('d \<rightharpoonup> nat) \<Rightarrow> 'd blob_file list \<Rightarrow> nat list" where
  "orphans refcount blobs =
     sort_key (\<lambda>i. bf_modified (blobs ! i)) (filter (\<lambda>i. is_orphan refcount (blobs ! i)) [0..<length blobs])"

text \<open>Tier 1, over the orphans in order.\<close>

fun evict_orphans :: "'d blob_file list \<Rightarrow> nat \<Rightarrow> nat list \<Rightarrow> bool list \<Rightarrow> nat \<Rightarrow> bool list \<times> nat" where
  "evict_orphans blobs max_bytes [] removed bytes = (removed, bytes)"
| "evict_orphans blobs max_bytes (i # is) removed bytes =
     (if bytes \<le> max_bytes then (removed, bytes)
      else evict_orphans blobs max_bytes is (removed[i := True]) (sat_sub bytes (bf_size (blobs ! i))))"

text \<open>Releasing the references of one evicted result.\<close>

fun release_refs ::
  "'d blob_file list \<Rightarrow> ('d \<rightharpoonup> nat) \<Rightarrow> 'd list \<Rightarrow> ('d \<rightharpoonup> nat) \<Rightarrow> bool list \<Rightarrow> nat \<Rightarrow> ('d \<rightharpoonup> nat) \<times> bool list \<times> nat" where
  "release_refs blobs index [] refcount removed bytes = (refcount, removed, bytes)"
| "release_refs blobs index (d # ds) refcount removed bytes =
     (case refcount d of
        None \<Rightarrow> release_refs blobs index ds refcount removed bytes
      | Some n \<Rightarrow>
          let n = sat_sub n 1;
              (removed, bytes) =
                (if n = 0 then
                   (case index d of
                      None \<Rightarrow> (removed, bytes)
                    | Some bi \<Rightarrow> if \<not> removed ! bi then (removed[bi := True], sat_sub bytes (bf_size (blobs ! bi))) else (removed, bytes))
                 else (removed, bytes))
          in release_refs blobs index ds (refcount(d \<mapsto> n)) removed bytes)"

text \<open>Tier 2, over the results in order.\<close>

fun evict_actions ::
  "'d blob_file list \<Rightarrow> 'd action_file list \<Rightarrow> ('d \<rightharpoonup> nat) \<Rightarrow> nat \<Rightarrow> nat list \<Rightarrow> ('d \<rightharpoonup> nat) \<Rightarrow> bool list \<Rightarrow> bool list \<Rightarrow> nat
   \<Rightarrow> bool list \<times> bool list \<times> nat" where
  "evict_actions blobs actions index max_bytes [] refcount a_removed b_removed bytes = (a_removed, b_removed, bytes)"
| "evict_actions blobs actions index max_bytes (ai # ais) refcount a_removed b_removed bytes =
     (if bytes \<le> max_bytes then (a_removed, b_removed, bytes)
      else
        let bytes = sat_sub bytes (af_size (actions ! ai));
            (refcount, b_removed, bytes) = release_refs blobs index (af_refs (actions ! ai)) refcount b_removed bytes
        in evict_actions blobs actions index max_bytes ais refcount (a_removed[ai := True]) b_removed bytes)"

definition store_bytes :: "'d blob_file list \<Rightarrow> 'd action_file list \<Rightarrow> nat" where
  "store_bytes blobs actions =
     wrap_add (foldl wrap_add 0 (map bf_size blobs)) (foldl wrap_add 0 (map af_size actions))"

text \<open>What a pass over budget decides: the evicted results, the evicted blobs and the size left.\<close>

definition gc_plan :: "'d blob_file list \<Rightarrow> 'd action_file list \<Rightarrow> nat \<Rightarrow> bool list \<times> bool list \<times> nat" where
  "gc_plan blobs actions max_bytes =
     (let refcount = count_refs actions;
          (b_removed, bytes) = evict_orphans blobs max_bytes (orphans refcount blobs) (replicate (length blobs) False)
            (store_bytes blobs actions);
          a_removed = replicate (length actions) False
      in if max_bytes < bytes
         then evict_actions blobs actions (blob_index blobs) max_bytes
                (sort_key (\<lambda>i. af_modified (actions ! i)) [0..<length actions]) refcount a_removed b_removed bytes
         else (a_removed, b_removed, bytes))"

definition victims :: "'d blob_file list \<Rightarrow> 'd action_file list \<Rightarrow> bool list \<Rightarrow> bool list \<Rightarrow> string list" where
  "victims blobs actions a_removed b_removed =
     map (\<lambda>i. af_path (actions ! i)) (filter (\<lambda>i. a_removed ! i) [0..<length actions])
     @ map (\<lambda>i. bf_path (blobs ! i)) (filter (\<lambda>i. b_removed ! i) [0..<length blobs])"

text \<open>Removing files in order: a file that is already gone is no error, any other failure ends the loop.\<close>

datatype gc_error = GcIo string

fun remove_files :: "(string \<Rightarrow> bool) \<Rightarrow> string list \<Rightarrow> string set \<Rightarrow> (gc_error + unit) \<times> string set" where
  "remove_files fails [] fs = (Inr (), fs)"
| "remove_files fails (p # ps) fs = (if fails p then (Inl (GcIo p), fs) else remove_files fails ps (fs - {p}))"

definition gc ::
  "(string \<Rightarrow> bool) \<Rightarrow> 'd blob_file list \<Rightarrow> 'd action_file list \<Rightarrow> nat \<Rightarrow> bool \<Rightarrow> string set \<Rightarrow> (gc_error + gc_report) \<times> string set" where
  "gc fails blobs actions max_bytes dry_run fs =
     (let before = store_bytes blobs actions
      in if before \<le> max_bytes
         then (Inr \<lparr>bytes_before = before, bytes_after = before, gc_removed = 0, gc_dry_run = dry_run\<rparr>, fs)
         else
           let (a_removed, b_removed, after) = gc_plan blobs actions max_bytes;
               vs = victims blobs actions a_removed b_removed;
               (r, fs) = (if dry_run then (Inr (), fs) else remove_files fails vs fs)
           in (rbind r (\<lambda>_. Inr \<lparr>bytes_before = before, bytes_after = after, gc_removed = length vs, gc_dry_run = dry_run\<rparr>), fs))"

section \<open>Accounting\<close>

text \<open>The weight of the entries not marked.\<close>

definition left_sum :: "(nat \<Rightarrow> nat) \<Rightarrow> bool list \<Rightarrow> nat" where
  "left_sum w removed = (\<Sum>i<length removed. if removed ! i then 0 else w i)"

lemma left_sum_update:
  assumes "i < length removed" and "\<not> removed ! i"
  shows "left_sum w (removed[i := True]) + w i = left_sum w removed"
proof -
  let ?f = "\<lambda>r j. if r ! j then 0 else w j"
  have "left_sum w removed = ?f removed i + (\<Sum>j\<in>{..<length removed} - {i}. ?f removed j)"
    unfolding left_sum_def using assms(1) by (subst sum.remove [of _ i]) auto
  moreover have "left_sum w (removed[i := True]) = 0 + (\<Sum>j\<in>{..<length removed} - {i}. ?f (removed[i := True]) j)"
    unfolding left_sum_def using assms(1) by (subst sum.remove [of _ i]) auto
  moreover have "(\<Sum>j\<in>{..<length removed} - {i}. ?f (removed[i := True]) j) = (\<Sum>j\<in>{..<length removed} - {i}. ?f removed j)"
    by (rule sum.cong) auto
  ultimately show ?thesis using assms(2) by simp
qed

lemma left_sum_none: "left_sum w (replicate n False) = (\<Sum>i<n. w i)"
  by (simp add: left_sum_def)

lemma left_sum_zero: "left_sum w removed = 0 \<longleftrightarrow> (\<forall>i<length removed. removed ! i \<or> w i = 0)"
  by (auto simp: left_sum_def)

text \<open>Counters that are absent at zero.\<close>

definition counted :: "('d \<Rightarrow> nat) \<Rightarrow> 'd \<rightharpoonup> nat" where
  "counted n d = (if n d = 0 then None else Some (n d))"

lemma count_one_file:
  "foldl (\<lambda>m d. m(d \<mapsto> (case m d of None \<Rightarrow> 0 | Some n \<Rightarrow> n) + 1)) (counted n) ds = counted (\<lambda>d. n d + count_list ds d)"
proof (induction ds arbitrary: n)
  case (Cons x xs)
  have "(counted n)(x \<mapsto> (case counted n x of None \<Rightarrow> 0 | Some n \<Rightarrow> n) + 1) = counted (n(x := n x + 1))"
    by (intro ext) (simp add: counted_def)
  moreover have "(\<lambda>d. (n(x := n x + 1)) d + count_list xs d) = (\<lambda>d. n d + count_list (x # xs) d)" by auto
  ultimately show ?case using Cons.IH [of "n(x := n x + 1)"] by (simp only: foldl.simps)
qed simp

lemma count_refs_spec: "count_refs actions = counted (\<lambda>d. \<Sum>a\<leftarrow>actions. count_list (af_refs a) d)"
proof -
  have "foldl (\<lambda>m a. foldl (\<lambda>m d. m(d \<mapsto> (case m d of None \<Rightarrow> 0 | Some n \<Rightarrow> n) + 1)) m (af_refs a)) (counted n) actions
      = counted (\<lambda>d. n d + (\<Sum>a\<leftarrow>actions. count_list (af_refs a) d))" for n
    by (induction actions arbitrary: n)
      (simp_all only: foldl.simps count_one_file list.map sum_list.Nil sum_list.Cons add.assoc add_0_right)
  from this [of "\<lambda>_. 0"] show ?thesis by (simp add: count_refs_def counted_def [abs_def])
qed

definition distinct_digests :: "'d blob_file list \<Rightarrow> bool" where
  "distinct_digests blobs \<longleftrightarrow> distinct (List.map_filter bf_digest blobs)"

lemma map_filter_snoc: "List.map_filter f (xs @ [x]) = List.map_filter f xs @ (case f x of None \<Rightarrow> [] | Some y \<Rightarrow> [y])"
  by (simp add: List.map_filter_def split: option.splits)

lemma set_map_filter: "set (List.map_filter f xs) = {y. \<exists>x\<in>set xs. f x = Some y}"
  by (force simp: List.map_filter_def)

lemma blob_index_spec:
  "distinct_digests blobs \<Longrightarrow> blob_index blobs d = Some i \<longleftrightarrow> i < length blobs \<and> bf_digest (blobs ! i) = Some d"
proof (induction blobs rule: rev_induct)
  case Nil
  then show ?case by (simp add: blob_index_def)
next
  case (snoc b bs)
  have step: "blob_index (bs @ [b]) = (case bf_digest b of None \<Rightarrow> blob_index bs | Some e \<Rightarrow> (blob_index bs)(e \<mapsto> length bs))"
    by (cases "bf_digest b") (simp_all add: blob_index_def)
  have d: "distinct_digests bs" and new: "\<And>e. bf_digest b = Some e \<Longrightarrow> \<forall>x\<in>set bs. bf_digest x \<noteq> Some e"
    using snoc.prems by (auto simp: distinct_digests_def map_filter_snoc set_map_filter split: option.splits)
  show ?case
  proof (cases "bf_digest b")
    case None
    then show ?thesis using snoc.IH [OF d] by (auto simp: step nth_append less_Suc_eq)
  next
    case (Some e)
    show ?thesis
    proof (cases "d = e")
      case True
      have "bf_digest (bs ! j) \<noteq> Some e" if "j < length bs" for j using new [OF Some] that by (metis nth_mem)
      then show ?thesis using Some True by (auto simp: step nth_append less_Suc_eq)
    next
      case False
      then show ?thesis using Some snoc.IH [OF d] by (auto simp: step nth_append less_Suc_eq)
    qed
  qed
qed

lemma distinct_digests_nth:
  "distinct_digests blobs \<Longrightarrow> i < length blobs \<Longrightarrow> j < length blobs \<Longrightarrow> bf_digest (blobs ! i) = Some d \<Longrightarrow>
   bf_digest (blobs ! j) = Some d \<Longrightarrow> i = j"
  using blob_index_spec [of blobs d i] blob_index_spec [of blobs d j] by auto

abbreviation blob_sizes :: "'d blob_file list \<Rightarrow> nat \<Rightarrow> nat" where
  "blob_sizes blobs i \<equiv> bf_size (blobs ! i)"

abbreviation action_sizes :: "'d action_file list \<Rightarrow> nat \<Rightarrow> nat" where
  "action_sizes actions i \<equiv> af_size (actions ! i)"

lemma foldl_wrap_add: "n + sum_list xs \<le> u64_max \<Longrightarrow> foldl wrap_add n xs = n + sum_list xs"
  by (induction xs arbitrary: n) (simp_all add: wrap_add_id add.assoc)

lemma sum_list_nth: "sum_list (map f xs) = (\<Sum>i<length xs. (f (xs ! i) :: nat))"
  by (simp add: sum_list_sum_nth atLeast0LessThan)

lemma store_bytes_exact:
  assumes "sum_list (map bf_size blobs) + sum_list (map af_size actions) \<le> u64_max"
  shows "store_bytes blobs actions = (\<Sum>i<length blobs. blob_sizes blobs i) + (\<Sum>i<length actions. action_sizes actions i)"
proof -
  have "sum_list (map bf_size blobs) \<le> u64_max" "sum_list (map af_size actions) \<le> u64_max" using assms by linarith+
  then show ?thesis using assms by (simp add: store_bytes_def foldl_wrap_add wrap_add_id sum_list_nth)
qed

section \<open>The tiers\<close>

lemma evict_orphans_spec:
  "distinct is \<Longrightarrow> \<forall>i\<in>set is. i < length removed \<and> \<not> removed ! i \<Longrightarrow>
   \<exists>k removed'. evict_orphans blobs max_bytes is removed (left_sum (blob_sizes blobs) removed + rest)
       = (removed', left_sum (blob_sizes blobs) removed' + rest)
     \<and> length removed' = length removed
     \<and> (\<forall>i<length removed. removed' ! i \<longleftrightarrow> removed ! i \<or> i \<in> set (take k is))
     \<and> (k = length is \<or> left_sum (blob_sizes blobs) removed' + rest \<le> max_bytes)
     \<and> k \<le> length is \<and> (0 < k \<longrightarrow> max_bytes < left_sum (blob_sizes blobs) removed' + rest + bf_size (blobs ! (is ! (k - 1))))"
proof (induction "is" arbitrary: removed)
  case (Cons i "is")
  show ?case
  proof (cases "left_sum (blob_sizes blobs) removed + rest \<le> max_bytes")
    case True
    then show ?thesis by (intro exI [of _ 0] exI [of _ removed]) simp
  next
    case False
    have i: "i < length removed" "\<not> removed ! i" "i \<notin> set is" using Cons.prems by auto
    have bytes: "sat_sub (left_sum (blob_sizes blobs) removed + rest) (bf_size (blobs ! i)) = left_sum (blob_sizes blobs) (removed[i := True]) + rest"
      using left_sum_update [OF i(1,2), of "blob_sizes blobs"] by (simp add: sat_sub_def)
    have pre: "distinct is" "\<forall>j\<in>set is. j < length (removed[i := True]) \<and> \<not> removed[i := True] ! j"
      using Cons.prems i(3) by (auto simp: nth_list_update)
    obtain k removed' where IH: "evict_orphans blobs max_bytes is (removed[i := True]) (left_sum (blob_sizes blobs) (removed[i := True]) + rest)
        = (removed', left_sum (blob_sizes blobs) removed' + rest)" "length removed' = length removed"
        "\<forall>j<length removed. removed' ! j \<longleftrightarrow> removed[i := True] ! j \<or> j \<in> set (take k is)"
        "k = length is \<or> left_sum (blob_sizes blobs) removed' + rest \<le> max_bytes" "k \<le> length is"
        "0 < k \<longrightarrow> max_bytes < left_sum (blob_sizes blobs) removed' + rest + bf_size (blobs ! (is ! (k - 1)))"
      using Cons.IH [OF pre] by auto
    have needed: "max_bytes < left_sum (blob_sizes blobs) removed' + rest + bf_size (blobs ! ((i # is) ! k))"
    proof (cases k)
      case 0
      then have "removed' = removed[i := True]" using IH(2,3) by (intro nth_equalityI) simp_all
      then show ?thesis using 0 False left_sum_update [OF i(1,2), of "blob_sizes blobs"] by simp
    qed (use IH(6) in simp)
    have "evict_orphans blobs max_bytes (i # is) removed (left_sum (blob_sizes blobs) removed + rest)
        = (removed', left_sum (blob_sizes blobs) removed' + rest)"
      using False IH(1) bytes by simp
    moreover have "\<forall>j<length removed. removed' ! j \<longleftrightarrow> removed ! j \<or> j \<in> set (take (Suc k) (i # is))"
      using IH(3) i(1) by (auto simp: nth_list_update)
    ultimately show ?thesis using IH(2,4,5) needed by (intro exI [of _ "Suc k"] exI [of _ removed']) auto
  qed
qed (intro exI [of _ 0], auto)

text \<open>The blobs the results know are marked exactly when no reference to them is left.\<close>

definition blobs_match :: "'d blob_file list \<Rightarrow> ('d \<Rightarrow> bool) \<Rightarrow> ('d \<Rightarrow> nat) \<Rightarrow> bool list \<Rightarrow> bool" where
  "blobs_match blobs known refs removed \<longleftrightarrow> length removed = length blobs
     \<and> (\<forall>i<length blobs. \<forall>d. bf_digest (blobs ! i) = Some d \<longrightarrow> known d \<longrightarrow> (removed ! i \<longleftrightarrow> refs d = 0))"

definition known_counts :: "('d \<Rightarrow> bool) \<Rightarrow> ('d \<Rightarrow> nat) \<Rightarrow> 'd \<rightharpoonup> nat" where
  "known_counts known refs d = (if known d then Some (refs d) else None)"

text \<open>Marks on blobs no result knows do not change.\<close>

definition same_unknown :: "'d blob_file list \<Rightarrow> ('d \<Rightarrow> bool) \<Rightarrow> bool list \<Rightarrow> bool list \<Rightarrow> bool" where
  "same_unknown blobs known removed removed' \<longleftrightarrow>
     (\<forall>i<length blobs. (case bf_digest (blobs ! i) of None \<Rightarrow> True | Some d \<Rightarrow> \<not> known d) \<longrightarrow> removed' ! i = removed ! i)"

lemma release_one:
  assumes "distinct_digests blobs" and "known d" and "0 < refs d" and "blobs_match blobs known refs removed"
  shows "\<exists>removed'. (if refs d - 1 = 0 then
        (case blob_index blobs d of None \<Rightarrow> (removed, left_sum (blob_sizes blobs) removed + rest)
         | Some bi \<Rightarrow> if \<not> removed ! bi then (removed[bi := True], sat_sub (left_sum (blob_sizes blobs) removed + rest) (bf_size (blobs ! bi)))
             else (removed, left_sum (blob_sizes blobs) removed + rest))
      else (removed, left_sum (blob_sizes blobs) removed + rest)) = (removed', left_sum (blob_sizes blobs) removed' + rest)
    \<and> blobs_match blobs known (refs(d := refs d - 1)) removed' \<and> same_unknown blobs known removed removed'"
proof (cases "refs d - 1 = 0 \<and> blob_index blobs d \<noteq> None")
  case False
  have none: "refs d - 1 \<noteq> 0" if "i < length blobs" "bf_digest (blobs ! i) = Some d" for i
    using blob_index_spec [OF assms(1), of d i] that False by (metis option.distinct(1))
  have "blobs_match blobs known (refs(d := refs d - 1)) removed"
    unfolding blobs_match_def
  proof (intro conjI allI impI)
    fix i e assume i: "i < length blobs" "bf_digest (blobs ! i) = Some e" "known e"
    then have "removed ! i \<longleftrightarrow> refs e = 0" using assms(4) by (simp add: blobs_match_def)
    then show "removed ! i \<longleftrightarrow> (refs(d := refs d - 1)) e = 0"
      using none [of i] i assms(3) by (cases "e = d") simp_all
  qed (use assms(4) in \<open>simp add: blobs_match_def\<close>)
  moreover have "same_unknown blobs known removed removed" by (simp add: same_unknown_def)
  ultimately show ?thesis using False by (cases "refs d - 1 = 0") simp_all
next
  case True
  then obtain bi where bi: "blob_index blobs d = Some bi" by blast
  then have b: "bi < length blobs" "bf_digest (blobs ! bi) = Some d" using blob_index_spec [OF assms(1)] by blast+
  have len: "length removed = length blobs" and un: "\<not> removed ! bi"
    using assms(2,3,4) b by (auto simp: blobs_match_def)
  have "left_sum (blob_sizes blobs) (removed[bi := True]) + bf_size (blobs ! bi) = left_sum (blob_sizes blobs) removed"
    using left_sum_update b(1) len un by metis
  moreover have "blobs_match blobs known (refs(d := refs d - 1)) (removed[bi := True])"
    unfolding blobs_match_def
  proof (intro conjI allI impI)
    fix i e assume i: "i < length blobs" "bf_digest (blobs ! i) = Some e" "known e"
    show "removed[bi := True] ! i \<longleftrightarrow> (refs(d := refs d - 1)) e = 0"
    proof (cases "e = d")
      case True
      then have "i = bi" using distinct_digests_nth [OF assms(1) i(1) b(1)] i(2) b(2) by simp
      then show ?thesis using True \<open>refs d - 1 = 0 \<and> _\<close> i(1) len by simp
    next
      case False
      then have "i \<noteq> bi" using i(2) b(2) by auto
      then show ?thesis using False i assms(4) by (simp add: blobs_match_def)
    qed
  qed (simp add: len)
  moreover have "same_unknown blobs known removed (removed[bi := True])"
    unfolding same_unknown_def
  proof (intro allI impI)
    fix i assume "i < length blobs" "case bf_digest (blobs ! i) of None \<Rightarrow> True | Some d \<Rightarrow> \<not> known d"
    then have "i \<noteq> bi" using b(2) assms(2) by auto
    then show "removed[bi := True] ! i = removed ! i" by simp
  qed
  ultimately show ?thesis using True bi un by (intro exI [of _ "removed[bi := True]"]) (simp add: sat_sub_def)
qed

lemma release_refs_spec:
  assumes "distinct_digests blobs"
  shows "\<forall>d\<in>set ds. known d \<Longrightarrow> \<forall>d. count_list ds d \<le> refs d \<Longrightarrow> blobs_match blobs known refs removed \<Longrightarrow>
    \<exists>removed'. release_refs blobs (blob_index blobs) ds (known_counts known refs) removed (left_sum (blob_sizes blobs) removed + rest)
        = (known_counts known (\<lambda>d. refs d - count_list ds d), removed', left_sum (blob_sizes blobs) removed' + rest)
      \<and> blobs_match blobs known (\<lambda>d. refs d - count_list ds d) removed' \<and> same_unknown blobs known removed removed'"
proof (induction ds arbitrary: refs removed)
  case (Cons d ds)
  have d: "known d" "0 < refs d" using Cons.prems(1) Cons.prems(2) [rule_format, of d] by auto
  let ?refs = "refs(d := refs d - 1)"
  obtain r where r: "(if refs d - 1 = 0 then
        (case blob_index blobs d of None \<Rightarrow> (removed, left_sum (blob_sizes blobs) removed + rest)
         | Some bi \<Rightarrow> if \<not> removed ! bi then (removed[bi := True], sat_sub (left_sum (blob_sizes blobs) removed + rest) (bf_size (blobs ! bi)))
             else (removed, left_sum (blob_sizes blobs) removed + rest))
      else (removed, left_sum (blob_sizes blobs) removed + rest)) = (r, left_sum (blob_sizes blobs) r + rest)"
      "blobs_match blobs known ?refs r" "same_unknown blobs known removed r"
    using release_one [OF assms d Cons.prems(3), of rest] by blast
  have counts: "(known_counts known refs)(d \<mapsto> refs d - 1) = known_counts known ?refs"
    using d(1) by (intro ext) (simp add: known_counts_def)
  have pre: "\<forall>e\<in>set ds. known e" "\<forall>e. count_list ds e \<le> ?refs e"
    using Cons.prems(1) Cons.prems(2) by (simp, metis (no_types, lifting) Suc_eq_plus1 add_le_imp_le_diff count_list.simps(2) fun_upd_apply)
  have same: "(\<lambda>e. ?refs e - count_list ds e) = (\<lambda>e. refs e - count_list (d # ds) e)" by (intro ext) simp
  obtain r' where IH: "release_refs blobs (blob_index blobs) ds (known_counts known ?refs) r (left_sum (blob_sizes blobs) r + rest)
        = (known_counts known (\<lambda>e. refs e - count_list (d # ds) e), r', left_sum (blob_sizes blobs) r' + rest)"
      "blobs_match blobs known (\<lambda>e. refs e - count_list (d # ds) e) r'" "same_unknown blobs known r r'"
    using Cons.IH [OF pre r(2)] unfolding same by blast
  have lookup: "known_counts known refs d = Some (refs d)" using d(1) by (simp add: known_counts_def)
  have "release_refs blobs (blob_index blobs) (d # ds) (known_counts known refs) removed (left_sum (blob_sizes blobs) removed + rest)
      = release_refs blobs (blob_index blobs) ds (known_counts known ?refs) r (left_sum (blob_sizes blobs) r + rest)"
    unfolding release_refs.simps lookup option.case sat_sub_def [of "refs d" 1] Let_def r(1) prod.case counts ..
  moreover have "same_unknown blobs known removed r'" using r(3) IH(3) by (simp add: same_unknown_def)
  ultimately show ?case using IH(1,2) by simp
qed (auto simp: same_unknown_def)

definition refs_left :: "'d action_file list \<Rightarrow> bool list \<Rightarrow> 'd \<Rightarrow> nat" where
  "refs_left actions a_removed d = left_sum (\<lambda>i. count_list (af_refs (actions ! i)) d) a_removed"

definition known_to :: "'d action_file list \<Rightarrow> 'd \<Rightarrow> bool" where
  "known_to actions d \<longleftrightarrow> (\<exists>a\<in>set actions. d \<in> set (af_refs a))"

lemma refs_left_zero: "refs_left actions a_removed d = 0 \<longleftrightarrow> (\<forall>i<length a_removed. d \<in> set (af_refs (actions ! i)) \<longrightarrow> a_removed ! i)"
  by (auto simp: refs_left_def left_sum_zero count_list_0_iff)

text \<open>The bytes of the evicted blobs a result refers to: what sparing the result would have kept with it.\<close>

definition owned_bytes :: "'d blob_file list \<Rightarrow> bool list \<Rightarrow> 'd action_file \<Rightarrow> nat" where
  "owned_bytes blobs removed r =
     (\<Sum>i<length blobs. if removed ! i \<and> (\<exists>d\<in>set (af_refs r). bf_digest (blobs ! i) = Some d) then bf_size (blobs ! i) else 0)"

lemma released_owned:
  assumes "blobs_match blobs known refs b" and "blobs_match blobs known refs' b'" and "same_unknown blobs known b b'"
    and "\<And>d. refs d = refs' d + count_list (af_refs r) d"
  shows "left_sum (blob_sizes blobs) b \<le> left_sum (blob_sizes blobs) b' + owned_bytes blobs b' r"
proof -
  have len: "length b = length blobs" "length b' = length blobs" using assms(1,2) by (simp_all add: blobs_match_def)
  have owned: "\<exists>d\<in>set (af_refs r). bf_digest (blobs ! i) = Some d" if i: "i < length blobs" "\<not> b ! i" "b' ! i" for i
  proof -
    obtain d where d: "bf_digest (blobs ! i) = Some d" "known d"
      using assms(3) i by (cases "bf_digest (blobs ! i)") (auto simp: same_unknown_def split: option.splits)
    then have "refs d \<noteq> 0" "refs' d = 0" using assms(1,2) i by (auto simp: blobs_match_def)
    then have "count_list (af_refs r) d \<noteq> 0" using assms(4) [of d] by simp
    then show ?thesis using d(1) by (auto simp: count_list_0_iff)
  qed
  show ?thesis
    unfolding left_sum_def owned_bytes_def len sum.distrib [symmetric]
    by (intro sum_mono) (use owned in auto)
qed

lemma blobs_match_unique:
  assumes "blobs_match blobs known refs b" and "blobs_match blobs known refs b'" and "same_unknown blobs known b b'"
  shows "b' = b"
proof (rule nth_equalityI)
  show "length b' = length b" using assms(1,2) by (simp add: blobs_match_def)
  fix i assume "i < length b'"
  then have i: "i < length blobs" using assms(2) by (simp add: blobs_match_def)
  show "b' ! i = b ! i"
  proof (cases "bf_digest (blobs ! i)")
    case None
    then show ?thesis using assms(3) i by (simp add: same_unknown_def)
  next
    case (Some d)
    then show ?thesis using assms i by (cases "known d") (simp_all add: blobs_match_def same_unknown_def)
  qed
qed

lemma evict_actions_spec:
  assumes dd: "distinct_digests blobs"
  shows "distinct ord \<Longrightarrow> \<forall>i\<in>set ord. i < length actions \<and> \<not> a_removed ! i \<Longrightarrow> length a_removed = length actions \<Longrightarrow>
    blobs_match blobs (known_to actions) (refs_left actions a_removed) b_removed \<Longrightarrow>
    \<exists>k a' b'. evict_actions blobs actions (blob_index blobs) max_bytes ord (known_counts (known_to actions) (refs_left actions a_removed))
          a_removed b_removed (left_sum (blob_sizes blobs) b_removed + left_sum (action_sizes actions) a_removed)
        = (a', b', left_sum (blob_sizes blobs) b' + left_sum (action_sizes actions) a')
      \<and> length a' = length actions \<and> (\<forall>i<length actions. a' ! i \<longleftrightarrow> a_removed ! i \<or> i \<in> set (take k ord))
      \<and> blobs_match blobs (known_to actions) (refs_left actions a') b' \<and> same_unknown blobs (known_to actions) b_removed b'
      \<and> (k = length ord \<or> left_sum (blob_sizes blobs) b' + left_sum (action_sizes actions) a' \<le> max_bytes)
      \<and> k \<le> length ord
      \<and> (0 < k \<longrightarrow> max_bytes < left_sum (blob_sizes blobs) b' + left_sum (action_sizes actions) a'
            + af_size (actions ! (ord ! (k - 1))) + owned_bytes blobs b' (actions ! (ord ! (k - 1))))"
proof (induction ord arbitrary: a_removed b_removed)
  case Nil
  then show ?case by (intro exI [of _ 0]) (simp add: same_unknown_def)
next
  case (Cons ai ais)
  let ?bs = "blob_sizes blobs" and ?as = "action_sizes actions" and ?K = "known_to actions"
  show ?case
  proof (cases "left_sum ?bs b_removed + left_sum ?as a_removed \<le> max_bytes")
    case True
    then show ?thesis using Cons.prems by (intro exI [of _ 0]) (simp add: same_unknown_def)
  next
    case False
    define a1 where "a1 = a_removed[ai := True]"
    have ai: "ai < length a_removed" "\<not> a_removed ! ai" "ai \<notin> set ais" using Cons.prems by auto
    have bytes: "sat_sub (left_sum ?bs b_removed + left_sum ?as a_removed) (af_size (actions ! ai)) = left_sum ?bs b_removed + left_sum ?as a1"
      using left_sum_update [OF ai(1,2), of ?as] by (simp add: sat_sub_def a1_def)
    have refs: "refs_left actions a_removed d = refs_left actions a1 d + count_list (af_refs (actions ! ai)) d" for d
      using left_sum_update [OF ai(1,2), of "\<lambda>i. count_list (af_refs (actions ! i)) d"] by (simp add: refs_left_def a1_def)
    have known: "\<forall>d\<in>set (af_refs (actions ! ai)). ?K d" using ai(1) Cons.prems(3) by (auto simp: known_to_def)
    have "\<forall>d. count_list (af_refs (actions ! ai)) d \<le> refs_left actions a_removed d" using refs by simp
    moreover have "(\<lambda>d. refs_left actions a_removed d - count_list (af_refs (actions ! ai)) d) = refs_left actions a1"
      using refs by (intro ext) simp
    ultimately obtain b1 where b1: "release_refs blobs (blob_index blobs) (af_refs (actions ! ai)) (known_counts ?K (refs_left actions a_removed))
          b_removed (left_sum ?bs b_removed + left_sum ?as a1) = (known_counts ?K (refs_left actions a1), b1, left_sum ?bs b1 + left_sum ?as a1)"
        "blobs_match blobs ?K (refs_left actions a1) b1" "same_unknown blobs ?K b_removed b1"
      using release_refs_spec [OF dd known _ Cons.prems(4), of "left_sum ?as a1"] by auto
    have pre: "distinct ais" "\<forall>i\<in>set ais. i < length actions \<and> \<not> a1 ! i" "length a1 = length actions"
      using Cons.prems(1,2,3) ai(3) by (auto simp: a1_def nth_list_update)
    obtain k a' b' where IH: "evict_actions blobs actions (blob_index blobs) max_bytes ais (known_counts ?K (refs_left actions a1)) a1 b1
          (left_sum ?bs b1 + left_sum ?as a1) = (a', b', left_sum ?bs b' + left_sum ?as a')" "length a' = length actions"
        "\<forall>i<length actions. a' ! i \<longleftrightarrow> a1 ! i \<or> i \<in> set (take k ais)" "blobs_match blobs ?K (refs_left actions a') b'"
        "same_unknown blobs ?K b1 b'" "k = length ais \<or> left_sum ?bs b' + left_sum ?as a' \<le> max_bytes" "k \<le> length ais"
        "0 < k \<longrightarrow> max_bytes < left_sum ?bs b' + left_sum ?as a' + af_size (actions ! (ais ! (k - 1))) + owned_bytes blobs b' (actions ! (ais ! (k - 1)))"
      using Cons.IH [OF pre b1(2)] by blast
    have needed: "max_bytes < left_sum ?bs b' + left_sum ?as a' + af_size (actions ! ((ai # ais) ! k)) + owned_bytes blobs b' (actions ! ((ai # ais) ! k))"
    proof (cases k)
      case 0
      then have "a' = a1" using IH(2,3) pre(3) by (intro nth_equalityI) simp_all
      moreover have "b' = b1" using blobs_match_unique [OF b1(2) _ IH(5)] IH(4) calculation by simp
      ultimately show ?thesis
        using 0 False left_sum_update [OF ai(1,2), of ?as] released_owned [OF Cons.prems(4) b1(2,3) refs] by (simp add: a1_def)
    qed (use IH(8) in simp)
    have "evict_actions blobs actions (blob_index blobs) max_bytes (ai # ais) (known_counts ?K (refs_left actions a_removed)) a_removed b_removed
        (left_sum ?bs b_removed + left_sum ?as a_removed) = (a', b', left_sum ?bs b' + left_sum ?as a')"
      using False IH(1) by (simp only: evict_actions.simps bytes Let_def b1(1) prod.case a1_def [symmetric] if_False)
    moreover have "\<forall>i<length actions. a' ! i \<longleftrightarrow> a_removed ! i \<or> i \<in> set (take (Suc k) (ai # ais))"
      using IH(3) ai(1) Cons.prems(3) by (auto simp: a1_def nth_list_update)
    moreover have "same_unknown blobs ?K b_removed b'" using b1(3) IH(5) by (simp add: same_unknown_def)
    ultimately show ?thesis using IH(2,4,6,7) needed by (intro exI [of _ "Suc k"] exI [of _ a'] exI [of _ b']) auto
  qed
qed

lemma orphan_iff: "is_orphan (count_refs actions) b \<longleftrightarrow> (case bf_digest b of None \<Rightarrow> True | Some d \<Rightarrow> \<not> known_to actions d)"
  by (auto simp: is_orphan_def count_refs_spec counted_def known_to_def count_list_0_iff split: option.splits)

lemma count_refs_known: "count_refs actions = known_counts (known_to actions) (refs_left actions (replicate (length actions) False))"
proof
  fix d
  have "(\<Sum>a\<leftarrow>actions. count_list (af_refs a) d) = refs_left actions (replicate (length actions) False) d"
    by (simp add: refs_left_def left_sum_none sum_list_nth)
  moreover have "(\<Sum>a\<leftarrow>actions. count_list (af_refs a) d) = 0 \<longleftrightarrow> \<not> known_to actions d"
    by (auto simp: known_to_def count_list_0_iff)
  ultimately show "count_refs actions d = known_counts (known_to actions) (refs_left actions (replicate (length actions) False)) d"
    by (simp add: count_refs_spec counted_def known_counts_def)
qed

lemma sorted_prefix:
  assumes "sorted (map f xs)" and "x \<in> set (take k xs)" and "y \<in> set xs" and "y \<notin> set (take k xs)"
  shows "f x \<le> f y"
proof -
  have "sorted (map f (take k xs) @ map f (drop k xs))" using assms(1) by (metis append_take_drop_id map_append)
  moreover have "y \<in> set (drop k xs)" using assms(3,4) by (metis Un_iff append_take_drop_id set_append)
  ultimately show ?thesis using assms(2) by (auto simp: sorted_append)
qed

lemma sorted_last_taken:
  assumes "sorted (map f xs)" and "x \<in> set (take k xs)" and "k \<le> length xs"
  shows "f x \<le> f (xs ! (k - 1))"
proof -
  obtain i where i: "i < k" "i < length xs" "x = xs ! i" using assms(2) by (auto simp: in_set_conv_nth)
  then have "map f xs ! i \<le> map f xs ! (k - 1)" using assms(1,3) by (intro sorted_nth_mono) auto
  then show ?thesis using i assms(3) by simp
qed

definition action_order :: "'d action_file list \<Rightarrow> nat list" where
  "action_order actions = sort_key (\<lambda>i. af_modified (actions ! i)) [0..<length actions]"

lemma first_tier:
  fixes blobs :: "'d blob_file list" and actions :: "'d action_file list"
  assumes "sum_list (map bf_size blobs) + sum_list (map af_size actions) \<le> u64_max"
  defines "a0 \<equiv> replicate (length actions) False"
  shows "\<exists>j b. evict_orphans blobs max_bytes (orphans (count_refs actions) blobs) (replicate (length blobs) False) (store_bytes blobs actions)
        = (b, left_sum (blob_sizes blobs) b + left_sum (action_sizes actions) a0)
      \<and> blobs_match blobs (known_to actions) (refs_left actions a0) b
      \<and> (\<forall>i<length blobs. b ! i \<longleftrightarrow> i \<in> set (take j (orphans (count_refs actions) blobs)))
      \<and> (j = length (orphans (count_refs actions) blobs) \<or> left_sum (blob_sizes blobs) b + left_sum (action_sizes actions) a0 \<le> max_bytes)
      \<and> j \<le> length (orphans (count_refs actions) blobs)
      \<and> (0 < j \<longrightarrow> max_bytes < left_sum (blob_sizes blobs) b + left_sum (action_sizes actions) a0
            + bf_size (blobs ! (orphans (count_refs actions) blobs ! (j - 1))))"
proof -
  let ?o = "orphans (count_refs actions) blobs" and ?b0 = "replicate (length blobs) False"
  have o: "distinct ?o" "set ?o = {i. i < length blobs \<and> is_orphan (count_refs actions) (blobs ! i)}"
    by (auto simp: orphans_def)
  have total: "store_bytes blobs actions = left_sum (blob_sizes blobs) ?b0 + left_sum (action_sizes actions) a0"
    using store_bytes_exact [OF assms(1)] by (simp add: left_sum_none a0_def)
  have "\<forall>i\<in>set ?o. i < length ?b0 \<and> \<not> ?b0 ! i" using o(2) by auto
  then obtain j b where b: "evict_orphans blobs max_bytes ?o ?b0 (store_bytes blobs actions)
        = (b, left_sum (blob_sizes blobs) b + left_sum (action_sizes actions) a0)" "length b = length blobs"
      "\<forall>i<length blobs. b ! i \<longleftrightarrow> ?b0 ! i \<or> i \<in> set (take j ?o)"
      "j = length ?o \<or> left_sum (blob_sizes blobs) b + left_sum (action_sizes actions) a0 \<le> max_bytes" "j \<le> length ?o"
      "0 < j \<longrightarrow> max_bytes < left_sum (blob_sizes blobs) b + left_sum (action_sizes actions) a0 + bf_size (blobs ! (?o ! (j - 1)))"
    using evict_orphans_spec [OF o(1), of ?b0 blobs max_bytes "left_sum (action_sizes actions) a0"] unfolding total by auto
  have "refs_left actions a0 d \<noteq> 0" if "known_to actions d" for d
    using that by (auto simp: refs_left_zero a0_def known_to_def) (metis in_set_conv_nth)
  moreover have "\<not> b ! i" if "i < length blobs" "bf_digest (blobs ! i) = Some d" "known_to actions d" for i d
  proof -
    have "i \<notin> set ?o" using that by (simp add: o(2) orphan_iff)
    then show ?thesis using b(3) that(1) in_set_takeD by fastforce
  qed
  ultimately have "blobs_match blobs (known_to actions) (refs_left actions a0) b" using b(2) by (simp add: blobs_match_def)
  then show ?thesis using b by auto
qed

text \<open>Nothing is left when every result and every orphan is marked.\<close>

lemma all_marked_empty:
  assumes "length a = length actions" and "\<forall>i<length actions. a ! i" and "blobs_match blobs (known_to actions) (refs_left actions a) b"
    and "\<forall>i<length blobs. is_orphan (count_refs actions) (blobs ! i) \<longrightarrow> b ! i"
  shows "left_sum (blob_sizes blobs) b + left_sum (action_sizes actions) a = 0"
proof -
  have "b ! i" if "i < length blobs" for i
  proof (cases "is_orphan (count_refs actions) (blobs ! i)")
    case False
    then obtain d where "bf_digest (blobs ! i) = Some d" "known_to actions d" by (auto simp: orphan_iff split: option.splits)
    moreover have "refs_left actions a d = 0" using assms(1,2) by (simp add: refs_left_zero)
    ultimately show ?thesis using assms(3) that by (simp add: blobs_match_def)
  qed (use assms(4) that in blast)
  then show ?thesis using assms(1,2,3) by (simp add: left_sum_zero blobs_match_def)
qed

lemma gc_plan_spec:
  assumes dd: "distinct_digests blobs" and fit: "sum_list (map bf_size blobs) + sum_list (map af_size actions) \<le> u64_max"
  shows "\<exists>j k a b. gc_plan blobs actions max_bytes = (a, b, left_sum (blob_sizes blobs) b + left_sum (action_sizes actions) a)
      \<and> length a = length actions \<and> blobs_match blobs (known_to actions) (refs_left actions a) b
      \<and> (\<forall>i<length actions. a ! i \<longleftrightarrow> i \<in> set (take k (action_order actions)))
      \<and> (\<forall>i<length blobs. is_orphan (count_refs actions) (blobs ! i) \<longrightarrow> (b ! i \<longleftrightarrow> i \<in> set (take j (orphans (count_refs actions) blobs))))
      \<and> (k = 0 \<or> j = length (orphans (count_refs actions) blobs))
      \<and> left_sum (blob_sizes blobs) b + left_sum (action_sizes actions) a \<le> max_bytes
      \<and> j \<le> length (orphans (count_refs actions) blobs) \<and> k \<le> length (action_order actions)
      \<and> (k = 0 \<and> 0 < j \<longrightarrow> max_bytes < left_sum (blob_sizes blobs) b + left_sum (action_sizes actions) a
            + bf_size (blobs ! (orphans (count_refs actions) blobs ! (j - 1))))
      \<and> (0 < k \<longrightarrow> max_bytes < left_sum (blob_sizes blobs) b + left_sum (action_sizes actions) a
            + af_size (actions ! (action_order actions ! (k - 1))) + owned_bytes blobs b (actions ! (action_order actions ! (k - 1))))"
proof -
  let ?o = "orphans (count_refs actions) blobs" and ?a0 = "replicate (length actions) False"
  let ?left = "\<lambda>a b. left_sum (blob_sizes blobs) b + left_sum (action_sizes actions) a"
  obtain j b where b: "evict_orphans blobs max_bytes ?o (replicate (length blobs) False) (store_bytes blobs actions) = (b, ?left ?a0 b)"
      "blobs_match blobs (known_to actions) (refs_left actions ?a0) b" "\<forall>i<length blobs. b ! i \<longleftrightarrow> i \<in> set (take j ?o)"
      "j = length ?o \<or> ?left ?a0 b \<le> max_bytes" "j \<le> length ?o"
      "0 < j \<longrightarrow> max_bytes < ?left ?a0 b + bf_size (blobs ! (?o ! (j - 1)))"
    using first_tier [OF fit] by blast
  show ?thesis
  proof (cases "?left ?a0 b \<le> max_bytes")
    case True
    then have "gc_plan blobs actions max_bytes = (?a0, b, ?left ?a0 b)" by (simp add: gc_plan_def b(1))
    then show ?thesis using b(2,3,5,6) True by (intro exI [of _ j] exI [of _ 0] exI [of _ ?a0] exI [of _ b]) simp
  next
    case False
    then have j: "j = length ?o" using b(4) by blast
    have ord: "distinct (action_order actions)" "set (action_order actions) = {..<length actions}"
      by (auto simp: action_order_def)
    then have pre: "\<forall>i\<in>set (action_order actions). i < length actions \<and> \<not> ?a0 ! i" by simp
    obtain k a' b' where e: "evict_actions blobs actions (blob_index blobs) max_bytes (action_order actions)
          (known_counts (known_to actions) (refs_left actions ?a0)) ?a0 b (?left ?a0 b) = (a', b', ?left a' b')"
        "length a' = length actions" "\<forall>i<length actions. a' ! i \<longleftrightarrow> ?a0 ! i \<or> i \<in> set (take k (action_order actions))"
        "blobs_match blobs (known_to actions) (refs_left actions a') b'" "same_unknown blobs (known_to actions) b b'"
        "k = length (action_order actions) \<or> ?left a' b' \<le> max_bytes" "k \<le> length (action_order actions)"
        "0 < k \<longrightarrow> max_bytes < ?left a' b' + af_size (actions ! (action_order actions ! (k - 1))) + owned_bytes blobs b' (actions ! (action_order actions ! (k - 1)))"
      using evict_actions_spec [OF dd ord(1) pre _ b(2), where max_bytes = max_bytes] unfolding length_replicate by blast
    have plan: "gc_plan blobs actions max_bytes = (a', b', ?left a' b')"
      using False e(1) by (simp add: gc_plan_def b(1) action_order_def count_refs_known [symmetric])
    have marks: "\<forall>i<length actions. a' ! i \<longleftrightarrow> i \<in> set (take k (action_order actions))" using e(3) by simp
    have orph: "\<forall>i<length blobs. is_orphan (count_refs actions) (blobs ! i) \<longrightarrow> (b' ! i \<longleftrightarrow> i \<in> set (take j ?o))"
      using b(3) e(5) by (simp add: same_unknown_def orphan_iff)
    have "?left a' b' \<le> max_bytes"
    proof (cases "k = length (action_order actions)")
      case True
      then have "\<forall>i<length actions. a' ! i" using marks ord(2) by simp
      moreover have "\<forall>i<length blobs. is_orphan (count_refs actions) (blobs ! i) \<longrightarrow> b' ! i" using orph j by (simp add: orphans_def)
      ultimately show ?thesis using all_marked_empty [OF e(2) _ e(4)] by simp
    qed (use e(6) in blast)
    moreover have "0 < k"
    proof (rule ccontr)
      assume "\<not> 0 < k"
      then have "a' = ?a0" using e(2) marks by (intro nth_equalityI) simp_all
      moreover have "b' = b" using blobs_match_unique [OF b(2) _ e(5)] e(4) calculation by simp
      ultimately show False using False \<open>?left a' b' \<le> max_bytes\<close> by simp
    qed
    ultimately show ?thesis
      using plan e(2,4,7,8) marks orph j by (intro exI [of _ j] exI [of _ k] exI [of _ a'] exI [of _ b']) simp
  qed
qed

section \<open>What a pass promises\<close>

lemma gc_plan_minimal:
  assumes dd: "distinct_digests blobs" and fit: "sum_list (map bf_size blobs) + sum_list (map af_size actions) \<le> u64_max"
    and plan: "gc_plan blobs actions max_bytes = (a, b, after)"
  shows "(\<exists>k<length actions. a ! k) \<Longrightarrow> \<exists>k<length actions. a ! k
      \<and> (\<forall>m<length actions. a ! m \<longrightarrow> af_modified (actions ! m) \<le> af_modified (actions ! k))
      \<and> max_bytes < after + af_size (actions ! k) + owned_bytes blobs b (actions ! k)"
    and "\<exists>i<length blobs. b ! i \<Longrightarrow> \<not> (\<exists>k<length actions. a ! k) \<Longrightarrow> \<exists>i<length blobs. b ! i
      \<and> (\<forall>m<length blobs. b ! m \<longrightarrow> bf_modified (blobs ! m) \<le> bf_modified (blobs ! i))
      \<and> max_bytes < after + bf_size (blobs ! i)"
proof -
  let ?o = "orphans (count_refs actions) blobs" and ?ord = "action_order actions"
  obtain j k where after: "after = left_sum (blob_sizes blobs) b + left_sum (action_sizes actions) a" and len: "length a = length actions"
      and match: "blobs_match blobs (known_to actions) (refs_left actions a) b"
      and acts: "\<forall>i<length actions. a ! i \<longleftrightarrow> i \<in> set (take k ?ord)"
      and orphs: "\<forall>i<length blobs. is_orphan (count_refs actions) (blobs ! i) \<longrightarrow> (b ! i \<longleftrightarrow> i \<in> set (take j ?o))"
      and bounds: "j \<le> length ?o" "k \<le> length ?ord"
      and last: "k = 0 \<and> 0 < j \<longrightarrow> max_bytes < after + bf_size (blobs ! (?o ! (j - 1)))"
        "0 < k \<longrightarrow> max_bytes < after + af_size (actions ! (?ord ! (k - 1))) + owned_bytes blobs b (actions ! (?ord ! (k - 1)))"
    using gc_plan_spec [OF dd fit, of max_bytes] unfolding plan by auto
  have order: "sorted (map (\<lambda>i. af_modified (actions ! i)) ?ord)" "set ?ord = {..<length actions}"
    by (auto simp: action_order_def)
  have order': "sorted (map (\<lambda>i. bf_modified (blobs ! i)) ?o)" "set ?o = {i. i < length blobs \<and> is_orphan (count_refs actions) (blobs ! i)}"
    by (auto simp: orphans_def)
  have taken: "?ord ! (k - 1) \<in> set (take k ?ord) \<and> ?ord ! (k - 1) < length actions" if "0 < k"
  proof -
    have "?ord ! (k - 1) \<in> set (take k ?ord)" using that bounds(2) by (auto simp: in_set_conv_nth intro!: exI [of _ "k - 1"])
    then show ?thesis using order(2) in_set_takeD by fastforce
  qed
  show "\<exists>k<length actions. a ! k \<and> (\<forall>m<length actions. a ! m \<longrightarrow> af_modified (actions ! m) \<le> af_modified (actions ! k))
      \<and> max_bytes < after + af_size (actions ! k) + owned_bytes blobs b (actions ! k)" if some: "\<exists>k<length actions. a ! k"
  proof -
    have k: "0 < k" using some acts by (cases k) auto
    then show ?thesis
      using taken [OF k] last(2) acts sorted_last_taken [OF order(1) _ bounds(2)] by (intro exI [of _ "?ord ! (k - 1)"]) simp
  qed
  show "\<exists>i<length blobs. b ! i \<and> (\<forall>m<length blobs. b ! m \<longrightarrow> bf_modified (blobs ! m) \<le> bf_modified (blobs ! i))
      \<and> max_bytes < after + bf_size (blobs ! i)" if some: "\<exists>i<length blobs. b ! i" and none: "\<not> (\<exists>k<length actions. a ! k)"
  proof -
    have k: "k = 0" using none acts taken by blast
    have gone: "is_orphan (count_refs actions) (blobs ! m)" if m: "m < length blobs" "b ! m" for m
    proof (rule ccontr)
      assume "\<not> is_orphan (count_refs actions) (blobs ! m)"
      then obtain d where d: "bf_digest (blobs ! m) = Some d" "known_to actions d" by (auto simp: orphan_iff split: option.splits)
      then have "refs_left actions a d = 0" using match m by (simp add: blobs_match_def)
      moreover obtain k where "k < length actions" "d \<in> set (af_refs (actions ! k))" using d(2) unfolding known_to_def by (metis in_set_conv_nth)
      ultimately show False using none len by (auto simp: refs_left_zero)
    qed
    have j: "0 < j" using some gone orphs by (cases j) auto
    then have x: "?o ! (j - 1) \<in> set (take j ?o)" using bounds(1) by (auto simp: in_set_conv_nth intro!: exI [of _ "j - 1"])
    then have y: "?o ! (j - 1) < length blobs" "is_orphan (count_refs actions) (blobs ! (?o ! (j - 1)))"
      using order'(2) in_set_takeD by fastforce+
    have "bf_modified (blobs ! m) \<le> bf_modified (blobs ! (?o ! (j - 1)))" if "m < length blobs" "b ! m" for m
      using that gone orphs sorted_last_taken [OF order'(1) _ bounds(1), of m] by blast
    then show ?thesis using x y j k last(1) orphs by (intro exI [of _ "?o ! (j - 1)"]) simp
  qed
qed

text \<open>C6. A collection pass meets its budget, without breaking a cached result and without evicting more than it has
  to. On a store with one file per content address the size left after the pass is exactly the size of what is not
  marked, and is within the budget. A blob some result refers to is marked exactly when every such result is, so that
  surviving results keep all their blobs and evicted ones leave none behind. Orphans and results are each evicted
  oldest first, and a result only once all orphans are. Each tier stops at the budget: had the pass spared the youngest
  result it evicted, with the blobs that went with it, or, when it evicted no result, the youngest orphan it evicted, the
  store would still be over the budget.\<close>

theorem gc_plan_exact:
  assumes "distinct_digests blobs" and "sum_list (map bf_size blobs) + sum_list (map af_size actions) \<le> u64_max"
  shows "case gc_plan blobs actions max_bytes of (a, b, after) \<Rightarrow>
      length a = length actions \<and> length b = length blobs
      \<and> after = (\<Sum>i<length blobs. if b ! i then 0 else bf_size (blobs ! i)) + (\<Sum>i<length actions. if a ! i then 0 else af_size (actions ! i))
      \<and> after \<le> max_bytes
      \<and> (\<forall>i<length blobs. \<forall>d. bf_digest (blobs ! i) = Some d \<and> (\<exists>r\<in>set actions. d \<in> set (af_refs r)) \<longrightarrow>
            (b ! i \<longleftrightarrow> (\<forall>k<length actions. d \<in> set (af_refs (actions ! k)) \<longrightarrow> a ! k)))
      \<and> (\<forall>i<length actions. \<forall>k<length actions. a ! i \<and> \<not> a ! k \<longrightarrow> af_modified (actions ! i) \<le> af_modified (actions ! k))
      \<and> (\<forall>i<length blobs. \<forall>k<length blobs. is_orphan (count_refs actions) (blobs ! i) \<and> is_orphan (count_refs actions) (blobs ! k)
            \<and> b ! i \<and> \<not> b ! k \<longrightarrow> bf_modified (blobs ! i) \<le> bf_modified (blobs ! k))
      \<and> ((\<exists>k<length actions. a ! k) \<longrightarrow> (\<forall>i<length blobs. is_orphan (count_refs actions) (blobs ! i) \<longrightarrow> b ! i))
      \<and> ((\<exists>k<length actions. a ! k) \<longrightarrow> (\<exists>k<length actions. a ! k
            \<and> (\<forall>m<length actions. a ! m \<longrightarrow> af_modified (actions ! m) \<le> af_modified (actions ! k))
            \<and> max_bytes < after + af_size (actions ! k) + owned_bytes blobs b (actions ! k)))
      \<and> ((\<exists>i<length blobs. b ! i) \<and> \<not> (\<exists>k<length actions. a ! k) \<longrightarrow> (\<exists>i<length blobs. b ! i
            \<and> (\<forall>m<length blobs. b ! m \<longrightarrow> bf_modified (blobs ! m) \<le> bf_modified (blobs ! i))
            \<and> max_bytes < after + bf_size (blobs ! i)))"
proof -
  let ?o = "orphans (count_refs actions) blobs"
  obtain j k a b where p: "gc_plan blobs actions max_bytes = (a, b, left_sum (blob_sizes blobs) b + left_sum (action_sizes actions) a)"
      "length a = length actions" "blobs_match blobs (known_to actions) (refs_left actions a) b"
      "\<forall>i<length actions. a ! i \<longleftrightarrow> i \<in> set (take k (action_order actions))"
      "\<forall>i<length blobs. is_orphan (count_refs actions) (blobs ! i) \<longrightarrow> (b ! i \<longleftrightarrow> i \<in> set (take j ?o))"
      "k = 0 \<or> j = length ?o" "left_sum (blob_sizes blobs) b + left_sum (action_sizes actions) a \<le> max_bytes"
    using gc_plan_spec [OF assms] by blast
  have len: "length b = length blobs" using p(3) by (simp add: blobs_match_def)
  have sorted: "sorted (map (\<lambda>i. af_modified (actions ! i)) (action_order actions))" "sorted (map (\<lambda>i. bf_modified (blobs ! i)) ?o)"
    by (simp_all add: action_order_def orphans_def)
  have acts: "af_modified (actions ! i) \<le> af_modified (actions ! m)" if "i < length actions" "m < length actions" "a ! i" "\<not> a ! m" for i m
    using that p(4) by (intro sorted_prefix [OF sorted(1)]) (auto simp: action_order_def)
  have orphs: "bf_modified (blobs ! i) \<le> bf_modified (blobs ! m)"
    if "i < length blobs" "m < length blobs" "is_orphan (count_refs actions) (blobs ! i)" "is_orphan (count_refs actions) (blobs ! m)" "b ! i" "\<not> b ! m" for i m
    using that p(5) by (intro sorted_prefix [OF sorted(2)]) (auto simp: orphans_def)
  have all: "b ! i" if "m < length actions" "a ! m" "i < length blobs" "is_orphan (count_refs actions) (blobs ! i)" for m i
  proof -
    have "j = length ?o" using p(4,6) that(1,2) by auto
    then show ?thesis using p(5) that(3,4) by (simp add: orphans_def)
  qed
  have live: "b ! i \<longleftrightarrow> (\<forall>m<length actions. d \<in> set (af_refs (actions ! m)) \<longrightarrow> a ! m)"
    if "i < length blobs" "bf_digest (blobs ! i) = Some d" "\<exists>r\<in>set actions. d \<in> set (af_refs r)" for i d
    using that p(2,3) by (simp add: blobs_match_def known_to_def refs_left_zero)
  have exact: "left_sum (blob_sizes blobs) b = (\<Sum>i<length blobs. if b ! i then 0 else bf_size (blobs ! i))"
      "left_sum (action_sizes actions) a = (\<Sum>i<length actions. if a ! i then 0 else af_size (actions ! i))"
    by (simp_all add: left_sum_def len p(2))
  note minimal = gc_plan_minimal [OF assms p(1), unfolded exact]
  show ?thesis unfolding p(1) prod.case exact
    by (intro conjI allI impI) (use p(2,7) len acts orphs all live minimal exact in \<open>simp_all only:\<close>, blast+)
qed

lemma remove_files_prefix:
  "\<exists>n. snd (remove_files fails ps fs) = fs - set (take n ps) \<and> (fst (remove_files fails ps fs) = Inr () \<longrightarrow> n = length ps)"
proof (induction ps arbitrary: fs)
  case (Cons p ps)
  show ?case
  proof (cases "fails p")
    case True
    then show ?thesis by (intro exI [of _ 0]) simp
  next
    case False
    obtain n where "snd (remove_files fails ps (fs - {p})) = fs - {p} - set (take n ps)"
        "fst (remove_files fails ps (fs - {p})) = Inr () \<longrightarrow> n = length ps"
      using Cons.IH [of "fs - {p}"] by blast
    then show ?thesis using False by (intro exI [of _ "Suc n"]) auto
  qed
qed simp

lemma remove_files_error: "fst (remove_files fails ps fs) = Inl (GcIo p) \<Longrightarrow> fails p"
  by (induction ps arbitrary: fs) (auto split: if_splits)

text \<open>Removing a prefix of the victims never separates a result from its blobs.\<close>

lemma victims_prefix_safe:
  assumes dd: "distinct_digests blobs" and fit: "sum_list (map bf_size blobs) + sum_list (map af_size actions) \<le> u64_max"
    and paths: "distinct (map af_path actions @ map bf_path blobs)" and plan: "gc_plan blobs actions max_bytes = (a, b, after)"
    and r: "r \<in> set actions" "d \<in> set (af_refs r)" and f: "f \<in> set blobs" "bf_digest f = Some d"
    and kept: "af_path r \<notin> set (take n (victims blobs actions a b))"
  shows "bf_path f \<notin> set (take n (victims blobs actions a b))"
proof
  assume gone: "bf_path f \<in> set (take n (victims blobs actions a b))"
  let ?va = "map (\<lambda>i. af_path (actions ! i)) (filter (\<lambda>i. a ! i) [0..<length actions])"
  let ?vb = "map (\<lambda>i. bf_path (blobs ! i)) (filter (\<lambda>i. b ! i) [0..<length blobs])"
  have cross: "set (map af_path actions) \<inter> set (map bf_path blobs) = {}" and inj: "distinct (map bf_path blobs)" using paths by auto
  have "set ?va \<subseteq> set (map af_path actions)" by auto
  then have "bf_path f \<notin> set ?va" using cross f(1) by auto
  then have tail: "bf_path f \<in> set (take (n - length ?va) ?vb)" using gone in_set_takeD by (fastforce simp: victims_def)
  then have "length ?va \<le> n" by (cases "length ?va \<le> n") auto
  then have va: "set ?va \<subseteq> set (take n (victims blobs actions a b))" by (simp add: victims_def)
  obtain i where i: "i < length blobs" "b ! i" "bf_path (blobs ! i) = bf_path f" using in_set_takeD [OF tail] by auto
  obtain m where m: "m < length blobs" "blobs ! m = f" using f(1) by (metis in_set_conv_nth)
  have "i = m" using inj i(1,3) m by (metis length_map nth_eq_iff_index_eq nth_map)
  obtain k where k: "k < length actions" "actions ! k = r" using r(1) by (metis in_set_conv_nth)
  have "b ! i \<longleftrightarrow> (\<forall>k<length actions. d \<in> set (af_refs (actions ! k)) \<longrightarrow> a ! k)"
  proof -
    have match: "blobs_match blobs (known_to actions) (refs_left actions a) b" "length a = length actions"
      using gc_plan_spec [OF dd fit, of max_bytes] plan by auto
    have "known_to actions d" using r by (auto simp: known_to_def)
    then show ?thesis using match i(1) f(2) m \<open>i = m\<close> by (simp add: blobs_match_def refs_left_zero)
  qed
  then have "a ! k" using i(2) k r(2) by auto
  then have "af_path r \<in> set ?va" using k by force
  then show False using va kept by blast
qed

text \<open>C16. However a pass ends, no result on disk has lost a blob. When removing a file fails part way, or the
  process stops there, every result file still present has all the blob files that were present before, since
  results are removed before the blobs they own; a dry run removes nothing; the only errors are those of the
  file system; and a pass that succeeds reports a size within the budget.\<close>

theorem gc_interruption_safe:
  assumes "distinct_digests blobs" and "sum_list (map bf_size blobs) + sum_list (map af_size actions) \<le> u64_max"
    and "distinct (map af_path actions @ map bf_path blobs)"
  shows "case gc fails blobs actions max_bytes dry_run fs of (r, fs') \<Rightarrow>
      fs' \<subseteq> fs \<and> (dry_run \<longrightarrow> fs' = fs)
      \<and> (\<forall>a\<in>set actions. \<forall>d\<in>set (af_refs a). \<forall>b\<in>set blobs.
            af_path a \<in> fs' \<and> bf_digest b = Some d \<and> bf_path b \<in> fs \<longrightarrow> bf_path b \<in> fs')
      \<and> (case r of Inl (GcIo p) \<Rightarrow> fails p | Inr report \<Rightarrow> bytes_after report \<le> max_bytes)"
proof -
  obtain a b after where plan: "gc_plan blobs actions max_bytes = (a, b, after)" by (cases "gc_plan blobs actions max_bytes")
  have after: "after \<le> max_bytes" using gc_plan_spec [OF assms(1,2), of max_bytes] plan by auto
  let ?vs = "victims blobs actions a b"
  consider "store_bytes blobs actions \<le> max_bytes" | "max_bytes < store_bytes blobs actions" "dry_run"
    | "max_bytes < store_bytes blobs actions" "\<not> dry_run" by linarith
  then show ?thesis
  proof cases
    case 1
    then show ?thesis by (simp add: gc_def Let_def)
  next
    case 2
    then show ?thesis using after by (simp add: gc_def plan Let_def)
  next
    case 3
    obtain res fs' where run: "remove_files fails ?vs fs = (res, fs')" by (cases "remove_files fails ?vs fs")
    obtain n where n: "fs' = fs - set (take n ?vs)" using remove_files_prefix [of fails ?vs fs] run by auto
    have safe: "\<forall>r\<in>set actions. \<forall>d\<in>set (af_refs r). \<forall>f\<in>set blobs.
        af_path r \<in> fs' \<and> bf_digest f = Some d \<and> bf_path f \<in> fs \<longrightarrow> bf_path f \<in> fs'"
      using victims_prefix_safe [OF assms plan, of _ _ _ n] unfolding n by blast
    show ?thesis
    proof (cases res)
      case (Inl e)
      obtain p where "e = GcIo p" by (cases e)
      then have "fails p" using remove_files_error [of fails ?vs fs p] run Inl by simp
      then show ?thesis using 3 safe n Inl \<open>e = GcIo p\<close> by (simp add: gc_def plan Let_def run)
    next
      case (Inr u)
      then show ?thesis using 3 safe n after by (simp add: gc_def plan Let_def run)
    qed
  qed
qed

definition gc_blobs :: "nat blob_file list" where
  "gc_blobs = [\<lparr>bf_path = ''b/x'', bf_digest = Some 1, bf_size = 40, bf_modified = 1\<rparr>,
               \<lparr>bf_path = ''b/y'', bf_digest = Some 2, bf_size = 30, bf_modified = 2\<rparr>,
               \<lparr>bf_path = ''b/z'', bf_digest = None, bf_size = 5, bf_modified = 9\<rparr>]"

definition gc_actions :: "nat action_file list" where
  "gc_actions = [\<lparr>af_path = ''a/old'', af_size = 3, af_modified = 4, af_refs = [1, 2]\<rparr>,
                 \<lparr>af_path = ''a/new'', af_size = 4, af_modified = 8, af_refs = [1]\<rparr>]"

lemma gc_example_ok: "distinct_digests gc_blobs \<and> sum_list (map bf_size gc_blobs) + sum_list (map af_size gc_actions) \<le> u64_max
    \<and> distinct (map af_path gc_actions @ map bf_path gc_blobs)"
  by (simp add: distinct_digests_def gc_blobs_def gc_actions_def List.map_filter_def machine_simps)

lemma gc_example_plan: "gc_plan gc_blobs gc_actions 60 = ([True, False], [False, True, True], 44)"
  by (simp add: gc_plan_def gc_blobs_def gc_actions_def count_refs_def blob_index_def orphans_def is_orphan_def store_bytes_def
      wrap_add_def sat_sub_def Let_def upt_rec sort_key_def)

theorem gc_plan_exact_witness:
  "gc_plan gc_blobs gc_actions 60 = ([True, False], [False, True, True], 44)
   \<and> distinct_digests gc_blobs \<and> af_modified (gc_actions ! 0) \<le> af_modified (gc_actions ! 1)"
  using gc_plan_exact [of gc_blobs gc_actions 60] gc_example_ok gc_example_plan
  by (simp add: gc_actions_def)

lemma gc_example_victims: "victims gc_blobs gc_actions [True, False] [False, True, True] = [''a/old'', ''b/y'', ''b/z'']"
  by (simp add: victims_def gc_actions_def gc_blobs_def upt_rec)

lemma gc_example_bytes: "store_bytes gc_blobs gc_actions = 82"
  by (simp add: store_bytes_def wrap_add_def gc_actions_def gc_blobs_def)

lemma gc_example_refs: "gc_actions ! 1 \<in> set gc_actions" "1 \<in> set (af_refs (gc_actions ! 1))" "gc_blobs ! 0 \<in> set gc_blobs"
  "af_path (gc_actions ! 1) = ''a/new''" "bf_digest (gc_blobs ! 0) = Some 1" "bf_path (gc_blobs ! 0) = ''b/x''"
  by (simp_all add: gc_actions_def gc_blobs_def)

theorem gc_interruption_safe_witness:
  "\<exists>fs. gc (\<lambda>p. p = ''b/y'') gc_blobs gc_actions 60 False {''a/old'', ''a/new'', ''b/x'', ''b/y'', ''b/z''} = (Inl (GcIo ''b/y''), fs)
    \<and> ''a/new'' \<in> fs \<and> ''b/x'' \<in> fs"
proof -
  let ?fs = "{''a/old'', ''a/new'', ''b/x'', ''b/y'', ''b/z''}"
  have run: "gc (\<lambda>p. p = ''b/y'') gc_blobs gc_actions 60 False ?fs = (Inl (GcIo ''b/y''), ?fs - {''a/old''})"
    by (simp add: gc_def gc_example_plan gc_example_victims gc_example_bytes Let_def)
  have "''b/x'' \<in> ?fs - {''a/old''}"
    using gc_interruption_safe [of gc_blobs gc_actions, where fails = "\<lambda>p. p = ''b/y''" and max_bytes = 60 and dry_run = False and fs = ?fs]
      gc_example_ok gc_example_refs unfolding run prod.case by blast
  then show ?thesis unfolding run by simp
qed

end
