(* ===== verification/Directory_Blob.thy ===== *)
theory Directory_Blob
  imports Workspace_Path Byte_Codec
begin

text \<open>
  The binary encodings of action outputs: \<open>crates/once-core/src/directory_blob.rs\<close>, its private restoration
  \<open>directory_stage.rs\<close>, \<open>file_blob.rs\<close> and \<open>restore_file.rs\<close>. A reader is the bytes it has left. The entries of
  a captured directory and the contents of its files are arguments: walking the directory is input and output.
  A fresh restoration builds a private tree, a map from relative paths to nodes, that is renamed into place at the
  end; failures of the file system other than those the tree itself causes are not modelled.
\<close>

section \<open>Entries\<close>

datatype entry_kind = FileEntry | SymlinkFile | SymlinkDir

definition kind_byte :: "entry_kind \<Rightarrow> byte" where
  "kind_byte k = (case k of FileEntry \<Rightarrow> 1 | SymlinkFile \<Rightarrow> 2 | SymlinkDir \<Rightarrow> 3)"

definition kind_from_u8 :: "byte \<Rightarrow> entry_kind option" where
  "kind_from_u8 raw = (if raw = 1 then Some FileEntry else if raw = 2 then Some SymlinkFile else if raw = 3 then Some SymlinkDir else None)"

datatype entry_content = FileContent string nat | BytesContent "byte list"

record directory_entry =
  de_rel :: string
  de_kind :: entry_kind
  de_mode :: nat
  de_content :: entry_content

datatype blob_error = PathTooLong | ChangedDuringCapture | CannotOpen string | MissingMagic | Truncated | UnknownKind | NotUtf8
| InvalidPath workspace_path_error | EmptyPath | TargetTooLong | ParentNotDirectory | AlreadyExists

definition DIRECTORY_BLOB_MAGIC :: "byte list" where
  "DIRECTORY_BLOB_MAGIC = text_bytes ''once.directory.v2'' @ [0]"

definition DIRECTORY_BLOB_V1_MAGIC :: "byte list" where
  "DIRECTORY_BLOB_V1_MAGIC = text_bytes ''once.directory.v1'' @ [0]"

definition MAX_DIRECTORY_PATH_BYTES :: nat where
  "MAX_DIRECTORY_PATH_BYTES = 1024 * 1024"

definition content_len :: "entry_content \<Rightarrow> nat" where
  "content_len c = (case c of FileContent path len \<Rightarrow> len | BytesContent bytes \<Rightarrow> min (length bytes) u64_max)"

text \<open>The file's current contents come from the system; a file that has shrunk since it was listed is an error, one that
  has grown is cut at the listed length.\<close>

definition write_content :: "(string \<rightharpoonup> byte list) \<Rightarrow> entry_content \<Rightarrow> blob_error + byte list" where
  "write_content files c =
     (case c of
        FileContent path len \<Rightarrow>
          (case files path of
             None \<Rightarrow> Inl (CannotOpen path)
           | Some bytes \<Rightarrow> if length (take len bytes) \<noteq> len then Inl ChangedDuringCapture else Inr (take len bytes))
      | BytesContent bytes \<Rightarrow> Inr bytes)"

definition write_entry :: "(string \<rightharpoonup> byte list) \<Rightarrow> directory_entry \<Rightarrow> blob_error + byte list" where
  "write_entry files e =
     (let path_bytes = text_bytes (de_rel e)
      in if length path_bytes > u32_max then Inl PathTooLong
         else rbind (write_content files (de_content e)) (\<lambda>content.
           Inr ([kind_byte (de_kind e)] @ le_bytes 4 (length path_bytes) @ le_bytes 4 (de_mode e)
             @ le_bytes 8 (content_len (de_content e)) @ path_bytes @ content)))"

fun write_entries :: "(string \<rightharpoonup> byte list) \<Rightarrow> directory_entry list \<Rightarrow> blob_error + byte list" where
  "write_entries files [] = Inr []"
| "write_entries files (e # es) = rbind (write_entry files e) (\<lambda>bs. rbind (write_entries files es) (\<lambda>rest. Inr (bs @ rest)))"

definition write_directory_blob :: "(string \<rightharpoonup> byte list) \<Rightarrow> directory_entry list \<Rightarrow> blob_error + byte list" where
  "write_directory_blob files entries =
     rbind (write_entries files (sort_key de_rel entries)) (\<lambda>bs. Inr (DIRECTORY_BLOB_MAGIC @ bs))"

definition is_directory_blob :: "byte list \<Rightarrow> bool" where
  "is_directory_blob bytes \<longleftrightarrow> take (length DIRECTORY_BLOB_MAGIC) bytes = DIRECTORY_BLOB_MAGIC
     \<or> take (length DIRECTORY_BLOB_V1_MAGIC) bytes = DIRECTORY_BLOB_V1_MAGIC"

section \<open>Reading entries\<close>

record streamed_entry =
  se_kind :: entry_kind
  se_mode :: nat
  se_content_len :: nat
  se_path :: "string list"

definition read_bytes :: "nat \<Rightarrow> byte list \<Rightarrow> blob_error + byte list \<times> byte list" where
  "read_bytes n r = (case read_exact n r of None \<Rightarrow> Inl Truncated | Some x \<Rightarrow> Inr x)"

definition read_u32 :: "byte list \<Rightarrow> blob_error + nat \<times> byte list" where
  "read_u32 r = rbind (read_bytes 4 r) (\<lambda>(raw, r). Inr (le_value raw, r))"

definition read_u64 :: "byte list \<Rightarrow> blob_error + nat \<times> byte list" where
  "read_u64 r = rbind (read_bytes 8 r) (\<lambda>(raw, r). Inr (le_value raw, r))"

definition read_kind_and_length :: "bool \<Rightarrow> byte \<Rightarrow> byte list \<Rightarrow> blob_error + entry_kind \<times> nat \<times> byte list" where
  "read_kind_and_length version_one first r =
     (if version_one
      then rbind (read_bytes 3 r) (\<lambda>(raw, r). Inr (FileEntry, le_value (first # raw), r))
      else (case kind_from_u8 first of
              None \<Rightarrow> Inl UnknownKind
            | Some kind \<Rightarrow> rbind (read_u32 r) (\<lambda>(len, r). Inr (kind, len, r))))"

text \<open>The destination of an entry is kept as the segments of its path below the root.\<close>

definition entry_destination :: "byte list \<Rightarrow> blob_error + string list" where
  "entry_destination path_bytes =
     (if \<not> valid_utf8 path_bytes then Inl NotUtf8
      else (case try_from (bytes_text path_bytes) of
              Inl e \<Rightarrow> Inl (InvalidPath e)
            | Inr rel \<Rightarrow> if rel = [] then Inl EmptyPath else Inr (segments rel)))"

definition read_streamed_entry :: "bool \<Rightarrow> byte list \<Rightarrow> blob_error + (streamed_entry \<times> byte list) option" where
  "read_streamed_entry version_one r =
     (case r of
        [] \<Rightarrow> Inr None
      | first # r \<Rightarrow>
          rbind (read_kind_and_length version_one first r) (\<lambda>(kind, path_len, r).
          rbind (ensure (path_len \<le> MAX_DIRECTORY_PATH_BYTES) PathTooLong) (\<lambda>_.
          rbind (read_u32 r) (\<lambda>(mode, r).
          rbind (read_u64 r) (\<lambda>(len, r).
          rbind (read_bytes path_len r) (\<lambda>(path_bytes, r).
          rbind (entry_destination path_bytes) (\<lambda>path.
            Inr (Some (\<lparr>se_kind = kind, se_mode = mode, se_content_len = len, se_path = path\<rparr>, r)))))))))"

section \<open>Restoring into a private tree\<close>

datatype node = DirNode | FileNode nat "byte list" | LinkNode string

type_synonym tree = "string list \<rightharpoonup> node"

fun prepare_parent :: "tree \<Rightarrow> string list \<Rightarrow> string list \<Rightarrow> blob_error + tree" where
  "prepare_parent t current [] = Inr t"
| "prepare_parent t current (c # cs) =
     (let current = current @ [c]
      in case t current of
           Some DirNode \<Rightarrow> prepare_parent t current cs
         | None \<Rightarrow> prepare_parent (t(current \<mapsto> DirNode)) current cs
         | Some _ \<Rightarrow> Inl ParentNotDirectory)"

definition copy_content :: "nat \<Rightarrow> byte list \<Rightarrow> blob_error + byte list \<times> byte list" where
  "copy_content expected r =
     (let copied = take expected r
      in if length copied \<noteq> expected then Inl Truncated else Inr (copied, drop expected r))"

text \<open>\<open>create_new\<close> and \<open>symlink\<close> refuse a path that exists.\<close>

definition create_node :: "tree \<Rightarrow> string list \<Rightarrow> node \<Rightarrow> blob_error + tree" where
  "create_node t path n = (if t path \<noteq> None then Inl AlreadyExists else Inr (t(path \<mapsto> n)))"

definition restore_symlink :: "tree \<Rightarrow> streamed_entry \<Rightarrow> byte list \<Rightarrow> blob_error + tree \<times> byte list" where
  "restore_symlink t e r =
     (if se_content_len e > MAX_DIRECTORY_PATH_BYTES then Inl TargetTooLong
      else rbind (read_bytes (se_content_len e) r) (\<lambda>(target, r).
        if \<not> valid_utf8 target then Inl NotUtf8
        else rbind (create_node t (se_path e) (LinkNode (bytes_text target))) (\<lambda>t. Inr (t, r))))"

definition restore_entry :: "tree \<Rightarrow> streamed_entry \<Rightarrow> byte list \<Rightarrow> blob_error + tree \<times> byte list" where
  "restore_entry t e r =
     rbind (prepare_parent t [] (butlast (se_path e))) (\<lambda>t.
       case se_kind e of
         FileEntry \<Rightarrow>
           (if t (se_path e) \<noteq> None then Inl AlreadyExists
            else rbind (copy_content (se_content_len e) r) (\<lambda>(content, r).
              Inr (t(se_path e \<mapsto> FileNode (max (se_mode e) 0x100 mod 0x1000) content), r)))
       | _ \<Rightarrow> restore_symlink t e r)"

lemma read_bytes_Inr: "read_bytes n r = Inr (bs, r') \<Longrightarrow> r = bs @ r' \<and> length bs = n"
  by (auto simp: read_bytes_def dest: read_exact_Some split: option.splits)

lemma read_bytes_shorter: "read_bytes n r = Inr (bs, r') \<Longrightarrow> length r' \<le> length r"
  by (auto dest: read_bytes_Inr)

lemma read_streamed_entry_shorter:
  assumes "read_streamed_entry v r = Inr (Some (e, r'))"
  shows "length r' < length r"
proof -
  obtain first rest where r: "r = first # rest" using assms by (cases r) (auto simp: read_streamed_entry_def)
  obtain kind n r1 mode r2 len r3 path where s: "read_kind_and_length v first rest = Inr (kind, n, r1)" "read_u32 r1 = Inr (mode, r2)"
      "read_u64 r2 = Inr (len, r3)" "read_bytes n r3 = Inr (path, r')"
    using assms unfolding r read_streamed_entry_def by (auto simp: rbind_Inr)
  have "length r1 \<le> length rest"
    using s(1) by (auto simp: read_kind_and_length_def rbind_Inr read_u32_def dest: read_bytes_shorter split: if_splits option.splits)
  moreover have "length r2 \<le> length r1" "length r3 \<le> length r2" "length r' \<le> length r3"
    using s(2-4) by (auto simp: rbind_Inr read_u32_def read_u64_def dest: read_bytes_shorter)
  ultimately show ?thesis by (simp add: r)
qed

lemma restore_symlink_Inr:
  "restore_symlink t e r = Inr (t', r') \<Longrightarrow>
   \<exists>target. read_bytes (se_content_len e) r = Inr (target, r') \<and> t (se_path e) = None \<and> t' = t(se_path e \<mapsto> LinkNode (bytes_text target))"
  by (auto simp: restore_symlink_def create_node_def rbind_Inr split: if_splits)

lemma copy_content_Inr: "copy_content n r = Inr (content, r') \<Longrightarrow> r = content @ r' \<and> length content = n"
  by (auto simp: copy_content_def Let_def split: if_splits)

lemma restore_entry_Inr:
  assumes "restore_entry t e r = Inr (t', r')"
  shows "\<exists>t1 n. prepare_parent t [] (butlast (se_path e)) = Inr t1 \<and> t1 (se_path e) = None \<and> t' = t1(se_path e \<mapsto> n)
    \<and> n \<noteq> DirNode \<and> length r' \<le> length r"
proof -
  obtain t1 where t1: "prepare_parent t [] (butlast (se_path e)) = Inr t1" using assms by (auto simp: restore_entry_def rbind_Inr)
  show ?thesis
  proof (cases "se_kind e")
    case FileEntry
    then obtain content where "copy_content (se_content_len e) r = Inr (content, r')" "t1 (se_path e) = None"
        "t' = t1(se_path e \<mapsto> FileNode (max (se_mode e) 0x100 mod 0x1000) content)"
      using assms t1 by (auto simp: restore_entry_def rbind_Inr split: if_splits)
    moreover have "length r' \<le> length r" using copy_content_Inr [OF calculation(1)] by simp
    ultimately show ?thesis using t1 by blast
  next
    case SymlinkFile
    then have "restore_symlink t1 e r = Inr (t', r')" using assms t1 by (simp add: restore_entry_def)
    from restore_symlink_Inr [OF this] show ?thesis using t1 read_bytes_shorter by blast
  next
    case SymlinkDir
    then have "restore_symlink t1 e r = Inr (t', r')" using assms t1 by (simp add: restore_entry_def)
    from restore_symlink_Inr [OF this] show ?thesis using t1 read_bytes_shorter by blast
  qed
qed

function restore_loop :: "bool \<Rightarrow> tree \<Rightarrow> byte list \<Rightarrow> blob_error + tree" where
  "restore_loop version_one t r =
     (case read_streamed_entry version_one r of
        Inl e \<Rightarrow> Inl e
      | Inr None \<Rightarrow> Inr t
      | Inr (Some (entry, r1)) \<Rightarrow>
          (case restore_entry t entry r1 of
             Inl e \<Rightarrow> Inl e
           | Inr (t', r2) \<Rightarrow> restore_loop version_one t' r2))"
  by auto

termination restore_loop
  by (relation "measure (\<lambda>(v, t, r). length r)")
    (auto dest!: read_streamed_entry_shorter restore_entry_Inr)

definition restore_directory_blob :: "byte list \<Rightarrow> blob_error + tree" where
  "restore_directory_blob r =
     rbind (read_bytes (length DIRECTORY_BLOB_MAGIC) r) (\<lambda>(magic, r).
       let version_one = (magic = DIRECTORY_BLOB_V1_MAGIC)
       in if \<not> version_one \<and> magic \<noteq> DIRECTORY_BLOB_MAGIC then Inl MissingMagic
          else restore_loop version_one Map.empty r)"

section \<open>File outputs\<close>

definition FILE_BLOB_MAGIC :: "byte list" where
  "FILE_BLOB_MAGIC = text_bytes ''once.file.v1'' @ [0]"

definition file_blob_header :: "nat \<Rightarrow> byte list" where
  "file_blob_header mode = FILE_BLOB_MAGIC @ le_bytes 4 (mode mod 0x200)"

definition write_file_blob :: "nat \<Rightarrow> byte list \<Rightarrow> byte list" where
  "write_file_blob mode content = file_blob_header mode @ content"

definition decode_file_blob :: "byte list \<Rightarrow> blob_error + nat" where
  "decode_file_blob bytes =
     (if take (length FILE_BLOB_MAGIC) bytes \<noteq> FILE_BLOB_MAGIC then Inl MissingMagic
      else if length bytes < length FILE_BLOB_MAGIC + 4 then Inl Truncated
      else Inr (le_value (take 4 (drop (length FILE_BLOB_MAGIC) bytes)) mod 0x200))"

definition restore_file_blob :: "byte list \<Rightarrow> blob_error + node" where
  "restore_file_blob r =
     (let n = length FILE_BLOB_MAGIC + 4
      in rbind (decode_file_blob (take n r)) (\<lambda>mode. Inr (FileNode mode (drop n r))))"

section \<open>Confinement\<close>

text \<open>Every node lies below the root under real directories only.\<close>

definition tree_ok :: "tree \<Rightarrow> bool" where
  "tree_ok t \<longleftrightarrow> (\<forall>p n. t p = Some n \<longrightarrow> p \<noteq> [] \<and> (\<forall>seg\<in>set p. plain_segment seg)
     \<and> (\<forall>q. q \<noteq> [] \<and> strict_prefix q p \<longrightarrow> t q = Some DirNode))"

lemma prepare_parent_spec:
  "prepare_parent t current cs = Inr t' \<Longrightarrow>
   t' = (\<lambda>p. if \<exists>k\<in>{1..length cs}. p = current @ take k cs then Some DirNode else t p)
   \<and> (\<forall>k\<in>{1..length cs}. t (current @ take k cs) \<in> {None, Some DirNode})"
proof (induction t current cs arbitrary: t' rule: prepare_parent.induct)
  case (1 t current)
  then show ?case by auto
next
  case (2 t current c cs)
  have up: "(\<exists>k\<in>{1..length (c # cs)}. p = current @ take k (c # cs)) \<longleftrightarrow>
      p = current @ [c] \<or> (\<exists>k\<in>{1..length cs}. p = (current @ [c]) @ take k cs)" for p
  proof -
    have "{1..length (c # cs)} = insert 1 (Suc ` {1..length cs})" by (auto simp: image_iff)
    then have "(\<exists>k\<in>{1..length (c # cs)}. Q k) \<longleftrightarrow> Q 1 \<or> (\<exists>k\<in>{1..length cs}. Q (Suc k))" for Q by (simp only: bex_simps)
    from this [of "\<lambda>k. p = current @ take k (c # cs)"] show ?thesis by simp
  qed
  have down: "(\<forall>k\<in>{1..length (c # cs)}. P (current @ take k (c # cs))) \<longleftrightarrow>
      P (current @ [c]) \<and> (\<forall>k\<in>{1..length cs}. P ((current @ [c]) @ take k cs))" for P
    using up by (metis (no_types, lifting))
  show ?case
  proof (cases "t (current @ [c])")
    case None
    then have run: "prepare_parent (t(current @ [c] \<mapsto> DirNode)) (current @ [c]) cs = Inr t'" using 2(3) by (simp add: Let_def)
    have "t' = (\<lambda>p. if \<exists>k\<in>{1..length cs}. p = (current @ [c]) @ take k cs then Some DirNode else (t(current @ [c] \<mapsto> DirNode)) p)
        \<and> (\<forall>k\<in>{1..length cs}. (t(current @ [c] \<mapsto> DirNode)) ((current @ [c]) @ take k cs) \<in> {None, Some DirNode})"
      using 2(1) [OF refl None run] .
    then show ?thesis using None unfolding up down [of "\<lambda>q. t q \<in> {None, Some DirNode}"] by (auto split: if_splits)
  next
    case (Some n)
    then have n: "n = DirNode" and run: "prepare_parent t (current @ [c]) cs = Inr t'" using 2(3) by (cases n; simp add: Let_def)+
    have "t' = (\<lambda>p. if \<exists>k\<in>{1..length cs}. p = (current @ [c]) @ take k cs then Some DirNode else t p)
        \<and> (\<forall>k\<in>{1..length cs}. t ((current @ [c]) @ take k cs) \<in> {None, Some DirNode})"
      using 2(2) [OF refl Some n run] .
    then show ?thesis using Some n unfolding up down [of "\<lambda>q. t q \<in> {None, Some DirNode}"] by auto
  qed
qed

lemma take_prefix_iff: "(\<exists>k\<in>{1..length cs}. p = take k cs) \<longleftrightarrow> p \<noteq> [] \<and> prefix p cs"
proof
  assume "\<exists>k\<in>{1..length cs}. p = take k cs"
  then show "p \<noteq> [] \<and> prefix p cs" by (auto simp: take_is_prefix)
next
  assume "p \<noteq> [] \<and> prefix p cs"
  then have "p = take (length p) cs" "length p \<in> {1..length cs}" by (auto simp: prefix_def Suc_le_eq)
  then show "\<exists>k\<in>{1..length cs}. p = take k cs" by blast
qed

lemma prefix_butlast: "q \<noteq> [] \<Longrightarrow> prefix p (butlast q) \<longleftrightarrow> strict_prefix p q"
proof (cases q rule: rev_cases)
  case (snoc ys y)
  have "\<not> prefix (ys @ [y]) ys" using prefix_length_le by fastforce
  then show ?thesis unfolding snoc strict_prefix_def prefix_snoc butlast_snoc by blast
qed simp

text \<open>What preparing the parents of \<open>q\<close> does to a tree.\<close>

lemma prepare_path:
  assumes "prepare_parent t [] (butlast q) = Inr t'" and "q \<noteq> []"
  shows "t' = (\<lambda>p. if p \<noteq> [] \<and> strict_prefix p q then Some DirNode else t p)"
    and "\<And>p. p \<noteq> [] \<Longrightarrow> strict_prefix p q \<Longrightarrow> t p \<in> {None, Some DirNode}"
proof -
  have iff: "(\<exists>k\<in>{1..length (butlast q)}. p = [] @ take k (butlast q)) \<longleftrightarrow> p \<noteq> [] \<and> strict_prefix p q" for p
    using take_prefix_iff [of "butlast q" p] prefix_butlast [OF assms(2), of p] by simp
  show "t' = (\<lambda>p. if p \<noteq> [] \<and> strict_prefix p q then Some DirNode else t p)"
    using prepare_parent_spec [OF assms(1)] unfolding iff by blast
  show "t p \<in> {None, Some DirNode}" if p: "p \<noteq> []" "strict_prefix p q" for p
  proof -
    obtain k where k: "k \<in> {1..length (butlast q)}" "p = [] @ take k (butlast q)" using iff [of p] p by blast
    then show ?thesis using prepare_parent_spec [OF assms(1)] unfolding k(2) by blast
  qed
qed

lemma restore_entry_ok:
  assumes ok: "tree_ok t" and path: "se_path e \<noteq> []" "\<forall>seg\<in>set (se_path e). plain_segment seg" and run: "restore_entry t e r = Inr (t', r')"
  shows "tree_ok t'"
proof -
  let ?q = "se_path e"
  obtain t1 n where s: "prepare_parent t [] (butlast ?q) = Inr t1" "t1 ?q = None" "t' = t1(?q \<mapsto> n)" using restore_entry_Inr [OF run] by blast
  have t1: "t1 = (\<lambda>p. if p \<noteq> [] \<and> strict_prefix p ?q then Some DirNode else t p)" using prepare_path [OF s(1) path(1)] by blast
  have keep: "t1 p = Some DirNode \<Longrightarrow> t' p = Some DirNode" for p using s(2,3) by auto
  show ?thesis unfolding tree_ok_def
  proof (intro allI impI)
    fix p m assume "t' p = Some m"
    then consider "p = ?q" | "p \<noteq> []" "strict_prefix p ?q" | "t p = Some m" using s(3) t1 by (auto split: if_splits)
    then show "p \<noteq> [] \<and> (\<forall>seg\<in>set p. plain_segment seg) \<and> (\<forall>q. q \<noteq> [] \<and> strict_prefix q p \<longrightarrow> t' q = Some DirNode)"
    proof cases
      case 1
      then show ?thesis using path keep by (auto simp: t1)
    next
      case 2
      have "set p \<subseteq> set ?q" using 2(2) set_mono_prefix by (auto simp: strict_prefix_def)
      moreover have "t' q = Some DirNode" if "q \<noteq> []" "strict_prefix q p" for q
        using that 2(2) keep [of q] by (simp add: t1 prefix_order.less_trans)
      ultimately show ?thesis using 2(1) path(2) by blast
    next
      case 3
      then have "t q = Some DirNode" if "q \<noteq> []" "strict_prefix q p" for q using ok that by (auto simp: tree_ok_def)
      then have "t' q = Some DirNode" if "q \<noteq> []" "strict_prefix q p" for q using that keep [of q] by (simp add: t1)
      then show ?thesis using 3 ok by (auto simp: tree_ok_def)
    qed
  qed
qed

lemma entry_destination_Inr:
  assumes "entry_destination bs = Inr path"
  shows "path \<noteq> [] \<and> (\<forall>seg\<in>set path. plain_segment seg)"
proof -
  obtain rel where rel: "try_from (bytes_text bs) = Inr rel" "rel \<noteq> []" "path = segments rel"
    using assms by (auto simp: entry_destination_def split: if_splits sum.splits)
  have "segments rel = segments (bytes_text bs)" "\<forall>seg\<in>set (segments (bytes_text bs)). plain_segment seg"
    using try_from_Inr [OF rel(1)] segments_join(1) by auto
  moreover have "segments (bytes_text bs) \<noteq> []" using try_from_Inr(1) [OF rel(1)] rel(2) by auto
  ultimately show ?thesis using rel(3) by simp
qed

lemma read_streamed_entry_path:
  assumes "read_streamed_entry v r = Inr (Some (e, r'))"
  shows "se_path e \<noteq> [] \<and> (\<forall>seg\<in>set (se_path e). plain_segment seg)"
proof -
  obtain first rest where r: "r = first # rest" using assms by (cases r) (auto simp: read_streamed_entry_def)
  obtain path_bytes where "entry_destination path_bytes = Inr (se_path e)"
    using assms unfolding r read_streamed_entry_def by (auto simp: rbind_Inr)
  then show ?thesis by (rule entry_destination_Inr)
qed

declare restore_loop.simps [simp del]

lemma restore_loop_ok: "tree_ok t \<Longrightarrow> restore_loop v t r = Inr t' \<Longrightarrow> tree_ok t'"
proof (induction v t r rule: restore_loop.induct)
  case (1 v t r)
  show ?case
  proof (cases "read_streamed_entry v r")
    case (Inl e)
    then show ?thesis using 1(3) by (simp add: restore_loop.simps)
  next
    case (Inr o1)
    show ?thesis
    proof (cases o1)
      case None
      then show ?thesis using 1(2,3) Inr by (simp add: restore_loop.simps)
    next
      case (Some er)
      obtain e r1 where er: "er = (e, r1)" by (cases er)
      then have read: "read_streamed_entry v r = Inr (Some (e, r1))" using Inr Some by simp
      then obtain t1 r2 where s: "restore_entry t e r1 = Inr (t1, r2)" "restore_loop v t1 r2 = Inr t'"
        using 1(3) by (subst (asm) restore_loop.simps) (auto split: sum.splits prod.splits)
      have "tree_ok t1" using restore_entry_ok [OF 1(2) _ _ s(1)] read_streamed_entry_path [OF read] by blast
      then show ?thesis using 1(1) [OF Inr Some er [symmetric] s(1) refl] s(2) by blast
    qed
  qed
qed

text \<open>C9. Restoring a directory output into its private tree cannot leave it, whatever bytes the blob holds: the loop ends
  with an error or with a tree in which every path consists of plain names and every proper parent of a file, link or
  directory is a real directory, never a link.\<close>

theorem restored_tree_confined:
  "case restore_directory_blob bytes of Inl e \<Rightarrow> True | Inr t \<Rightarrow> tree_ok t"
proof (cases "restore_directory_blob bytes")
  case (Inr t)
  then have "\<exists>v r. restore_loop v Map.empty r = Inr t"
    by (auto simp: restore_directory_blob_def rbind_Inr Let_def split: if_splits)
  moreover have "tree_ok Map.empty" by (simp add: tree_ok_def)
  ultimately show ?thesis using Inr restore_loop_ok by fastforce
qed simp

section \<open>Round trips\<close>

text \<open>The entries a capture produces.\<close>

definition entry_ok :: "(string \<rightharpoonup> byte list) \<Rightarrow> directory_entry \<Rightarrow> bool" where
  "entry_ok files e \<longleftrightarrow>
     de_rel e \<noteq> [] \<and> try_from (de_rel e) = Inr (de_rel e) \<and> valid_utf8 (text_bytes (de_rel e))
     \<and> length (de_rel e) \<le> MAX_DIRECTORY_PATH_BYTES \<and> de_mode e < 2 ^ 32
     \<and> (case de_content e of
          FileContent path len \<Rightarrow> de_kind e = FileEntry \<and> len < 2 ^ 64 \<and> (\<exists>bs. files path = Some bs \<and> length bs \<ge> len)
        | BytesContent target \<Rightarrow> de_kind e \<noteq> FileEntry \<and> valid_utf8 target \<and> length target \<le> MAX_DIRECTORY_PATH_BYTES)"

definition entry_bytes :: "(string \<rightharpoonup> byte list) \<Rightarrow> directory_entry \<Rightarrow> byte list" where
  "entry_bytes files e = (case de_content e of FileContent path len \<Rightarrow> take len (the (files path)) | BytesContent bs \<Rightarrow> bs)"

definition entry_node :: "(string \<rightharpoonup> byte list) \<Rightarrow> directory_entry \<Rightarrow> node" where
  "entry_node files e =
     (if de_kind e = FileEntry then FileNode (max (de_mode e) 0x100 mod 0x1000) (entry_bytes files e)
      else LinkNode (bytes_text (entry_bytes files e)))"

abbreviation entry_path :: "directory_entry \<Rightarrow> string list" where
  "entry_path e \<equiv> segments (de_rel e)"

lemma read_write_entry:
  assumes ok: "entry_ok files e"
  shows "\<exists>bs. write_entry files e = Inr bs \<and>
    read_streamed_entry False (bs @ r) = Inr (Some (\<lparr>se_kind = de_kind e, se_mode = de_mode e, se_content_len = length (entry_bytes files e),
      se_path = entry_path e\<rparr>, entry_bytes files e @ r))"
proof -
  let ?len = "length (entry_bytes files e)"
  have content: "write_content files (de_content e) = Inr (entry_bytes files e)" "content_len (de_content e) = ?len" "?len < 256 ^ 8"
    using ok by (auto simp: entry_ok_def write_content_def content_len_def entry_bytes_def MAX_DIRECTORY_PATH_BYTES_def machine_simps
        split: entry_content.splits)
  have path: "length (de_rel e) \<le> MAX_DIRECTORY_PATH_BYTES" "length (de_rel e) < 256 ^ 4" "length (de_rel e) \<le> u32_max" "de_mode e < 256 ^ 4"
    using ok by (simp_all add: entry_ok_def MAX_DIRECTORY_PATH_BYTES_def machine_simps)
  have kind: "kind_from_u8 (kind_byte (de_kind e)) = Some (de_kind e)"
    by (cases "de_kind e") (simp_all add: kind_from_u8_def kind_byte_def)
  have dest: "entry_destination (text_bytes (de_rel e)) = Inr (entry_path e)"
    using ok by (simp add: entry_ok_def entry_destination_def)
  define bs where "bs = [kind_byte (de_kind e)] @ le_bytes 4 (length (de_rel e)) @ le_bytes 4 (de_mode e) @ le_bytes 8 ?len
    @ text_bytes (de_rel e) @ entry_bytes files e"
  have "write_entry files e = Inr bs"
    using path(3) by (simp add: write_entry_def content bs_def Let_def)
  moreover have "read_streamed_entry False (bs @ r) = Inr (Some (\<lparr>se_kind = de_kind e, se_mode = de_mode e, se_content_len = ?len,
      se_path = entry_path e\<rparr>, entry_bytes files e @ r))"
    using path(1) by (simp add: bs_def read_streamed_entry_def read_kind_and_length_def kind read_u32_def read_u64_def read_bytes_def
        le_value_bytes [OF path(2)] le_value_bytes [OF path(4)] le_value_bytes [OF content(3)] dest ensure_def)
  ultimately show ?thesis by blast
qed

text \<open>No path of a list is a parent of another.\<close>

definition prefix_free :: "string list list \<Rightarrow> bool" where
  "prefix_free ps \<longleftrightarrow> distinct ps \<and> (\<forall>p\<in>set ps. \<forall>q\<in>set ps. prefix p q \<longrightarrow> p = q)"

definition tree_of :: "(string list \<times> node) list \<Rightarrow> tree" where
  "tree_of ns p = (case map_of ns p of
     Some n \<Rightarrow> Some n
   | None \<Rightarrow> if p \<noteq> [] \<and> (\<exists>q\<in>fst ` set ns. strict_prefix p q) then Some DirNode else None)"

lemma prepare_parent_succeeds:
  "\<forall>k\<in>{1..length cs}. t (current @ take k cs) \<in> {None, Some DirNode} \<Longrightarrow> \<exists>t'. prepare_parent t current cs = Inr t'"
proof (induction cs arbitrary: t current)
  case (Cons c cs)
  have head: "t (current @ [c]) \<in> {None, Some DirNode}" using Cons.prems [rule_format, of 1] by simp
  have tail: "t ((current @ [c]) @ take k cs) \<in> {None, Some DirNode}" if "k \<in> {1..length cs}" for k
    using Cons.prems [rule_format, of "Suc k"] that by simp
  show ?case
  proof (cases "t (current @ [c])")
    case None
    have "\<forall>k\<in>{1..length cs}. (t(current @ [c] \<mapsto> DirNode)) ((current @ [c]) @ take k cs) \<in> {None, Some DirNode}" using tail by auto
    from Cons.IH [OF this] show ?thesis using None by (simp add: Let_def del: fun_upd_apply)
  next
    case (Some n)
    then show ?thesis using Cons.IH [of t "current @ [c]"] tail head by (simp add: Let_def)
  qed
qed simp

lemma tree_of_next:
  assumes free: "prefix_free (map fst ns @ [q])" and "q \<noteq> []"
  shows "\<exists>t1. prepare_parent (tree_of ns) [] (butlast q) = Inr t1 \<and> t1 q = None \<and> t1(q \<mapsto> n) = tree_of (ns @ [(q, n)])"
proof -
  have no_file: "map_of ns p = None" if "prefix p q" for p
  proof (rule ccontr)
    assume "map_of ns p \<noteq> None"
    then have "p \<in> set (map fst ns)" by (simp add: map_of_eq_None_iff)
    then show False using free that by (auto simp: prefix_free_def)
  qed
  have last_free: "\<not> strict_prefix q p" if "p \<in> fst ` set ns" for p
    using free that by (auto simp: prefix_free_def strict_prefix_def)
  have above: "tree_of ns p \<in> {None, Some DirNode}" if "p \<noteq> []" "prefix p (butlast q)" for p
  proof -
    have "prefix p q" using that prefix_butlast [OF assms(2)] by (simp add: strict_prefix_def)
    then show ?thesis using no_file by (simp add: tree_of_def)
  qed
  obtain t1 where t1: "prepare_parent (tree_of ns) [] (butlast q) = Inr t1"
  proof -
    have "tree_of ns ([] @ take k (butlast q)) \<in> {None, Some DirNode}" if k: "k \<in> {1..length (butlast q)}" for k
    proof -
      have "length (take k (butlast q)) = k" "0 < k" using k by auto
      then have "take k (butlast q) \<noteq> []" by (metis length_0_conv less_numeral_extra(3))
      then show ?thesis using above [OF _ take_is_prefix] by simp
    qed
    then show ?thesis using prepare_parent_succeeds [of "butlast q" "tree_of ns" "[]"] that by blast
  qed
  have eq: "t1 = (\<lambda>p. if p \<noteq> [] \<and> strict_prefix p q then Some DirNode else tree_of ns p)" using prepare_path [OF t1 assms(2)] by blast
  have at_q: "t1 q = None" using no_file [of q] last_free by (auto simp: eq tree_of_def)
  have "(t1(q \<mapsto> n)) p = tree_of (ns @ [(q, n)]) p" for p
  proof (cases "p = q")
    case True
    then show ?thesis using no_file [of q] by (simp add: tree_of_def map_add_def)
  next
    case False
    then have "map_of (ns @ [(q, n)]) p = map_of ns p" by (cases "map_of ns p") (simp_all add: map_add_def)
    then show ?thesis using False no_file [of p] by (auto simp: eq tree_of_def strict_prefix_def split: option.splits)
  qed
  then show ?thesis using t1 at_q by blast
qed

lemma entry_path_ok: "entry_ok files e \<Longrightarrow> entry_path e \<noteq> []"
  using try_from_Inr(1) [of "de_rel e" "de_rel e"] by (auto simp: entry_ok_def)

lemma restore_written_entry:
  assumes ok: "entry_ok files e" and free: "prefix_free (map fst ns @ [entry_path e])"
  shows "restore_entry (tree_of ns) \<lparr>se_kind = de_kind e, se_mode = de_mode e, se_content_len = length (entry_bytes files e),
      se_path = entry_path e\<rparr> (entry_bytes files e @ r) = Inr (tree_of (ns @ [(entry_path e, entry_node files e)]), r)"
proof -
  obtain t1 where t1: "prepare_parent (tree_of ns) [] (butlast (entry_path e)) = Inr t1" "t1 (entry_path e) = None"
      "t1(entry_path e \<mapsto> entry_node files e) = tree_of (ns @ [(entry_path e, entry_node files e)])"
    using tree_of_next [OF free entry_path_ok [OF ok]] by blast
  show ?thesis
  proof (cases "de_kind e")
    case FileEntry
    then show ?thesis using t1 by (simp add: restore_entry_def copy_content_def entry_node_def Let_def)
  next
    case SymlinkFile
    then have "length (entry_bytes files e) \<le> MAX_DIRECTORY_PATH_BYTES \<and> valid_utf8 (entry_bytes files e)"
      using ok by (auto simp: entry_ok_def entry_bytes_def split: entry_content.splits)
    then show ?thesis using SymlinkFile t1
      by (simp add: restore_entry_def restore_symlink_def read_bytes_def create_node_def entry_node_def)
  next
    case SymlinkDir
    then have "length (entry_bytes files e) \<le> MAX_DIRECTORY_PATH_BYTES \<and> valid_utf8 (entry_bytes files e)"
      using ok by (auto simp: entry_ok_def entry_bytes_def split: entry_content.splits)
    then show ?thesis using SymlinkDir t1
      by (simp add: restore_entry_def restore_symlink_def read_bytes_def create_node_def entry_node_def)
  qed
qed

lemma prefix_free_append: "prefix_free (xs @ ys) \<Longrightarrow> prefix_free xs"
  by (simp add: prefix_free_def)

lemma restore_written_entries:
  "\<forall>e\<in>set es. entry_ok files e \<Longrightarrow> prefix_free (map fst ns @ map entry_path es) \<Longrightarrow>
   \<exists>bs. write_entries files es = Inr bs \<and>
     restore_loop False (tree_of ns) bs = Inr (tree_of (ns @ map (\<lambda>e. (entry_path e, entry_node files e)) es))"
proof (induction es arbitrary: ns)
  case Nil
  then show ?case by (simp add: restore_loop.simps read_streamed_entry_def)
next
  case (Cons e es)
  let ?ns = "ns @ [(entry_path e, entry_node files e)]"
  have free: "prefix_free (map fst ns @ [entry_path e])" "prefix_free (map fst ?ns @ map entry_path es)"
    using Cons.prems(2) prefix_free_append [of "map fst ns @ [entry_path e]" "map entry_path es"] by simp_all
  obtain rest where rest: "write_entries files es = Inr rest"
      "restore_loop False (tree_of ?ns) rest = Inr (tree_of (?ns @ map (\<lambda>e. (entry_path e, entry_node files e)) es))"
    using Cons.IH [OF _ free(2)] Cons.prems(1) by auto
  obtain bs where bs: "write_entry files e = Inr bs"
      "read_streamed_entry False (bs @ rest) = Inr (Some (\<lparr>se_kind = de_kind e, se_mode = de_mode e,
        se_content_len = length (entry_bytes files e), se_path = entry_path e\<rparr>, entry_bytes files e @ rest))"
    using read_write_entry [of files e rest] Cons.prems(1) by auto
  have "restore_loop False (tree_of ns) (bs @ rest) = restore_loop False (tree_of ?ns) rest"
    using Cons.prems(1) restore_written_entry [OF _ free(1), of files rest]
    by (subst restore_loop.simps) (simp add: bs(2))
  then show ?case using rest bs(1) by simp
qed

lemma tree_of_facts:
  assumes "distinct (map fst ns)" and files: "\<forall>n\<in>snd ` set ns. n \<noteq> DirNode"
  shows "\<And>p n. (p, n) \<in> set ns \<Longrightarrow> tree_of ns p = Some n"
    and "\<And>p. prefix_free (map fst ns) \<Longrightarrow> tree_of ns p = Some DirNode \<longleftrightarrow> p \<noteq> [] \<and> (\<exists>q\<in>fst ` set ns. strict_prefix p q)"
    and "\<And>p n. tree_of ns p = Some n \<Longrightarrow> n = DirNode \<or> (p, n) \<in> set ns"
proof -
  show "tree_of ns p = Some n" if "(p, n) \<in> set ns" for p n
    using that assms(1) by (simp add: tree_of_def)
  show "n = DirNode \<or> (p, n) \<in> set ns" if "tree_of ns p = Some n" for p n
    using that map_of_SomeD [of ns p] by (auto simp: tree_of_def split: option.splits if_splits)
  show "tree_of ns p = Some DirNode \<longleftrightarrow> p \<noteq> [] \<and> (\<exists>q\<in>fst ` set ns. strict_prefix p q)" if free: "prefix_free (map fst ns)" for p
  proof (cases "map_of ns p")
    case (Some n)
    then have mem: "(p, n) \<in> set ns" by (rule map_of_SomeD)
    have "n \<noteq> DirNode" using files mem by force
    moreover have "\<not> strict_prefix p q" if "q \<in> fst ` set ns" for q
      using free mem that by (force simp: prefix_free_def strict_prefix_def)
    ultimately show ?thesis using Some by (auto simp: tree_of_def)
  qed (simp add: tree_of_def)
qed

lemma magics_differ: "DIRECTORY_BLOB_MAGIC \<noteq> DIRECTORY_BLOB_V1_MAGIC"
  by (simp add: DIRECTORY_BLOB_MAGIC_def DIRECTORY_BLOB_V1_MAGIC_def text_bytes_def)

text \<open>C14. A captured directory comes back as it was. For entries with normal paths, none the parent of another, whose files
  still have their listed contents, writing the blob succeeds, the result is recognized as a directory blob, and restoring
  it gives each file its bytes and permission bits (readable at least by its owner), each link its target, a directory for
  every proper parent, and nothing else.\<close>

theorem directory_blob_roundtrip:
  assumes "list_all (entry_ok files) entries" and "prefix_free (map entry_path entries)"
  shows "\<exists>bytes t. write_directory_blob files entries = Inr bytes \<and> is_directory_blob bytes \<and> restore_directory_blob bytes = Inr t
    \<and> (\<forall>e\<in>set entries. t (entry_path e) = Some (entry_node files e))
    \<and> (\<forall>p. t p = Some DirNode \<longleftrightarrow> p \<noteq> [] \<and> (\<exists>e\<in>set entries. strict_prefix p (entry_path e)))
    \<and> (\<forall>p n. t p = Some n \<longrightarrow> n = DirNode \<or> (\<exists>e\<in>set entries. p = entry_path e))"
proof -
  define es where "es = sort_key de_rel entries"
  define ns where "ns = map (\<lambda>e. (entry_path e, entry_node files e)) es"
  have es: "set es = set entries" "\<forall>e\<in>set es. entry_ok files e" using assms(1) by (simp_all add: es_def list_all_iff)
  have "distinct (map entry_path es)" using assms(2) by (simp add: prefix_free_def distinct_map es_def)
  then have free: "prefix_free (map entry_path es)" using assms(2) es(1) by (simp add: prefix_free_def)
  then have pf: "prefix_free (map fst ns)" and dist: "distinct (map fst ns)" by (simp_all add: ns_def comp_def prefix_free_def)
  obtain bs where bs: "write_entries files es = Inr bs" "restore_loop False (tree_of []) bs = Inr (tree_of ns)"
    using restore_written_entries [OF es(2), of "[]"] free by (auto simp: ns_def)
  have "tree_of [] = Map.empty" by (intro ext) (simp add: tree_of_def)
  then have "restore_directory_blob (DIRECTORY_BLOB_MAGIC @ bs) = Inr (tree_of ns)"
    using bs(2) magics_differ by (simp add: restore_directory_blob_def read_bytes_def)
  moreover have "write_directory_blob files entries = Inr (DIRECTORY_BLOB_MAGIC @ bs)"
    using bs(1) by (simp add: write_directory_blob_def es_def)
  moreover have "is_directory_blob (DIRECTORY_BLOB_MAGIC @ bs)" by (simp add: is_directory_blob_def)
  moreover have nodes: "\<forall>n\<in>snd ` set ns. n \<noteq> DirNode" by (auto simp: ns_def entry_node_def)
  note facts = tree_of_facts [OF dist nodes]
  have keys: "fst ` set ns = entry_path ` set entries" using es(1) by (auto simp: ns_def image_image)
  have "\<forall>e\<in>set entries. tree_of ns (entry_path e) = Some (entry_node files e)"
    using facts(1) es(1) by (auto simp: ns_def)
  moreover have "\<forall>p. tree_of ns p = Some DirNode \<longleftrightarrow> p \<noteq> [] \<and> (\<exists>e\<in>set entries. strict_prefix p (entry_path e))"
    using facts(2) [OF pf] keys by simp
  moreover have "\<forall>p n. tree_of ns p = Some n \<longrightarrow> n = DirNode \<or> (\<exists>e\<in>set entries. p = entry_path e)"
  proof (intro allI impI)
    fix p n assume "tree_of ns p = Some n"
    then have "n = DirNode \<or> p \<in> fst ` set ns" using facts(3) by force
    then show "n = DirNode \<or> (\<exists>e\<in>set entries. p = entry_path e)" using keys by auto
  qed
  ultimately show ?thesis by (intro exI [of _ "DIRECTORY_BLOB_MAGIC @ bs"] exI [of _ "tree_of ns"] conjI)
qed

lemma file_blob_roundtrip: "restore_file_blob (write_file_blob mode content) = Inr (FileNode (mode mod 0x200) content)"
proof -
  have "le_value (le_bytes 4 (mode mod 512)) = mode mod 512"
  proof (rule le_value_bytes)
    have "mode mod 512 < 512" by simp
    then show "mode mod 512 < 256 ^ 4" by (rule less_trans) simp
  qed
  then show ?thesis by (simp add: restore_file_blob_def write_file_blob_def file_blob_header_def decode_file_blob_def Let_def)
qed

definition example_entries :: "directory_entry list" where
  "example_entries =
     [\<lparr>de_rel = ''b'', de_kind = SymlinkFile, de_mode = 0x1FF, de_content = BytesContent (text_bytes ''a/x'')\<rparr>,
      \<lparr>de_rel = ''a/x'', de_kind = FileEntry, de_mode = 0x1A4, de_content = FileContent ''out/a/x'' 2\<rparr>]"

theorem directory_blob_roundtrip_witness:
  "\<exists>bytes t. write_directory_blob [''out/a/x'' \<mapsto> [104, 105]] example_entries = Inr bytes \<and> restore_directory_blob bytes = Inr t
    \<and> t [''a'', ''x''] = Some (FileNode 0x1A4 [104, 105]) \<and> t [''b''] = Some (LinkNode ''a/x'') \<and> t [''a''] = Some DirNode"
proof -
  let ?files = "[''out/a/x'' \<mapsto> [104, 105]] :: string \<rightharpoonup> byte list"
  have paths: "segments ''b'' = [''b'']" "segments ''a/x'' = [''a'', ''x'']" by code_simp+
  have ok: "list_all (entry_ok ?files) example_entries"
    by (simp add: example_entries_def entry_ok_def try_from_eq paths starts_with_def valid_utf8_text is_str_ascii is_ascii_def MAX_DIRECTORY_PATH_BYTES_def)
  have free: "prefix_free (map entry_path example_entries)" by (simp add: example_entries_def paths prefix_free_def)
  obtain bytes t where r: "write_directory_blob ?files example_entries = Inr bytes" "restore_directory_blob bytes = Inr t"
      "\<forall>e\<in>set example_entries. t (entry_path e) = Some (entry_node ?files e)"
      "\<forall>p. t p = Some DirNode \<longleftrightarrow> p \<noteq> [] \<and> (\<exists>e\<in>set example_entries. strict_prefix p (entry_path e))"
    using directory_blob_roundtrip [OF ok free] by (elim exE conjE)
  have "t [''a'', ''x''] = Some (FileNode 0x1A4 [104, 105])" "t [''b''] = Some (LinkNode ''a/x'')"
    using r(3) by (simp_all add: example_entries_def paths entry_node_def entry_bytes_def)
  moreover have "t [''a''] = Some DirNode" using r(4) by (simp add: example_entries_def paths strict_prefix_def)
  ultimately show ?thesis using r(1,2) by blast
qed

section \<open>Restoring in place\<close>

text \<open>When the destination exists, or the system cannot rename without replacing, the entries are written below the emptied
  destination itself. The file system maps absolute paths to nodes; the system follows the links in a path, at most \<open>hops\<close>
  of them.\<close>

type_synonym fs = "string list \<rightharpoonup> node"

definition path_names :: "string \<Rightarrow> string list" where
  "path_names p = filter (\<lambda>seg. seg \<noteq> '''' \<and> seg \<noteq> ''.'') (split_on CHR ''/'' p)"

fun follow_path :: "nat \<Rightarrow> fs \<Rightarrow> string list \<Rightarrow> string list \<Rightarrow> string list option" where
  "follow_path hops f current [] = Some current"
| "follow_path hops f current (c # cs) =
     (if c = ''..'' then follow_path hops f (butlast current) cs
      else case f (current @ [c]) of
             None \<Rightarrow> None
           | Some DirNode \<Rightarrow> follow_path hops f (current @ [c]) cs
           | Some (LinkNode target) \<Rightarrow>
               (case hops of
                  0 \<Rightarrow> None
                | Suc left \<Rightarrow> follow_path left f (if is_absolute target then [] else current) (path_names target @ cs))
           | Some (FileNode mode bytes) \<Rightarrow> if cs = [] then Some (current @ [c]) else None)"

definition is_dir_at :: "nat \<Rightarrow> fs \<Rightarrow> string list \<Rightarrow> bool" where
  "is_dir_at hops f path =
     (case follow_path hops f [] path of None \<Rightarrow> False | Some p \<Rightarrow> p = [] \<or> f p = Some DirNode)"

fun create_dir_all :: "nat \<Rightarrow> fs \<Rightarrow> string list \<Rightarrow> string list \<Rightarrow> blob_error + fs" where
  "create_dir_all hops f made [] = Inr f"
| "create_dir_all hops f made (c # cs) =
     (if is_dir_at hops f (made @ [c]) then create_dir_all hops f (made @ [c]) cs
      else case follow_path hops f [] made of
             None \<Rightarrow> Inl ParentNotDirectory
           | Some d \<Rightarrow> if f (d @ [c]) \<noteq> None then Inl ParentNotDirectory
                       else create_dir_all hops (f(d @ [c] \<mapsto> DirNode)) (made @ [c]) cs)"

text \<open>\<open>restore_file::restore\<close>: a temporary file beside the destination, renamed over it.\<close>

definition restore_file :: "nat \<Rightarrow> fs \<Rightarrow> string list \<Rightarrow> byte list \<Rightarrow> nat \<Rightarrow> nat \<Rightarrow> blob_error + fs \<times> byte list" where
  "restore_file hops f path r mode expected =
     (let parent = butlast path
      in rbind (if is_dir_at hops f parent then Inr f else create_dir_all hops f [] parent) (\<lambda>f.
         rbind (copy_content expected r) (\<lambda>(content, r).
           case follow_path hops f [] parent of
             None \<Rightarrow> Inl ParentNotDirectory
           | Some d \<Rightarrow> if f (d @ [last path]) = Some DirNode then Inl AlreadyExists
                       else Inr (f(d @ [last path] \<mapsto> FileNode (mode mod 0x1000) content), r))))"

definition restore_link :: "nat \<Rightarrow> fs \<Rightarrow> string list \<Rightarrow> streamed_entry \<Rightarrow> byte list \<Rightarrow> blob_error + fs \<times> byte list" where
  "restore_link hops f root e r =
     (let path = root @ se_path e
      in rbind (create_dir_all hops f [] (butlast path)) (\<lambda>f.
         if se_content_len e > MAX_DIRECTORY_PATH_BYTES then Inl TargetTooLong
         else rbind (read_bytes (se_content_len e) r) (\<lambda>(target, r).
           if \<not> valid_utf8 target then Inl NotUtf8
           else case follow_path hops f [] (butlast path) of
                  None \<Rightarrow> Inl ParentNotDirectory
                | Some d \<Rightarrow> rbind (create_node f (d @ [last path]) (LinkNode (bytes_text target))) (\<lambda>f. Inr (f, r)))))"

definition restore_streamed_entry :: "nat \<Rightarrow> fs \<Rightarrow> string list \<Rightarrow> streamed_entry \<Rightarrow> byte list \<Rightarrow> blob_error + fs \<times> byte list" where
  "restore_streamed_entry hops f root e r =
     (case se_kind e of
        FileEntry \<Rightarrow> restore_file hops f (root @ se_path e) r (max (se_mode e) 0x100) (se_content_len e)
      | _ \<Rightarrow> restore_link hops f root e r)"

definition prepare_directory_restore :: "fs \<Rightarrow> string list \<Rightarrow> fs" where
  "prepare_directory_restore f root = (\<lambda>p. if p = root then Some DirNode else if strict_prefix root p then None else f p)"

lemma restore_streamed_entry_shorter: "restore_streamed_entry hops f root e r = Inr (f', r') \<Longrightarrow> length r' \<le> length r"
proof -
  have link: "restore_link hops f root e r = Inr (f', r') \<Longrightarrow> length r' \<le> length r"
    by (auto simp: restore_link_def Let_def rbind_Inr dest: read_bytes_shorter split: if_splits option.splits)
  have plain: "restore_file hops f path r mode n = Inr (f', r') \<Longrightarrow> length r' \<le> length r" for path mode n
    by (auto simp: restore_file_def Let_def rbind_Inr dest!: copy_content_Inr split: option.splits if_splits)
  show "restore_streamed_entry hops f root e r = Inr (f', r') \<Longrightarrow> length r' \<le> length r"
    using link plain by (cases "se_kind e") (simp_all add: restore_streamed_entry_def)
qed

function restore_in_place_loop :: "nat \<Rightarrow> bool \<Rightarrow> fs \<Rightarrow> string list \<Rightarrow> byte list \<Rightarrow> blob_error + fs" where
  "restore_in_place_loop hops version_one f root r =
     (case read_streamed_entry version_one r of
        Inl e \<Rightarrow> Inl e
      | Inr None \<Rightarrow> Inr f
      | Inr (Some (entry, r1)) \<Rightarrow>
          (case restore_streamed_entry hops f root entry r1 of
             Inl e \<Rightarrow> Inl e
           | Inr (f', r2) \<Rightarrow> restore_in_place_loop hops version_one f' root r2))"
  by auto

termination restore_in_place_loop
  by (relation "measure (\<lambda>(h, v, f, root, r). length r)")
    (auto dest!: read_streamed_entry_shorter restore_streamed_entry_shorter)

definition restore_in_place :: "nat \<Rightarrow> fs \<Rightarrow> string list \<Rightarrow> byte list \<Rightarrow> blob_error + fs" where
  "restore_in_place hops f root r =
     rbind (read_bytes (length DIRECTORY_BLOB_MAGIC) r) (\<lambda>(magic, r).
       let version_one = (magic = DIRECTORY_BLOB_V1_MAGIC)
       in if \<not> version_one \<and> magic \<noteq> DIRECTORY_BLOB_MAGIC then Inl MissingMagic
          else restore_in_place_loop hops version_one (prepare_directory_restore f root) root r)"

declare restore_in_place_loop.simps [simp del]

text \<open>A path of real directories, on which nothing is followed.\<close>

definition real_dir :: "fs \<Rightarrow> string list \<Rightarrow> bool" where
  "real_dir f d \<longleftrightarrow> list_all (\<lambda>n. d ! n \<noteq> ''..'' \<and> f (take (Suc n) d) = Some DirNode) [0..<length d]"

lemma real_dir_snoc: "real_dir f (d @ [c]) \<longleftrightarrow> real_dir f d \<and> c \<noteq> ''..'' \<and> f (d @ [c]) = Some DirNode"
  by (auto simp: real_dir_def list_all_iff nth_append)

lemma real_dir_append: "real_dir f (d @ cs) \<Longrightarrow> real_dir f d"
  by (induction cs rule: rev_induct) (auto simp: real_dir_snoc simp flip: append_assoc)

lemma follow_real: "real_dir f (current @ cs) \<Longrightarrow> follow_path hops f current (cs @ rest) = follow_path hops f (current @ cs) rest"
proof (induction cs arbitrary: current)
  case (Cons c cs)
  then have "real_dir f (current @ [c])" using real_dir_append [of f "current @ [c]" cs] by simp
  then show ?case using Cons.IH [of "current @ [c]"] Cons.prems by (simp add: real_dir_snoc)
qed simp

lemma follow_real_all: "real_dir f d \<Longrightarrow> follow_path hops f [] d = Some d"
  using follow_real [of f "[]" d hops "[]"] by simp

lemma is_dir_at_real: "real_dir f d \<Longrightarrow> is_dir_at hops f d"
  by (cases d rule: rev_cases) (auto simp: is_dir_at_def follow_real_all real_dir_snoc)

lemma create_dir_all_real: "real_dir f (made @ cs) \<Longrightarrow> create_dir_all hops f made cs = Inr f"
proof (induction cs arbitrary: made)
  case (Cons c cs)
  then have "real_dir f (made @ [c])" using real_dir_append [of f "made @ [c]" cs] by simp
  then show ?case using Cons by (simp add: is_dir_at_real)
qed simp

lemma real_dir_same:
  assumes "real_dir f d" and "\<And>p. prefix p d \<Longrightarrow> p \<noteq> [] \<Longrightarrow> g p = f p"
  shows "real_dir g d"
  using assms
proof (induction d rule: rev_induct)
  case (snoc c d)
  then show ?case by (simp add: real_dir_snoc)
qed (simp add: real_dir_def)

lemma prepared_outside: "\<not> prefix root p \<Longrightarrow> prepare_directory_restore f root p = f p"
  by (auto simp: prepare_directory_restore_def)

lemma prepared_root: "real_dir f root \<Longrightarrow> real_dir (prepare_directory_restore f root) root"
proof (cases root rule: rev_cases)
  case (snoc d c)
  assume "real_dir f root"
  then have "real_dir f d" "c \<noteq> ''..''" by (simp_all add: snoc real_dir_snoc)
  moreover have "prepare_directory_restore f root p = f p" if "prefix p d" for p
  proof (rule prepared_outside)
    show "\<not> prefix root p" using prefix_length_le [OF that] prefix_length_le [of root p] by (auto simp: snoc)
  qed
  ultimately show ?thesis using real_dir_same [of f d] by (simp add: snoc real_dir_snoc prepare_directory_restore_def)
qed (simp add: real_dir_def)

text \<open>A link below the destination is created with whatever target the blob says; a file below it is written where it points.\<close>

lemma link_restored:
  assumes "real_dir f root" and "f (root @ [name]) = None" and "se_kind e \<noteq> FileEntry" and "se_path e = [name]"
    and "se_content_len e = length bs" and "length bs \<le> MAX_DIRECTORY_PATH_BYTES" and "valid_utf8 bs"
  shows "restore_streamed_entry hops f root e (bs @ r) = Inr (f(root @ [name] \<mapsto> LinkNode (bytes_text bs)), r)"
proof -
  have "restore_link hops f root e (bs @ r) = Inr (f(root @ [name] \<mapsto> LinkNode (bytes_text bs)), r)"
    using assms create_dir_all_real [of f "[]" root hops] follow_real_all [OF assms(1), of hops]
    by (simp add: restore_link_def Let_def butlast_append read_bytes_def create_node_def)
  then show ?thesis using assms(3) by (cases "se_kind e") (simp_all add: restore_streamed_entry_def)
qed

lemma file_through_link:
  assumes "real_dir f root" and "name \<noteq> ''..''" and "f (root @ [name]) = Some (LinkNode target)"
    and "is_absolute target" and "real_dir f (path_names target)" and "f (path_names target @ [x]) \<noteq> Some DirNode"
    and "se_kind e = FileEntry" and "se_path e = [name, x]" and "se_content_len e = length bs"
  shows "restore_streamed_entry (Suc hops) f root e (bs @ r)
    = Inr (f(path_names target @ [x] \<mapsto> FileNode (max (se_mode e) 0x100 mod 0x1000) bs), r)"
proof -
  have "follow_path (Suc hops) f [] (root @ [name]) = follow_path (Suc hops) f root [name]"
    using follow_real [of f "[]" root "Suc hops" "[name]"] assms(1) by simp
  then have at: "follow_path (Suc hops) f [] (root @ [name]) = Some (path_names target)"
    using assms(2-4) follow_real_all [OF assms(5), of hops] by simp
  have "path_names target = [] \<or> f (path_names target) = Some DirNode"
    using assms(5) by (cases "path_names target" rule: rev_cases) (simp_all add: real_dir_snoc)
  then have "is_dir_at (Suc hops) f (root @ [name])" using at by (simp add: is_dir_at_def)
  then show ?thesis
    using at assms(6-9) by (simp add: restore_streamed_entry_def restore_file_def Let_def butlast_append copy_content_def del: follow_path.simps)
qed

text \<open>The bytes of a blob of two entries.\<close>

lemma two_entries:
  assumes "entry_ok files e1" and "entry_ok files e2" and "de_rel e1 \<le> de_rel e2"
  shows "\<exists>b1 b2. write_directory_blob files [e1, e2] = Inr (DIRECTORY_BLOB_MAGIC @ b1 @ b2)
    \<and> read_streamed_entry False (b1 @ b2) = Inr (Some (\<lparr>se_kind = de_kind e1, se_mode = de_mode e1,
        se_content_len = length (entry_bytes files e1), se_path = entry_path e1\<rparr>, entry_bytes files e1 @ b2))
    \<and> read_streamed_entry False b2 = Inr (Some (\<lparr>se_kind = de_kind e2, se_mode = de_mode e2,
        se_content_len = length (entry_bytes files e2), se_path = entry_path e2\<rparr>, entry_bytes files e2))"
proof -
  obtain b2 where b2: "write_entry files e2 = Inr b2"
      "read_streamed_entry False (b2 @ []) = Inr (Some (\<lparr>se_kind = de_kind e2, se_mode = de_mode e2,
         se_content_len = length (entry_bytes files e2), se_path = entry_path e2\<rparr>, entry_bytes files e2 @ []))"
    using read_write_entry [OF assms(2), of "[]"] by blast
  obtain b1 where b1: "write_entry files e1 = Inr b1"
      "read_streamed_entry False (b1 @ b2) = Inr (Some (\<lparr>se_kind = de_kind e1, se_mode = de_mode e1,
         se_content_len = length (entry_bytes files e1), se_path = entry_path e1\<rparr>, entry_bytes files e1 @ b2))"
    using read_write_entry [OF assms(1), of b2] by blast
  show ?thesis
    using b1 b2 assms(3) by (intro exI [of _ b1] exI [of _ b2]) (simp add: write_directory_blob_def)
qed

text \<open>The paths of a link and of a file directly below it.\<close>

lemma below_link_paths:
  assumes "entry_ok files link" and "entry_ok files e" and "entry_path link = [name]" and "entry_path e = [name, x]"
  shows "de_rel link \<le> de_rel e" and "name \<noteq> ''..''"
proof -
  have rel: "de_rel link = name" "de_rel e = name @ ''/'' @ x"
    using assms by (auto simp: entry_ok_def try_from_eq split: if_splits)
  have "a \<le> a @ b" for a b :: string by (induction a) simp_all
  then show "de_rel link \<le> de_rel e" unfolding rel .
  have "''..'' \<notin> set (split_on CHR ''/'' (de_rel link))"
    using assms(1) by (auto simp: entry_ok_def try_from_eq split: if_splits)
  then show "name \<noteq> ''..''" using segments_plain [of "de_rel link" name] assms(3) by (simp add: plain_segment_def)
qed

lemma private_refuses_below_link:
  assumes "entry_ok files link" and "entry_path link = [name]" and "entry_path e = [name, x]"
    and "de_content link = BytesContent (text_bytes target)"
    and "read_streamed_entry False (b1 @ b2) = Inr (Some (\<lparr>se_kind = de_kind link, se_mode = de_mode link,
        se_content_len = length (entry_bytes files link), se_path = entry_path link\<rparr>, entry_bytes files link @ b2))"
    and "read_streamed_entry False b2 = Inr (Some (\<lparr>se_kind = de_kind e, se_mode = de_mode e,
        se_content_len = length (entry_bytes files e), se_path = entry_path e\<rparr>, entry_bytes files e))"
  shows "restore_directory_blob (DIRECTORY_BLOB_MAGIC @ b1 @ b2) = Inl ParentNotDirectory"
proof -
  have link: "de_kind link \<noteq> FileEntry" "valid_utf8 (text_bytes target)" "length target \<le> MAX_DIRECTORY_PATH_BYTES"
    "entry_bytes files link = text_bytes target"
    using assms(1,4) by (simp_all add: entry_ok_def entry_bytes_def)
  have "restore_entry Map.empty \<lparr>se_kind = de_kind link, se_mode = de_mode link, se_content_len = length target, se_path = [name]\<rparr>
      (text_bytes target @ b2) = Inr ([[name] \<mapsto> LinkNode target], b2)"
    using link by (cases "de_kind link") (simp_all add: restore_entry_def restore_symlink_def read_bytes_def create_node_def)
  then have "restore_loop False Map.empty (b1 @ b2) = restore_loop False [[name] \<mapsto> LinkNode target] b2"
    by (subst restore_loop.simps) (simp add: assms(2,5) link)
  also have "\<dots> = Inl ParentNotDirectory"
    by (subst restore_loop.simps) (simp add: assms(3,6) restore_entry_def Let_def)
  finally show ?thesis using magics_differ by (simp add: restore_directory_blob_def read_bytes_def)
qed

lemma in_place_below_link:
  assumes "read_streamed_entry False (b1 @ b2) = Inr (Some (\<lparr>se_kind = de_kind link, se_mode = de_mode link,
        se_content_len = length (entry_bytes files link), se_path = entry_path link\<rparr>, entry_bytes files link @ b2))"
    and "read_streamed_entry False b2 = Inr (Some (\<lparr>se_kind = de_kind e, se_mode = de_mode e,
        se_content_len = length (entry_bytes files e), se_path = entry_path e\<rparr>, entry_bytes files e @ []))"
    and entries: "entry_ok files link" "entry_ok files e" "entry_path link = [name]" "entry_path e = [name, x]"
    and content: "de_content link = BytesContent (text_bytes target)" "de_kind e = FileEntry"
    and root: "real_dir f root"
    and outside: "is_absolute target" "real_dir f (path_names target)" "\<not> prefix root (path_names target)"
    and free: "f (path_names target @ [x]) \<noteq> Some DirNode" "\<not> prefix root (path_names target @ [x])"
  shows "\<exists>f'. restore_in_place (Suc hops) f root (DIRECTORY_BLOB_MAGIC @ b1 @ b2) = Inr f'
    \<and> f' (path_names target @ [x]) = Some (entry_node files e)"
proof -
  let ?out = "path_names target"
  let ?f0 = "prepare_directory_restore f root"
  let ?f1 = "?f0(root @ [name] \<mapsto> LinkNode target)"
  have link: "de_kind link \<noteq> FileEntry" "valid_utf8 (text_bytes target)" "length (text_bytes target) \<le> MAX_DIRECTORY_PATH_BYTES"
    "entry_bytes files link = text_bytes target"
    using entries(1) content(1) by (simp_all add: entry_ok_def entry_bytes_def)
  have root0: "real_dir ?f0 root" using root by (rule prepared_root)
  have clear: "?f0 (root @ [name]) = None" by (simp add: prepare_directory_restore_def strict_prefix_def)
  have root1: "real_dir ?f1 root" by (rule real_dir_same [OF root0]) (auto dest: prefix_length_le)
  have same: "?f1 p = f p" if "\<not> prefix root p" for p using that by (auto simp: prepared_outside)
  have dir1: "real_dir ?f1 ?out"
    using outside(3) prefix_order.trans by (intro real_dir_same [OF outside(2)] same) blast
  note step1 = link_restored [OF root0 clear, of "\<lparr>se_kind = de_kind link, se_mode = de_mode link,
      se_content_len = length (entry_bytes files link), se_path = entry_path link\<rparr>" "text_bytes target" "Suc hops" b2]
  note step2 = file_through_link [OF root1 below_link_paths(2) [OF entries] _ outside(1) dir1, of x "\<lparr>se_kind = de_kind e, se_mode = de_mode e,
      se_content_len = length (entry_bytes files e), se_path = entry_path e\<rparr>" "entry_bytes files e" hops "[]"]
  have "restore_in_place_loop (Suc hops) False ?f0 root (b1 @ b2) = restore_in_place_loop (Suc hops) False ?f1 root b2"
    using step1 link entries(3) by (subst restore_in_place_loop.simps) (simp add: assms(1))
  also have "\<dots> = restore_in_place_loop (Suc hops) False (?f1(?out @ [x] \<mapsto> entry_node files e)) root []"
    using step2 entries(4) content(2) free(1) same [OF free(2)] by (subst restore_in_place_loop.simps) (simp add: assms(2) entry_node_def)
  also have "\<dots> = Inr (?f1(?out @ [x] \<mapsto> entry_node files e))"
    by (simp add: restore_in_place_loop.simps read_streamed_entry_def)
  finally have "restore_in_place (Suc hops) f root (DIRECTORY_BLOB_MAGIC @ b1 @ b2) = Inr (?f1(?out @ [x] \<mapsto> entry_node files e))"
    using magics_differ by (simp add: restore_in_place_def read_bytes_def)
  then show ?thesis by auto
qed


definition escaping_link :: directory_entry where
  "escaping_link = \<lparr>de_rel = ''a'', de_kind = SymlinkDir, de_mode = 0x1FF, de_content = BytesContent (text_bytes ''/etc'')\<rparr>"

definition escaping_file :: directory_entry where
  "escaping_file = \<lparr>de_rel = ''a/x'', de_kind = FileEntry, de_mode = 0x1A4, de_content = FileContent ''p'' 1\<rparr>"

definition escaping_fs :: fs where
  "escaping_fs = [[''etc''] \<mapsto> DirNode, [''etc'', ''x''] \<mapsto> FileNode 0x180 [0], [''out''] \<mapsto> DirNode]"


end
