(* ===== verification/Network_Filter.thy ===== *)
theory Network_Filter
  imports Once_Prelude "HOL-Library.Word"
begin

text \<open>
  The seccomp program that denies an action the network: \<open>crates/once-core/src/network/program.rs\<close>, with
  the evaluator of classic BPF its tests use (\<open>network/tests.rs\<close>). Words are 32 bits wide; a program counter
  or a load offset the evaluator does not know is a panic (\<open>None\<close>). Installing the program is a sequence of
  system calls and is not modelled; the system call numbers come from \<open>libc\<close> and are arguments.
\<close>

unbundle bit_operations_syntax

type_synonym u32 = "32 word"

record instruction =
  ins_code :: nat
  ins_jt :: nat
  ins_jf :: nat
  ins_k :: u32

definition LD_W_ABS :: nat where "LD_W_ABS = 0x20"
definition JEQ_K :: nat where "JEQ_K = 0x15"
definition JSET_K :: nat where "JSET_K = 0x45"
definition RET_K :: nat where "RET_K = 0x06"

definition RET_ALLOW :: u32 where "RET_ALLOW = 0x7fff0000"
definition RET_ERRNO :: u32 where "RET_ERRNO = 0x00050000"
definition RET_KILL_PROCESS :: u32 where "RET_KILL_PROCESS = 0x80000000"

definition EACCES :: u32 where "EACCES = 13"
definition ENOSYS :: u32 where "ENOSYS = 38"
definition AF_UNIX :: u32 where "AF_UNIX = 1"

definition NR_OFFSET :: u32 where "NR_OFFSET = 0"
definition ARCH_OFFSET :: u32 where "ARCH_OFFSET = 4"
definition ARG0_LOW_OFFSET :: u32 where "ARG0_LOW_OFFSET = 16"

record abi =
  abi_arch :: u32
  abi_alternate_bit :: "u32 option"
  abi_socket :: u32
  abi_socketpair :: u32
  abi_denied :: "u32 list"
  abi_unavailable :: "u32 list"

text \<open>The supported targets, with the audit identifier and the alternate bit of each.\<close>

datatype target_arch = X86_64 | Aarch64 | OtherArch

definition native_audit_arch :: "target_arch \<Rightarrow> u32 option" where
  "native_audit_arch t = (case t of X86_64 \<Rightarrow> Some 0xc000003e | Aarch64 \<Rightarrow> Some 0xc00000b7 | OtherArch \<Rightarrow> None)"

definition alternate_abi_bit :: "target_arch \<Rightarrow> u32 option" where
  "alternate_abi_bit t = (case t of X86_64 \<Rightarrow> Some 0x40000000 | _ \<Rightarrow> None)"

text \<open>\<open>u32::try_from(..).expect(..)\<close>: a number out of range is a panic.\<close>

definition syscall_number :: "int \<Rightarrow> u32 option" where
  "syscall_number sys = (if 0 \<le> sys \<and> sys < 2 ^ 32 then Some (of_int sys) else None)"

fun syscall_numbers :: "int list \<Rightarrow> u32 list option" where
  "syscall_numbers [] = Some []"
| "syscall_numbers (s # ss) =
     (case syscall_number s of
        None \<Rightarrow> None
      | Some n \<Rightarrow> (case syscall_numbers ss of None \<Rightarrow> None | Some ns \<Rightarrow> Some (n # ns)))"

record libc_numbers =
  SYS_socket :: int
  SYS_socketpair :: int
  SYS_denied :: "int list"
  SYS_unavailable :: "int list"

text \<open>The outer option is the panic, the inner one a target without an audit identifier.\<close>

definition abi_native :: "target_arch \<Rightarrow> libc_numbers \<Rightarrow> abi option option" where
  "abi_native t libc =
     (case native_audit_arch t of
        None \<Rightarrow> Some None
      | Some arch \<Rightarrow>
          (case (syscall_number (SYS_socket libc), syscall_number (SYS_socketpair libc), syscall_numbers (SYS_denied libc),
                 syscall_numbers (SYS_unavailable libc)) of
             (Some s, Some sp, Some denied, Some unavailable) \<Rightarrow>
               Some (Some \<lparr>abi_arch = arch, abi_alternate_bit = alternate_abi_bit t, abi_socket = s, abi_socketpair = sp,
                 abi_denied = denied, abi_unavailable = unavailable\<rparr>)
           | _ \<Rightarrow> None))"

definition stmt :: "nat \<Rightarrow> u32 \<Rightarrow> instruction" where
  "stmt code k = \<lparr>ins_code = code, ins_jt = 0, ins_jf = 0, ins_k = k\<rparr>"

definition jump :: "nat \<Rightarrow> u32 \<Rightarrow> nat \<Rightarrow> nat \<Rightarrow> instruction" where
  "jump code k jt jf = \<lparr>ins_code = code, ins_jt = jt, ins_jf = jf, ins_k = k\<rparr>"

definition deny_syscalls :: "u32 list \<Rightarrow> u32 \<Rightarrow> instruction list" where
  "deny_syscalls syscalls errno = concat (map (\<lambda>s. [jump JEQ_K s 0 1, stmt RET_K (RET_ERRNO OR errno)]) syscalls)"

definition deny_network :: "abi \<Rightarrow> instruction list" where
  "deny_network abi =
     [stmt LD_W_ABS ARCH_OFFSET, jump JEQ_K (abi_arch abi) 1 0, stmt RET_K RET_KILL_PROCESS, stmt LD_W_ABS NR_OFFSET]
     @ (case abi_alternate_bit abi of None \<Rightarrow> [] | Some b \<Rightarrow> [jump JSET_K b 0 1, stmt RET_K RET_KILL_PROCESS])
     @ [jump JEQ_K (abi_socket abi) 1 0, jump JEQ_K (abi_socketpair abi) 0 4, stmt LD_W_ABS ARG0_LOW_OFFSET,
        jump JEQ_K AF_UNIX 0 1, stmt RET_K RET_ALLOW, stmt RET_K (RET_ERRNO OR EACCES)]
     @ deny_syscalls (abi_denied abi) EACCES @ deny_syscalls (abi_unavailable abi) ENOSYS @ [stmt RET_K RET_ALLOW]"

section \<open>Evaluation\<close>

definition load_word :: "u32 \<Rightarrow> u32 \<Rightarrow> 64 word \<Rightarrow> u32 \<Rightarrow> u32 option" where
  "load_word arch nr arg0 offset =
     (if offset = NR_OFFSET then Some nr
      else if offset = ARCH_OFFSET then Some arch
      else if offset = ARG0_LOW_OFFSET then Some (ucast (arg0 AND 0xffffffff))
      else None)"

function evaluate_from :: "instruction list \<Rightarrow> (u32 \<Rightarrow> u32 option) \<Rightarrow> u32 \<Rightarrow> nat \<Rightarrow> u32 option" where
  "evaluate_from program load acc pc =
     (if length program \<le> pc then None
      else
        let ins = program ! pc; pc' = pc + 1
        in if ins_code ins = LD_W_ABS then
             (case load (ins_k ins) of None \<Rightarrow> None | Some w \<Rightarrow> evaluate_from program load w pc')
           else if ins_code ins = RET_K then Some (ins_k ins)
           else if ins_code ins = JEQ_K \<or> ins_code ins = JSET_K then
             (let taken = (if ins_code ins = JEQ_K then acc = ins_k ins else acc AND ins_k ins \<noteq> 0)
              in evaluate_from program load acc (pc' + (if taken then ins_jt ins else ins_jf ins)))
           else None)"
  by auto

termination evaluate_from
  by (relation "measure (\<lambda>(program, load, acc, pc). length program - pc)") auto

definition evaluate :: "instruction list \<Rightarrow> u32 \<Rightarrow> u32 \<Rightarrow> 64 word \<Rightarrow> u32 option" where
  "evaluate program arch nr arg0 = evaluate_from program (load_word arch nr arg0) 0 0"

section \<open>The filter\<close>

text \<open>The same evaluation on what is left of the program.\<close>

fun run_rest :: "(u32 \<Rightarrow> u32 option) \<Rightarrow> u32 \<Rightarrow> nat \<Rightarrow> instruction list \<Rightarrow> u32 option" where
  "run_rest load acc skip [] = None"
| "run_rest load acc (Suc skip) (ins # rest) = run_rest load acc skip rest"
| "run_rest load acc 0 (ins # rest) =
     (if ins_code ins = LD_W_ABS then (case load (ins_k ins) of None \<Rightarrow> None | Some w \<Rightarrow> run_rest load w 0 rest)
      else if ins_code ins = RET_K then Some (ins_k ins)
      else if ins_code ins = JEQ_K \<or> ins_code ins = JSET_K then
        run_rest load acc (if (if ins_code ins = JEQ_K then acc = ins_k ins else acc AND ins_k ins \<noteq> 0) then ins_jt ins else ins_jf ins) rest
      else None)"

declare evaluate_from.simps [simp del]

lemma run_rest_drop: "run_rest load acc n rest = run_rest load acc 0 (drop n rest)"
proof (induction n arbitrary: rest)
  case (Suc n)
  then show ?case by (cases rest) simp_all
qed simp

lemma evaluate_from_rest: "evaluate_from program load acc pc = run_rest load acc 0 (drop pc program)"
proof (induction program load acc pc rule: evaluate_from.induct)
  case (1 program load acc pc)
  show ?case
  proof (cases "length program \<le> pc")
    case True
    then show ?thesis by (simp add: evaluate_from.simps)
  next
    case False
    have d: "drop pc program = program ! pc # drop (pc + 1) program" using False by (simp add: Cons_nth_drop_Suc)
    show ?thesis
      using 1 False unfolding d by (subst evaluate_from.simps) (auto simp: Let_def run_rest_drop [of _ _ "ins_jt _"] run_rest_drop [of _ _ "ins_jf _"] add.commute split: option.splits)
  qed
qed

lemma run_steps:
  "run_rest load acc 0 (stmt LD_W_ABS k # rest) = (case load k of None \<Rightarrow> None | Some w \<Rightarrow> run_rest load w 0 rest)"
  "run_rest load acc 0 (stmt RET_K k # rest) = Some k"
  "run_rest load acc 0 (jump JEQ_K k jt jf # rest) = run_rest load acc (if acc = k then jt else jf) rest"
  "run_rest load acc 0 (jump JSET_K k jt jf # rest) = run_rest load acc (if acc AND k \<noteq> 0 then jt else jf) rest"
  by (simp_all add: LD_W_ABS_def JEQ_K_def JSET_K_def RET_K_def stmt_def jump_def)

declare run_rest.simps(3) [simp del]

lemma run_deny:
  "run_rest load acc 0 (deny_syscalls syscalls errno @ rest) =
     (if acc \<in> set syscalls then Some (RET_ERRNO OR errno) else run_rest load acc 0 rest)"
  by (induction syscalls) (simp_all add: deny_syscalls_def run_steps)

lemma run_sockets:
  assumes "load ARG0_LOW_OFFSET = Some w"
  shows "run_rest load nr 0 ([jump JEQ_K s 1 0, jump JEQ_K sp 0 4, stmt LD_W_ABS ARG0_LOW_OFFSET,
        jump JEQ_K AF_UNIX 0 1, stmt RET_K RET_ALLOW, stmt RET_K (RET_ERRNO OR EACCES)] @ rest)
      = (if nr = s \<or> nr = sp then Some (if w = AF_UNIX then RET_ALLOW else RET_ERRNO OR EACCES) else run_rest load nr 0 rest)"
proof -
  have "run_rest load nr 4 (a # b # c # d # rest) = run_rest load nr 0 rest" for a b c d by (simp add: numeral_eq_Suc)
  then show ?thesis using assms by (simp add: run_steps)
qed

lemma low_word: "(ucast (arg0 AND 0xffffffff :: 64 word) :: u32) = ucast arg0"
proof -
  have m: "(0xffffffff :: 64 word) = mask 32" by (simp add: mask_eq_exp_minus_1)
  show ?thesis unfolding m by (rule bit_word_eqI) (simp add: bit_simps del: mask_numeral)
qed

text \<open>C10. The generated program decides every system call as the policy says, for any table of system call numbers: a call
  through a foreign architecture or the alternate entry kills the process; \<open>socket\<close> and \<open>socketpair\<close> are allowed exactly for
  the Unix family, read from the low word of the first argument; the other listed calls fail with their error number; every
  other call is allowed. The evaluation always ends and never leaves the program.\<close>

theorem deny_network_exact:
  "evaluate (deny_network abi) arch nr arg0 = Some
     (if arch \<noteq> abi_arch abi then RET_KILL_PROCESS
      else if (case abi_alternate_bit abi of None \<Rightarrow> False | Some b \<Rightarrow> nr AND b \<noteq> 0) then RET_KILL_PROCESS
      else if nr = abi_socket abi \<or> nr = abi_socketpair abi then (if ucast arg0 = AF_UNIX then RET_ALLOW else RET_ERRNO OR EACCES)
      else if nr \<in> set (abi_denied abi) then RET_ERRNO OR EACCES
      else if nr \<in> set (abi_unavailable abi) then RET_ERRNO OR ENOSYS
      else RET_ALLOW)"
proof -
  define load where "load = load_word arch nr arg0"
  have loads: "load ARCH_OFFSET = Some arch" "load NR_OFFSET = Some nr" "load ARG0_LOW_OFFSET = Some (ucast arg0)"
    using low_word by (simp_all add: load_def load_word_def ARCH_OFFSET_def NR_OFFSET_def ARG0_LOW_OFFSET_def)
  have tail: "run_rest load nr 0 ([jump JEQ_K (abi_socket abi) 1 0, jump JEQ_K (abi_socketpair abi) 0 4, stmt LD_W_ABS ARG0_LOW_OFFSET,
        jump JEQ_K AF_UNIX 0 1, stmt RET_K RET_ALLOW, stmt RET_K (RET_ERRNO OR EACCES)]
      @ deny_syscalls (abi_denied abi) EACCES @ deny_syscalls (abi_unavailable abi) ENOSYS @ [stmt RET_K RET_ALLOW])
      = Some (if nr = abi_socket abi \<or> nr = abi_socketpair abi then (if ucast arg0 = AF_UNIX then RET_ALLOW else RET_ERRNO OR EACCES)
        else if nr \<in> set (abi_denied abi) then RET_ERRNO OR EACCES else if nr \<in> set (abi_unavailable abi) then RET_ERRNO OR ENOSYS else RET_ALLOW)"
    unfolding run_sockets [of load, OF loads(3)] run_deny by (simp add: run_steps)
  show ?thesis
  proof (cases "abi_alternate_bit abi")
    case None
    then show ?thesis unfolding evaluate_def evaluate_from_rest load_def [symmetric]
      using tail by (simp add: deny_network_def run_steps loads)
  next
    case (Some b)
    then show ?thesis unfolding evaluate_def evaluate_from_rest load_def [symmetric]
      using tail by (simp add: deny_network_def run_steps loads)
  qed
qed

text \<open>The program fits the 16-bit length the kernel takes.\<close>

lemma deny_network_length:
  "length (deny_network abi) = (if abi_alternate_bit abi = None then 11 else 13) + 2 * (length (abi_denied abi) + length (abi_unavailable abi))"
proof -
  have "length (deny_syscalls ss e) = 2 * length ss" for ss e by (induction ss) (simp_all add: deny_syscalls_def)
  then show ?thesis by (cases "abi_alternate_bit abi") (simp_all add: deny_network_def)
qed

end
