(* ===== verification/Argv_Redaction.thy ===== *)
theory Argv_Redaction
  imports Workspace_Path
begin

text \<open>
  Redacting the command line before it leaves the machine: \<open>crates/once-cli/src/argv_normalize.rs\<close>. The keyed
  hash comes from libraries: \<open>hash key value\<close> is the text of its first bytes. A safe context is the set of its tokens.
\<close>

section \<open>Tokens\<close>

datatype argv_token = SafeLiteral string | FlagKey string | NamedValue string string | OpaqueValueHash string

definition SAFE_LITERALS :: "string list" where
  "SAFE_LITERALS =
     [''once'', ''build'', ''test'', ''run'', ''check'', ''install'', ''update'', ''lint'', ''format'', ''fmt'', ''bench'',
      ''doc'', ''clean'', ''add'', ''remove'', ''publish'', ''release'', ''debug'']"

type_synonym safe_context = "string set"

definition is_unsafe_workspace_token :: "string \<Rightarrow> bool" where
  "is_unsafe_workspace_token v \<longleftrightarrow>
     v = [] \<or> starts_with ''/'' v \<or> CHR ''='' \<in> set v
     \<or> (case split_once CHR '':'' v of
          None \<Rightarrow> False
        | Some (pre, rest) \<Rightarrow> length pre = 1 \<and> is_ascii_alphabetic (hd pre) \<and> (starts_with ''/'' rest \<or> starts_with [CHR 0x5C] rest))"

definition ctx_empty :: safe_context where
  "ctx_empty = {}"

definition ctx_insert :: "string \<Rightarrow> safe_context \<Rightarrow> safe_context" where
  "ctx_insert v ctx = (if is_unsafe_workspace_token v then ctx else insert v ctx)"

definition ctx_extend :: "string list \<Rightarrow> safe_context \<Rightarrow> safe_context" where
  "ctx_extend vs ctx = foldl (\<lambda>ctx v. ctx_insert v ctx) ctx vs"

definition is_safe_literal :: "string \<Rightarrow> bool" where
  "is_safe_literal token \<longleftrightarrow> map ascii_lower token \<in> set SAFE_LITERALS"

definition is_flag_key :: "string \<Rightarrow> bool" where
  "is_flag_key token \<longleftrightarrow> \<not> length token < 2 \<and> starts_with ''-'' token \<and> CHR ''='' \<notin> set token"

definition split_named_value :: "string \<Rightarrow> (string \<times> string) option" where
  "split_named_value token =
     (if \<not> starts_with ''-'' token then None
      else case split_once CHR ''='' token of
             None \<Rightarrow> None
           | Some (key, v) \<Rightarrow> if length key < 2 then None else Some (key, v))"

definition key32 :: "string \<Rightarrow> string" where
  "key32 bytes = take 32 bytes @ replicate (32 - length bytes) (CHR 0x00)"

definition hash_value :: "(string \<Rightarrow> string \<Rightarrow> string) \<Rightarrow> string \<Rightarrow> string \<Rightarrow> string" where
  "hash_value hash v key_bytes = hash (key32 key_bytes) v"

definition normalize_one :: "(string \<Rightarrow> string \<Rightarrow> string) \<Rightarrow> string \<Rightarrow> string \<Rightarrow> safe_context \<Rightarrow> argv_token" where
  "normalize_one hash token key_bytes ctx =
     (if is_safe_literal token \<or> token \<in> ctx then SafeLiteral token
      else case split_named_value token of
             Some (key, v) \<Rightarrow>
               if v \<in> ctx then SafeLiteral (key @ ''='' @ v) else NamedValue key (hash_value hash v key_bytes)
           | None \<Rightarrow> if is_flag_key token then FlagKey token else OpaqueValueHash (hash_value hash token key_bytes))"

definition normalize_argv_with_context :: "(string \<Rightarrow> string \<Rightarrow> string) \<Rightarrow> string list \<Rightarrow> string \<Rightarrow> safe_context \<Rightarrow> argv_token list" where
  "normalize_argv_with_context hash argv key_bytes ctx = map (\<lambda>arg. normalize_one hash arg key_bytes ctx) argv"

section \<open>What leaves the machine\<close>

lemma ctx_extend_safe: "v \<in> ctx_extend vs ctx \<longleftrightarrow> v \<in> ctx \<or> v \<in> set vs \<and> \<not> is_unsafe_workspace_token v"
  by (induction vs arbitrary: ctx) (auto simp: ctx_extend_def ctx_insert_def)

lemma length_key32: "length (key32 bytes) = 32"
  by (simp add: key32_def)

lemma split_named_value_Some:
  assumes "split_named_value token = Some (k, v)"
  shows "token = k @ CHR ''='' # v" and "CHR ''='' \<notin> set k" and "starts_with ''-'' k"
proof -
  have s: "split_once CHR ''='' token = Some (k, v)" "starts_with ''-'' token" "\<not> length k < 2"
    using assms by (auto simp: split_named_value_def split: option.splits if_splits)
  show t: "token = k @ CHR ''='' # v" and "CHR ''='' \<notin> set k" using s(1) by (simp_all add: split_once_Some)
  show "starts_with ''-'' k" using s(2,3) unfolding t by (cases k) (auto simp: starts_with_def)
qed

lemma safe_literal_plain: "is_safe_literal token \<Longrightarrow> \<not> starts_with ''/'' token"
proof
  assume "is_safe_literal token" "starts_with ''/'' token"
  then obtain rest where "token = CHR ''/'' # rest" "map ascii_lower token \<in> set SAFE_LITERALS"
    by (auto simp: is_safe_literal_def starts_with_iff)
  then have "hd (map ascii_lower token) = CHR ''/''" "map ascii_lower token \<in> set SAFE_LITERALS" by (simp_all add: ascii_lower_def)
  then show False by (auto simp: SAFE_LITERALS_def)
qed

text \<open>A token with a dash in front that is neither a flag nor a flag with a value.\<close>

lemma neither_flag_nor_named:
  assumes "split_named_value token = None" and "\<not> is_flag_key token" and "starts_with ''-'' token"
  shows "token = ''-'' \<or> starts_with ''-='' token"
proof -
  obtain rest where t: "token = CHR ''-'' # rest" using assms(3) by (auto simp: starts_with_iff)
  show ?thesis
  proof (cases "CHR ''='' \<in> set token")
    case True
    then obtain k v where kv: "split_once CHR ''='' token = Some (k, v)" by (auto simp: split_once_def)
    then have "length k < 2" using assms(1,3) by (auto simp: split_named_value_def split: if_splits)
    moreover have "token = k @ CHR ''='' # v" using kv by (simp add: split_once_Some)
    ultimately have "k = ''-''" using t by (cases k) auto
    then show ?thesis using \<open>token = k @ CHR ''='' # v\<close> by (simp add: starts_with_def)
  next
    case False
    then have "length token < 2" using assms(2,3) by (simp add: is_flag_key_def)
    then show ?thesis using t by simp
  qed
qed

text \<open>C17. Which text of an argument leaves the machine, exactly. Whatever was offered to the safe context, a token is sent as it is
  when it is an allowlisted word, an accepted workspace label, a flag given an accepted label, or a flag without an equals
  sign (with whatever is attached to its letters); of any other flag with an equals sign the key is sent and the value
  only as its keyed hash; everything else is sent only as its keyed hash. An accepted label is not empty, has no equals sign
  and does not start with a slash or a drive: a token that starts with a slash is always hashed, which includes
  the label \<open>//foo:bar\<close> that the comment in the filter says still enters the set, and a flag with an accepted label is one literal
  \<open>key=value\<close>, where the module documentation announces a literal after a separate flag key.\<close>

theorem redaction_exact:
  "case normalize_one hash token key_bytes (ctx_extend labels ctx_empty) of
      SafeLiteral s \<Rightarrow> s = token \<and> \<not> starts_with ''/'' s
        \<and> (is_safe_literal s \<or> (s \<in> set labels \<and> \<not> is_unsafe_workspace_token s)
           \<or> (\<exists>k v. s = k @ CHR ''='' # v \<and> starts_with ''-'' k \<and> CHR ''='' \<notin> set k \<and> v \<in> set labels \<and> \<not> is_unsafe_workspace_token v))
    | FlagKey s \<Rightarrow> s = token \<and> starts_with ''-'' s \<and> CHR ''='' \<notin> set s
        \<and> \<not> is_safe_literal s \<and> (s \<notin> set labels \<or> is_unsafe_workspace_token s)
    | NamedValue k h \<Rightarrow> \<exists>v. token = k @ CHR ''='' # v \<and> starts_with ''-'' k \<and> CHR ''='' \<notin> set k \<and> h = hash (key32 key_bytes) v
        \<and> (v \<notin> set labels \<or> is_unsafe_workspace_token v)
    | OpaqueValueHash h \<Rightarrow> h = hash (key32 key_bytes) token
        \<and> \<not> is_safe_literal token \<and> (token \<notin> set labels \<or> is_unsafe_workspace_token token)
        \<and> (starts_with ''-'' token \<longrightarrow> token = ''-'' \<or> starts_with ''-='' token)"
proof -
  let ?ctx = "ctx_extend labels ctx_empty"
  have ctx: "v \<in> ?ctx \<longleftrightarrow> v \<in> set labels \<and> \<not> is_unsafe_workspace_token v" for v by (simp add: ctx_extend_safe ctx_empty_def)
  have dash: "\<not> starts_with ''/'' (k @ r)" if "starts_with ''-'' k" for k r using that by (cases k) (auto simp: starts_with_def)
  show ?thesis
  proof (cases "is_safe_literal token \<or> token \<in> ?ctx")
    case True
    then have "\<not> starts_with ''/'' token" using safe_literal_plain ctx by (auto simp: is_unsafe_workspace_token_def)
    then show ?thesis using True ctx by (auto simp: normalize_one_def)
  next
    case False
    show ?thesis
    proof (cases "split_named_value token")
      case None
      then show ?thesis using False ctx neither_flag_nor_named [OF None]
        by (auto simp: normalize_one_def is_flag_key_def hash_value_def)
    next
      case (Some kv)
      obtain k v where kv: "kv = (k, v)" by (cases kv)
      then have t: "token = k @ CHR ''='' # v" "CHR ''='' \<notin> set k" "starts_with ''-'' k" using split_named_value_Some [of token k v] Some by simp_all
      show ?thesis using False Some kv t ctx dash [OF t(3)] by (auto simp: normalize_one_def hash_value_def)
    qed
  qed
qed

theorem redaction_exact_witness:
  "normalize_one (\<lambda>k v. ''h'') ''//foo:bar'' ''secret'' (ctx_extend [''//foo:bar'', ''app/lib''] ctx_empty) = OpaqueValueHash ''h''"
  using redaction_exact [where hash = "\<lambda>k v. ''h''" and token = "''//foo:bar''" and key_bytes = "''secret''"
      and labels = "[''//foo:bar'', ''app/lib'']"]
  by (auto simp: starts_with_def Cons_eq_append_conv split: argv_token.splits)

lemma normalize_keeps_length: "length (normalize_argv_with_context hash argv key_bytes ctx) = length argv"
  by (simp add: normalize_argv_with_context_def)

section \<open>The working directory\<close>

text \<open>\<open>Path::strip_prefix\<close> compares components and keeps the text of what is left, without leading or trailing empty and
  dot segments.\<close>

definition trivial_segment :: "string \<Rightarrow> bool" where
  "trivial_segment seg \<longleftrightarrow> seg = '''' \<or> seg = ''.''"

fun drop_segments :: "nat \<Rightarrow> string list \<Rightarrow> string list" where
  "drop_segments 0 segs = segs"
| "drop_segments (Suc n) [] = []"
| "drop_segments (Suc n) (s # ss) = (if trivial_segment s then drop_segments (Suc n) ss else drop_segments n ss)"

definition trim_segments :: "string list \<Rightarrow> string list" where
  "trim_segments segs = rev (dropWhile trivial_segment (rev (dropWhile trivial_segment segs)))"

text \<open>For absolute paths, which is what the callers pass.\<close>

definition strip_path_prefix :: "string \<Rightarrow> string \<Rightarrow> string option" where
  "strip_path_prefix path base =
     (if prefix (path_components base) (path_components path)
      then Some (join_with ''/'' (trim_segments (drop_segments (length (path_components base) - 1) (split_on CHR ''/'' (tl path)))))
      else None)"

definition cwd_relative :: "string \<Rightarrow> string \<Rightarrow> string" where
  "cwd_relative cwd workspace =
     (case strip_path_prefix cwd workspace of
        Some rel \<Rightarrow> if rel = [] then ''.'' else map (\<lambda>c. if c = CHR 0x5C then CHR ''/'' else c) rel
      | None \<Rightarrow> [])"

text \<open>A working directory spelled with a parent segment is passed on as a path that leaves the workspace.\<close>

lemma cwd_relative_keeps_parent_segments: "cwd_relative ''/ws/../etc'' ''/ws'' = ''../etc''"
  by code_simp

lemma cwd_relative_examples: "cwd_relative ''/ws'' ''/ws'' = ''.'' \<and> cwd_relative ''/ws/a/b'' ''/ws'' = ''a/b'' \<and> cwd_relative ''/etc'' ''/ws'' = ''''"
  by code_simp

end
