(* ===== verification/Restore_Window.thy ===== *)
theory Restore_Window
  imports Workspace_Path BTree_Map
begin

text \<open>
  Restoring cached outputs in parallel without two restorations touching the same place:
  \<open>crates/once-cli/src/commands/graph/analysis/materialization/paths.rs\<close> and \<open>window.rs\<close>. The file
  system enters through what the two calls of \<open>std::fs\<close> answer, and is taken not to change its answers while a window runs.
  A path of a footprint is the list of its components; the workspace is an absolute path. The restoration of a result is
  opaque: it ends at any time with any outcome. A result of an action is the map of its outputs.
\<close>

section \<open>Footprints\<close>

type_synonym path_set = "string list list"

text \<open>\<open>canonicalize\<close> of a path: the resolved path, a missing file, or another error.\<close>

datatype canonical = Resolved "string list" | NotFound | Unresolvable

record host =
  windows :: bool
  canonicalize :: "string list \<Rightarrow> canonical"
  link_missing :: "string list \<Rightarrow> bool"

definition path_insert :: "string list \<Rightarrow> path_set \<Rightarrow> path_set" where
  "path_insert p ps = (if p \<in> set ps then ps else insort p ps)"

definition ancestors :: "string list \<Rightarrow> string list list" where
  "ancestors p = map (\<lambda>k. take k p) [0..<Suc (length p)]"

definition overlaps :: "path_set \<Rightarrow> string list \<Rightarrow> bool" where
  "overlaps paths candidate \<longleftrightarrow>
     (\<exists>parent\<in>set (ancestors candidate). parent \<in> set paths)
     \<or> (case filter (\<lambda>p. candidate \<le> p) paths of [] \<Rightarrow> False | p # _ \<Rightarrow> prefix candidate p)"

text \<open>The walk to the nearest ancestor that exists; \<open>file_name\<close> of the root and of \<open>..\<close> is \<open>None\<close>.\<close>

function resolve_ancestors :: "host \<Rightarrow> string list \<Rightarrow> string list \<Rightarrow> string list option" where
  "resolve_ancestors fs ancestor tail =
     (case canonicalize fs ancestor of
        Resolved c \<Rightarrow> Some (c @ rev tail)
      | NotFound \<Rightarrow>
          if \<not> link_missing fs ancestor then None
          else if ancestor = [] \<or> last ancestor = ''..'' then None
          else resolve_ancestors fs (butlast ancestor) (tail @ [last ancestor])
      | Unresolvable \<Rightarrow> None)"
  by pat_completeness auto
termination
  by (relation "measure (\<lambda>(fs, ancestor, tail). length ancestor)") (auto simp: length_greater_0_conv [symmetric] simp del: length_greater_0_conv)

declare resolve_ancestors.simps [simp del]

definition resolve_existing_ancestors :: "host \<Rightarrow> string list \<Rightarrow> string list option" where
  "resolve_existing_ancestors fs p = resolve_ancestors fs p []"

definition is_ascii_path :: "string list \<Rightarrow> bool" where
  "is_ascii_path p \<longleftrightarrow> list_all (list_all (\<lambda>c. (of_char c :: nat) < 128)) p"

definition lower_path :: "string list \<Rightarrow> string list" where
  "lower_path p = map (map ascii_lower) p"

fun footprint_scan :: "host \<Rightarrow> string \<Rightarrow> string list \<Rightarrow> path_set \<Rightarrow> path_set option" where
  "footprint_scan fs workspace [] paths = Some paths"
| "footprint_scan fs workspace (out # outs) paths =
     (case try_from out of
        Inl e \<Rightarrow> None
      | Inr p \<Rightarrow>
          let logical = segments (resolve p workspace)
          in case resolve_existing_ancestors fs logical of
               None \<Rightarrow> None
             | Some real \<Rightarrow>
                 if \<not> is_ascii_path logical \<or> \<not> is_ascii_path real then None
                 else footprint_scan fs workspace outs (path_insert (lower_path real) (path_insert (lower_path logical) paths)))"

definition footprint_paths :: "host \<Rightarrow> string \<Rightarrow> string list \<Rightarrow> path_set option" where
  "footprint_paths fs workspace outs = footprint_scan fs workspace outs []"

definition footprint :: "host \<Rightarrow> string \<Rightarrow> (string, 'd) bmap \<Rightarrow> path_set option" where
  "footprint fs workspace result = footprint_paths fs workspace (map fst result)"

definition disjoint_paths :: "host \<Rightarrow> string \<Rightarrow> string list \<Rightarrow> string list \<Rightarrow> bool" where
  "disjoint_paths fs workspace left right =
     (if left = [] \<or> right = [] then True
      else if windows fs then False
      else case footprint_paths fs workspace left of
             None \<Rightarrow> False
           | Some l \<Rightarrow> (case footprint_paths fs workspace right of
                          None \<Rightarrow> False
                        | Some r \<Rightarrow> list_all (\<lambda>p. \<not> overlaps l p) r))"

definition disjoint_from_results ::
  "host \<Rightarrow> string \<Rightarrow> (string, 'd) bmap \<Rightarrow> (string, 'd) bmap list \<Rightarrow> bool" where
  "disjoint_from_results fs workspace candidate active =
     (if windows fs then False
      else case footprint fs workspace candidate of
             None \<Rightarrow> False
           | Some c \<Rightarrow> list_all (\<lambda>r. case footprint fs workspace r of
                                      None \<Rightarrow> False
                                    | Some other \<Rightarrow> list_all (\<lambda>p. \<not> overlaps other p) c) active)"

text \<open>The footprints of all the paths, or nothing as soon as one has none.\<close>

fun member_footprints :: "host \<Rightarrow> string \<Rightarrow> string list \<Rightarrow> (string \<times> path_set) list option" where
  "member_footprints fs workspace [] = Some []"
| "member_footprints fs workspace (p # ps) =
     (case footprint_paths fs workspace [p] of
        None \<Rightarrow> None
      | Some f \<Rightarrow> map_option ((#) (p, f)) (member_footprints fs workspace ps))"

definition independent_members :: "host \<Rightarrow> string \<Rightarrow> string list \<Rightarrow> string list \<Rightarrow> string set" where
  "independent_members fs workspace paths candidates =
     (if candidates = [] then {}
      else if length paths = 1 then set (filter (\<lambda>p. p \<in> set paths) candidates)
      else if windows fs then {}
      else case member_footprints fs workspace paths of
             None \<Rightarrow> {}
           | Some fps \<Rightarrow>
               set (filter (\<lambda>p. case map_of fps p of
                                  None \<Rightarrow> False
                                | Some own \<Rightarrow> list_all (\<lambda>(other, f). other = p \<or> list_all (\<lambda>q. \<not> overlaps f q) own) fps)
                      candidates))"

definition creation_conflicts :: "host \<Rightarrow> string \<Rightarrow> string \<Rightarrow> string list \<Rightarrow> bool" where
  "creation_conflicts fs workspace created pending =
     (if pending = [] then False
      else if windows fs then True
      else case footprint_paths fs workspace [created] of
             None \<Rightarrow> True
           | Some c \<Rightarrow> (case footprint_paths fs workspace pending of
                          None \<Rightarrow> True
                        | Some ps \<Rightarrow> (\<exists>p\<in>set c. \<exists>parent\<in>set (ancestors p). parent \<in> set ps)))"

definition path_extend :: "path_set \<Rightarrow> path_set \<Rightarrow> path_set" where
  "path_extend paths added = foldl (\<lambda>ps p. path_insert p ps) paths added"

text \<open>The leading results that can be restored together.\<close>

fun batch_scan :: "host \<Rightarrow> string \<Rightarrow> (string, 'd) bmap list \<Rightarrow> path_set \<Rightarrow> nat \<Rightarrow> nat" where
  "batch_scan fs workspace [] paths count = count"
| "batch_scan fs workspace (r # rs) paths count =
     (case footprint fs workspace r of
        None \<Rightarrow> count
      | Some f \<Rightarrow> if list_ex (overlaps paths) f then count
                  else batch_scan fs workspace rs (path_extend paths f) (count + 1))"

definition batch_len :: "host \<Rightarrow> string \<Rightarrow> (string, 'd) bmap list \<Rightarrow> nat \<Rightarrow> nat" where
  "batch_len fs workspace results limit =
     (if windows fs \<or> length results = 1 \<or> limit \<le> 1 then 1
      else max (batch_scan fs workspace (take (max limit 1) results) [] 0) 1)"

section \<open>The window\<close>

record 'e window =
  w_active :: "nat list"
  w_next :: nat
  w_failure :: "'e option"
  w_done :: "(nat \<times> 'e option) list"

text \<open>\<open>w_done\<close> records the joined restorations in order; the code does not keep it.\<close>

datatype 'e window_outcome = Finished "'e option" | Panicked | Continue "'e window" | Awaiting "'e window"

definition window_start :: "'e window" where
  "window_start = \<lparr>w_active = [], w_next = 0, w_failure = None, w_done = []\<rparr>"

definition start_batch :: "host \<Rightarrow> string \<Rightarrow> (string, 'd) bmap list \<Rightarrow> nat \<Rightarrow> 'e window \<Rightarrow> 'e window" where
  "start_batch fs workspace results limit w =
     (if w_active w = [] \<and> w_failure w = None
      then let count = batch_len fs workspace (drop (w_next w) results) limit
           in w\<lparr>w_active := map fst (take count (drop (w_next w) (zip [0..<length results] results))), w_next := w_next w + count\<rparr>
      else w)"

definition window_iter :: "host \<Rightarrow> string \<Rightarrow> (string, 'd) bmap list \<Rightarrow> nat \<Rightarrow> 'e window \<Rightarrow> 'e window_outcome" where
  "window_iter fs workspace results limit w =
     (if w_active w = [] \<and> \<not> (w_failure w = None \<and> w_next w < length results) then Finished (w_failure w)
      else
        let w = start_batch fs workspace results limit w
        in if w_failure w = None \<and> w_next w < length results \<and> length (w_active w) < limit
              \<and> disjoint_from_results fs workspace (results ! w_next w) (map (\<lambda>i. results ! i) (w_active w))
           then Continue (w\<lparr>w_active := w_active w @ [w_next w], w_next := w_next w + 1\<rparr>)
           else if w_active w = [] then Panicked
           else Awaiting w)"

definition window_join :: "'e window \<Rightarrow> nat \<Rightarrow> 'e option \<Rightarrow> 'e window" where
  "window_join w i outcome =
     w\<lparr>w_active := remove1 i (w_active w), w_done := w_done w @ [(i, outcome)],
       w_failure := (case w_failure w of Some e \<Rightarrow> Some e | None \<Rightarrow> outcome)\<rparr>"

text \<open>The limit is \<open>max_parallel_actions().max(1)\<close>.\<close>

inductive window_reach :: "host \<Rightarrow> string \<Rightarrow> (string, 'd) bmap list \<Rightarrow> nat \<Rightarrow> 'e window \<Rightarrow> bool"
  for fs workspace results limit where
  window_begins: "window_reach fs workspace results limit window_start"
| window_continues: "window_reach fs workspace results limit w \<Longrightarrow> window_iter fs workspace results limit w = Continue w' \<Longrightarrow>
    window_reach fs workspace results limit w'"
| window_joins: "window_reach fs workspace results limit w \<Longrightarrow> window_iter fs workspace results limit w = Awaiting w' \<Longrightarrow>
    i \<in> set (w_active w') \<Longrightarrow> window_reach fs workspace results limit (window_join w' i outcome)"

section \<open>Overlap\<close>

lemma between_prefix:
  fixes c q r :: "'a :: linorder list"
  shows "c \<le> q \<Longrightarrow> q \<le> c @ r \<Longrightarrow> prefix c q"
proof (induction c arbitrary: q)
  case (Cons a c)
  then show ?case by (cases q) auto
qed simp

lemma prefix_le:
  fixes c p :: "'a :: linorder list"
  shows "prefix c p \<Longrightarrow> c \<le> p"
proof (induction c arbitrary: p)
  case (Cons a c)
  then show ?case by (cases p) auto
qed simp

lemma first_at_least:
  fixes c :: "'a :: linorder list"
  assumes "sorted ps"
  shows "(case filter (\<lambda>p. c \<le> p) ps of [] \<Rightarrow> False | p # _ \<Rightarrow> prefix c p) \<longleftrightarrow> (\<exists>p\<in>set ps. prefix c p)"
proof
  assume "case filter (\<lambda>p. c \<le> p) ps of [] \<Rightarrow> False | p # _ \<Rightarrow> prefix c p"
  then obtain p rest where "filter (\<lambda>p. c \<le> p) ps = p # rest" "prefix c p" by (auto split: list.splits)
  moreover from this(1) have "p \<in> set ps" by (metis filter_is_subset list.set_intros(1) subsetD)
  ultimately show "\<exists>p\<in>set ps. prefix c p" by blast
next
  assume "\<exists>p\<in>set ps. prefix c p"
  then obtain p where p: "p \<in> set ps" "prefix c p" by blast
  then have mem: "p \<in> set (filter (\<lambda>p. c \<le> p) ps)" using prefix_le by auto
  then obtain q rest where q: "filter (\<lambda>p. c \<le> p) ps = q # rest" by (cases "filter (\<lambda>p. c \<le> p) ps") auto
  have "sorted (q # rest)" using assms sorted_filter [of "\<lambda>x. x" ps "\<lambda>p. c \<le> p"] q by simp
  then have "q \<le> p" using mem q by auto
  moreover have "c \<le> q" using arg_cong [OF q, of set] by auto
  ultimately have "prefix c q" using between_prefix p(2) by (metis prefixE)
  then show "case filter (\<lambda>p. c \<le> p) ps of [] \<Rightarrow> False | p # _ \<Rightarrow> prefix c p" using q by simp
qed

lemma ancestors_iff: "parent \<in> set (ancestors p) \<longleftrightarrow> prefix parent p"
proof
  assume "prefix parent p"
  then obtain rest where p: "p = parent @ rest" by (rule prefixE)
  have "take (length parent) p \<in> set (ancestors p)"
    unfolding ancestors_def set_map by (rule imageI) (simp add: p)
  then show "parent \<in> set (ancestors p)" by (simp add: p)
next
  assume "parent \<in> set (ancestors p)"
  then obtain k where "parent = take k p" unfolding ancestors_def set_map by (elim imageE)
  then show "prefix parent p" using take_is_prefix by (simp only:)
qed

text \<open>One ordered lookup and the walk to the root find every overlap.\<close>

lemma overlaps_iff:
  assumes "sorted paths"
  shows "overlaps paths c \<longleftrightarrow> (\<exists>p\<in>set paths. prefix p c \<or> prefix c p)"
  unfolding overlaps_def first_at_least [OF assms] Bex_def ancestors_iff by blast

lemma sorted_path_insert [simp]: "sorted ps \<Longrightarrow> sorted (path_insert p ps)"
  by (simp add: path_insert_def sorted_insort)

lemma set_path_insert [simp]: "set (path_insert p ps) = insert p (set ps)"
  by (auto simp: path_insert_def set_insort_key)

lemma path_extend_ok: "sorted ps \<Longrightarrow> sorted (path_extend ps qs) \<and> set (path_extend ps qs) = set ps \<union> set qs"
  unfolding path_extend_def by (induction qs arbitrary: ps) auto

lemma footprint_scan_sorted:
  "sorted ps \<Longrightarrow> footprint_scan fs ws outs ps = Some f \<Longrightarrow> sorted f"
proof (induction outs arbitrary: ps)
  case (Cons out outs)
  from Cons.prems(2) obtain qs where "footprint_scan fs ws outs qs = Some f" "\<exists>a b. qs = path_insert a (path_insert b ps)"
    by (auto simp: Let_def split: sum.splits option.splits if_splits)
  then show ?case using Cons.IH [of qs] Cons.prems(1) by auto
qed simp

lemma footprint_sorted: "footprint fs ws r = Some f \<Longrightarrow> sorted f"
  unfolding footprint_def footprint_paths_def by (rule footprint_scan_sorted) simp_all

text \<open>Two results are apart when no path of one is a path of the other or lies below or above it.\<close>

definition apart :: "path_set \<Rightarrow> path_set \<Rightarrow> bool" where
  "apart f g \<longleftrightarrow> (\<forall>p\<in>set f. \<forall>q\<in>set g. \<not> prefix p q \<and> \<not> prefix q p)"

definition results_apart :: "host \<Rightarrow> string \<Rightarrow> (string, 'd) bmap \<Rightarrow> (string, 'd) bmap \<Rightarrow> bool" where
  "results_apart fs ws a b \<longleftrightarrow>
     (case (footprint fs ws a, footprint fs ws b) of (Some f, Some g) \<Rightarrow> apart f g | _ \<Rightarrow> False)"

lemma apart_sym: "apart f g \<longleftrightarrow> apart g f"
  by (auto simp: apart_def)

lemma results_apart_sym: "results_apart fs ws a b \<longleftrightarrow> results_apart fs ws b a"
  by (auto simp: results_apart_def apart_sym split: option.splits)

lemma no_overlap_apart: "sorted g \<Longrightarrow> list_all (\<lambda>p. \<not> overlaps g p) f \<longleftrightarrow> apart f g"
  by (auto simp: list_all_iff apart_def overlaps_iff)

lemma disjoint_from_results_iff:
  "disjoint_from_results fs ws c rs \<longleftrightarrow>
     \<not> windows fs \<and> footprint fs ws c \<noteq> None \<and> (\<forall>r\<in>set rs. results_apart fs ws c r)"
proof (cases "footprint fs ws c")
  case (Some f)
  have "(case footprint fs ws r of None \<Rightarrow> False | Some other \<Rightarrow> list_all (\<lambda>p. \<not> overlaps other p) f)
      \<longleftrightarrow> results_apart fs ws c r" for r
    using Some footprint_sorted [of fs ws r]
    by (cases "footprint fs ws r") (simp_all add: results_apart_def no_overlap_apart)
  then show ?thesis using Some by (simp add: disjoint_from_results_def list_all_iff)
qed (simp add: disjoint_from_results_def)

section \<open>Batches\<close>

lemma batch_scan_bounds: "count \<le> batch_scan fs ws rs ps count \<and> batch_scan fs ws rs ps count \<le> count + length rs"
proof (induction rs arbitrary: ps count)
  case (Cons r rs)
  show ?case
    using Cons.IH [of "count + 1"] by (cases "footprint fs ws r") (auto intro: Suc_leD)
qed simp

text \<open>The counted prefix: every result of it is apart from the paths seen before it.\<close>

lemma batch_scan_apart:
  assumes "sorted ps" "n = batch_scan fs ws rs ps count - count"
  shows "(\<forall>i<n. \<exists>f. footprint fs ws (rs ! i) = Some f \<and> apart f ps)
    \<and> (\<forall>j<n. \<forall>i<j. results_apart fs ws (rs ! i) (rs ! j))"
  using assms
proof (induction rs arbitrary: ps count n)
  case (Cons r rs)
  show ?case
  proof (cases "\<exists>f. footprint fs ws r = Some f \<and> \<not> list_ex (overlaps ps) f")
    case True
    then obtain f where f: "footprint fs ws r = Some f" and free: "\<not> list_ex (overlaps ps) f" by blast
    have scan: "batch_scan fs ws (r # rs) ps count = batch_scan fs ws rs (path_extend ps f) (count + 1)"
      using f free by simp
    define m where "m = batch_scan fs ws rs (path_extend ps f) (count + 1) - (count + 1)"
    have n: "n = Suc m"
      using Cons.prems(2) batch_scan_bounds [of "count + 1" fs ws rs "path_extend ps f"] unfolding scan m_def by linarith
    have own: "apart f ps"
      using free no_overlap_apart [OF Cons.prems(1)] by (simp add: list_all_iff list_ex_iff)
    have ext: "sorted (path_extend ps f)" "set (path_extend ps f) = set ps \<union> set f"
      using path_extend_ok [OF Cons.prems(1)] by simp_all
    note rest = Cons.IH [OF ext(1), OF m_def]
    have later: "\<exists>g. footprint fs ws (rs ! i) = Some g \<and> apart g ps \<and> results_apart fs ws r (rs ! i)" if "i < m" for i
      using rest that f ext(2) by (fastforce simp: results_apart_def apart_def)
    have "\<exists>g. footprint fs ws ((r # rs) ! i) = Some g \<and> apart g ps" if "i < Suc m" for i
      using that later [of "i - 1"] own f by (cases i) auto
    moreover have "results_apart fs ws ((r # rs) ! i) ((r # rs) ! j)" if "j < Suc m" "i < j" for i j
      using that later [of "j - 1"] rest by (cases i; cases j) auto
    ultimately show ?thesis unfolding n by blast
  next
    case False
    then have "batch_scan fs ws (r # rs) ps count = count" by (cases "footprint fs ws r") auto
    then show ?thesis using Cons.prems(2) by simp
  qed
qed simp

lemma batch_len_ok:
  assumes "rs \<noteq> []" "1 \<le> limit"
  shows "1 \<le> batch_len fs ws rs limit" "batch_len fs ws rs limit \<le> limit" "batch_len fs ws rs limit \<le> length rs"
    and "j < batch_len fs ws rs limit \<Longrightarrow> i < j \<Longrightarrow> results_apart fs ws (rs ! i) (rs ! j)"
proof -
  define n where "n = batch_scan fs ws (take limit rs) [] 0"
  have b: "n \<le> limit" "n \<le> length rs"
    using batch_scan_bounds [of 0 fs ws "take limit rs" "[]"] by (auto simp: n_def)
  have len: "batch_len fs ws rs limit \<in> {1, max n 1}"
    using assms(2) by (auto simp: batch_len_def n_def max_absorb1)
  have pos: "1 \<le> length rs" using assms(1) by (cases rs) auto
  show "1 \<le> batch_len fs ws rs limit" "batch_len fs ws rs limit \<le> limit" "batch_len fs ws rs limit \<le> length rs"
    using len b pos assms(2) by auto
  assume j: "j < batch_len fs ws rs limit" "i < j"
  then have "j < n" using len by (auto simp: max_def split: if_splits)
  moreover have "take limit rs ! i = rs ! i" "take limit rs ! j = rs ! j" using \<open>j < n\<close> j(2) b by simp_all
  ultimately show "results_apart fs ws (rs ! i) (rs ! j)"
    using batch_scan_apart [of "[]" n fs ws "take limit rs" 0] j(2) unfolding n_def by (metis diff_zero sorted_simps(1))
qed

section \<open>The window is safe\<close>

definition first_failure :: "(nat \<times> 'e option) list \<Rightarrow> 'e option" where
  "first_failure outcomes = (case filter (\<lambda>(i, r). r \<noteq> None) outcomes of [] \<Rightarrow> None | (i, r) # _ \<Rightarrow> r)"

definition pairwise_apart :: "host \<Rightarrow> string \<Rightarrow> (string, 'd) bmap list \<Rightarrow> nat list \<Rightarrow> bool" where
  "pairwise_apart fs ws results active \<longleftrightarrow>
     (\<forall>i\<in>set active. \<forall>j\<in>set active. i \<noteq> j \<longrightarrow> results_apart fs ws (results ! i) (results ! j))"

definition window_ok :: "host \<Rightarrow> string \<Rightarrow> (string, 'd) bmap list \<Rightarrow> nat \<Rightarrow> 'e window \<Rightarrow> bool" where
  "window_ok fs ws results limit w \<longleftrightarrow>
     length (w_active w) \<le> limit
     \<and> pairwise_apart fs ws results (w_active w)
     \<and> w_next w \<le> length results
     \<and> distinct (w_active w @ map fst (w_done w))
     \<and> set (w_active w) \<union> fst ` set (w_done w) = {..<w_next w}
     \<and> w_failure w = first_failure (w_done w)"

definition window_pending :: "(string, 'd) bmap list \<Rightarrow> 'e window \<Rightarrow> nat" where
  "window_pending results w = 2 * (length results - w_next w) + length (w_active w)"

lemma first_failure_snoc:
  "first_failure (xs @ [(i, outcome)]) = (case first_failure xs of Some e \<Rightarrow> Some e | None \<Rightarrow> outcome)"
  by (induction xs) (auto simp: first_failure_def split: option.splits)

lemma window_start_ok: "window_ok fs ws results limit window_start"
  by (simp add: window_ok_def window_start_def pairwise_apart_def first_failure_def)

lemma batch_indices:
  assumes "n + c \<le> length results"
  shows "map fst (take c (drop n (zip [0..<length results] results))) = [n..<n + c]"
  using assms by (simp add: drop_zip take_zip drop_upt take_upt)

lemma start_batch_ok:
  assumes limit: "1 \<le> limit" and ok: "window_ok fs ws results limit w"
    and loop: "\<not> (w_active w = [] \<and> \<not> (w_failure w = None \<and> w_next w < length results))"
  defines "w' \<equiv> start_batch fs ws results limit w"
  shows "window_ok fs ws results limit w'" "w_active w' \<noteq> []" "window_pending results w' \<le> window_pending results w"
proof -
  have "window_ok fs ws results limit w' \<and> w_active w' \<noteq> [] \<and> window_pending results w' \<le> window_pending results w"
  proof (cases "w_active w = []")
    case True
    then have n: "w_failure w = None" "w_next w < length results" using loop by auto
    define c where "c = batch_len fs ws (drop (w_next w) results) limit"
    have rest: "drop (w_next w) results \<noteq> []" using n(2) by simp
    note len = batch_len_ok [OF rest limit, where fs = fs and ws = ws, folded c_def]
    have fit: "w_next w + c \<le> length results" using len(3) n(2) by simp
    have w': "w' = w\<lparr>w_active := [w_next w..<w_next w + c], w_next := w_next w + c\<rparr>"
      unfolding w'_def start_batch_def using True n(1) batch_indices [OF fit] by (simp add: c_def Let_def)
    have two: "results_apart fs ws (results ! i) (results ! j)" if "w_next w \<le> i" "i < j" "j < w_next w + c" for i j
      using len(4) [of "j - w_next w" "i - w_next w"] that n(2) by simp
    have "pairwise_apart fs ws results [w_next w..<w_next w + c]"
      unfolding pairwise_apart_def using two results_apart_sym [of fs ws] by (metis atLeastLessThan_iff nat_neq_iff set_upt)
    moreover have "set (w_active w') \<union> fst ` set (w_done w') = {..<w_next w'}" "distinct (w_active w' @ map fst (w_done w'))"
      using ok True by (auto simp: window_ok_def w')
    ultimately show ?thesis
      using ok len(1,2) fit by (simp add: window_ok_def w' window_pending_def)
  qed (use ok in \<open>simp add: w'_def start_batch_def\<close>)
  then show "window_ok fs ws results limit w'" "w_active w' \<noteq> []" "window_pending results w' \<le> window_pending results w"
    by simp_all
qed

lemma window_admit_ok:
  assumes ok: "window_ok fs ws results limit w" and n: "w_next w < length results" "length (w_active w) < limit"
    and free: "disjoint_from_results fs ws (results ! w_next w) (map (\<lambda>i. results ! i) (w_active w))"
  shows "window_ok fs ws results limit (w\<lparr>w_active := w_active w @ [w_next w], w_next := w_next w + 1\<rparr>)"
proof -
  have "pairwise_apart fs ws results (w_active w @ [w_next w])"
    using ok free
    by (auto simp: window_ok_def pairwise_apart_def disjoint_from_results_iff intro: results_apart_sym [THEN iffD1])
  moreover have "w_next w \<notin> set (w_active w) \<union> fst ` set (w_done w)" using ok by (simp add: window_ok_def)
  ultimately show ?thesis
    using ok n by (auto simp: window_ok_def lessThan_Suc)
qed

lemma window_join_ok:
  assumes ok: "window_ok fs ws results limit w" and i: "i \<in> set (w_active w)"
  shows "window_ok fs ws results limit (window_join w i outcome)"
    and "window_pending results (window_join w i outcome) < window_pending results w"
proof -
  have d: "distinct (w_active w)" using ok by (simp add: window_ok_def)
  have fail: "(case w_failure w of Some e \<Rightarrow> Some e | None \<Rightarrow> outcome) = first_failure (w_done w @ [(i, outcome)])"
    using ok by (simp add: window_ok_def first_failure_snoc)
  show "window_ok fs ws results limit (window_join w i outcome)"
    using ok i d fail by (auto simp: window_ok_def window_join_def pairwise_apart_def length_remove1)
  show "window_pending results (window_join w i outcome) < window_pending results w"
    using i length_pos_if_in_set [OF i] by (simp add: window_pending_def window_join_def length_remove1)
qed

lemma window_iter_ok:
  assumes limit: "1 \<le> limit" and ok: "window_ok fs ws results limit w"
  shows "case window_iter fs ws results limit w of
      Finished r \<Rightarrow> r = first_failure (w_done w)
        \<and> (if r = None then set (map fst (w_done w)) = {..<length results} else w_active w = [])
    | Panicked \<Rightarrow> False
    | Continue w' \<Rightarrow> window_ok fs ws results limit w' \<and> window_pending results w' < window_pending results w
    | Awaiting w' \<Rightarrow> window_ok fs ws results limit w' \<and> w_active w' \<noteq> []
        \<and> (\<forall>i\<in>set (w_active w'). \<forall>outcome.
             window_pending results (window_join w' i outcome) < window_pending results w)"
proof (cases "w_active w = [] \<and> \<not> (w_failure w = None \<and> w_next w < length results)")
  case True
  then show ?thesis using ok by (auto simp: window_iter_def window_ok_def)
next
  case False
  define v where "v = start_batch fs ws results limit w"
  note v = start_batch_ok [OF limit ok False, folded v_def]
  have iter: "window_iter fs ws results limit w =
      (if w_failure v = None \<and> w_next v < length results \<and> length (w_active v) < limit
          \<and> disjoint_from_results fs ws (results ! w_next v) (map (\<lambda>i. results ! i) (w_active v))
       then Continue (v\<lparr>w_active := w_active v @ [w_next v], w_next := w_next v + 1\<rparr>)
       else Awaiting v)"
    unfolding window_iter_def Let_def if_not_P [OF False] v_def [symmetric] if_not_P [OF v(2)] ..
  show ?thesis
  proof (cases "w_failure v = None \<and> w_next v < length results \<and> length (w_active v) < limit
      \<and> disjoint_from_results fs ws (results ! w_next v) (map (\<lambda>i. results ! i) (w_active v))")
    case True
    then show ?thesis
      using window_admit_ok [OF v(1)] v(3) by (auto simp: iter window_pending_def)
  next
    case False
    show ?thesis unfolding iter if_not_P [OF False]
      using v window_join_ok(2) [OF v(1), THEN less_le_trans, OF _ v(3)] by simp
  qed
qed

lemma window_reach_ok:
  assumes "1 \<le> limit" "window_reach fs ws results limit w"
  shows "window_ok fs ws results limit w"
  using assms(2)
proof induction
  case (window_continues w w')
  then show ?case using window_iter_ok [OF assms(1), of fs ws results w] by simp
next
  case (window_joins w w' i outcome)
  then show ?case using window_iter_ok [OF assms(1), of fs ws results w] by (auto intro: window_join_ok)
qed (rule window_start_ok)

text \<open>C4. However the restorations end, at every step of the window no more than the limit run at once and the ones that run
  touch places that are pairwise apart: no path of one is, contains or lies in a path of another, whether named as the workspace
  names it or as the file system resolves it. The \<open>expect\<close> on the next finished restoration never fails, every step
  makes progress, the results are taken in order and each once, and when the window ends it returns the first failure that
  was seen, or has restored every result.
\<close>

theorem restore_window_safe:
  assumes "1 \<le> limit" "window_reach fs ws results limit w"
  shows "length (w_active w) \<le> limit \<and> pairwise_apart fs ws results (w_active w)
    \<and> distinct (w_active w @ map fst (w_done w))
    \<and> set (w_active w) \<union> fst ` set (w_done w) = {..<w_next w}
    \<and> (case window_iter fs ws results limit w of
         Finished r \<Rightarrow> r = first_failure (w_done w)
           \<and> (if r = None then set (map fst (w_done w)) = {..<length results} else w_active w = [])
       | Panicked \<Rightarrow> False
       | Continue w' \<Rightarrow> window_ok fs ws results limit w' \<and> window_pending results w' < window_pending results w
       | Awaiting w' \<Rightarrow> window_ok fs ws results limit w' \<and> w_active w' \<noteq> []
           \<and> (\<forall>i\<in>set (w_active w'). \<forall>outcome.
                window_pending results (window_join w' i outcome) < window_pending results w))"
proof -
  have ok: "window_ok fs ws results limit w" by (rule window_reach_ok [OF assms])
  show ?thesis
    using window_iter_ok [OF assms(1) ok] ok unfolding window_ok_def [of _ _ _ _ w]
    by (intro conjI) (elim conjE, assumption)+
qed

text \<open>Two results that are apart and a third inside the first: the first two run together, the third waits.\<close>

definition example_host :: host where
  "example_host = \<lparr>windows = False, canonicalize = Resolved, link_missing = (\<lambda>p. True)\<rparr>"

definition example_results :: "(string, nat) bmap list" where
  "example_results = [[(''out/a'', 1)], [(''out/b'', 2)], [(''out/A/x'', 3)]]"

lemma example_window:
  "window_iter example_host ''/w'' example_results 3 (window_start :: nat window) =
     Awaiting \<lparr>w_active = [0, 1], w_next = 2, w_failure = None, w_done = []\<rparr>"
  by code_simp

theorem restore_window_safe_witness:
  "pairwise_apart example_host ''/w'' example_results [Suc 0]
   \<and> window_iter example_host ''/w'' example_results 3
       (window_join \<lparr>w_active = [0, 1], w_next = 2, w_failure = None, w_done = []\<rparr> 0 (None :: nat option)) \<noteq> Panicked"
proof -
  have "window_reach example_host ''/w'' example_results 3
      (window_join \<lparr>w_active = [0, 1], w_next = 2, w_failure = None, w_done = []\<rparr> 0 (None :: nat option))"
    by (rule window_joins [OF window_begins example_window]) simp
  from restore_window_safe [OF _ this] show ?thesis
    by (auto simp: window_join_def split: window_outcome.splits)
qed

end
