(* ===== verification/Spec2Isabelle.thy ===== *)
theory Spec2Isabelle
  imports Resource_Pool Plan_Scheduler Target_Ref Event_Batch Query_Model Environment Zip_Preflight Remote_Path Test_Selection Build_Scheduler Cas_Gc Directory_Blob Network_Filter Argv_Redaction Restore_Window
begin

text \<open>
  A verification library for \<open>once\<close>, a build and action runner with a content-addressed cache. Source paths are
  relative to \<open>src/crates\<close>.

  \<^bold>\<open>The program.\<close> A workspace declares targets in manifests; target references and workspace paths are normalized and
  validated (\<open>once-frontend\<close>, \<open>once-core\<close>). The graph of targets can be queried in a small language and is the input of
  test selection and test plans (\<open>once-cli/src/commands/query\<close>). A graph build runs the targets in dependency order
  (\<open>once-cli/src/commands/graph/analysis\<close>), a plan of actions runs through a scheduler that takes permits from a resource
  pool (\<open>once-core/src/plan\<close>, \<open>once-core/src/resources\<close>). Actions run with the network denied
  (\<open>once-core/src/network\<close>), locally or remotely; what a remote machine returns is checked before it is installed
  (\<open>once-core/src/remote\<close>, \<open>once-core/src/execute/zip_preflight.rs\<close>). Outputs are stored as blobs, restored from the
  store and collected when it grows (\<open>once-core/src/directory_blob.rs\<close>, \<open>once-cas\<close>). What happens is reported as a
  numbered event stream (\<open>once-events-client\<close>).

  \<^bold>\<open>Conventions.\<close> \<open>Once_Prelude\<close>: \<open>u64\<close> and \<open>usize\<close> are natural numbers below \<open>2 ^ 64\<close> with wrapping, saturating and checked
  operations written out; \<open>Result\<close> is a sum with \<open>rbind\<close>; a panic is \<open>None\<close> or an error constructor. \<open>BTree_Map\<close>: a
  \<open>BTreeMap\<close> is an association list in key order; the locale \<open>ordered_map\<close> states what its clients use and is interpreted on
  it. \<open>Text_Utils\<close> and \<open>Byte_Codec\<close>: the string, UTF-8 and byte order functions of the standard library. A \<open>HashMap\<close> is a partial
  function. Concurrency is a step relation in which tasks end in any order with any result. Code that is not part of
  the repository (hash functions, protobuf lengths, the query grammar, glob matching, ZIP decoding, the file system) is an
  argument; the laws a theorem needs of it are its hypotheses.

  \<^bold>\<open>Resources\<close> (\<open>Resource_Request\<close>, \<open>Resource_Queue\<close>, \<open>Resource_Pool\<close>: \<open>once-core/src/resources/{limits,request,queue,pool}.rs\<close>).
  Budgets and requests, the admission queue and the pool as a labelled step relation. The pool never grants more than its limits
  whatever the interleaving of acquisitions, cancellations and releases, the dispatch pass grants exactly what reservation in
  arrival order allows (locale \<open>admission_queue\<close>), an idle pool makes progress and a pool whose permits are dropped is empty.

  \<^bold>\<open>Plans\<close> (\<open>Plan_Topology\<close>, \<open>Plan_Scheduler\<close>: \<open>once-core/src/plan.rs\<close>, \<open>plan/topology.rs\<close>, \<open>plan/scheduler.rs\<close>). Validation
  accepts exactly the acyclic plans with dependencies in range (locale \<open>dependency_counts\<close>: counting down dependencies visits
  every node exactly when there is no cycle). A run starts a node only after its dependencies succeeded, stops starting
  after a failure, drains, ends, and when nothing fails runs every node.

  \<^bold>\<open>Graph builds\<close> (\<open>Graph_Target\<close>, \<open>Build_State\<close>, \<open>Build_Scheduler\<close>: \<open>analysis/scheduler.rs\<close>, \<open>scheduler/{state,ranking}.rs\<close>).
  The bookkeeping of dependencies, readers and depths (locale \<open>counted_graph\<close>) and the loop that spawns and joins target tasks:
  bounded parallelism, each target once and after its dependencies with their digests, results kept exactly while a reader needs
  them, and an internal error only for a real cycle. The ranking loop runs at most once per target.

  \<^bold>\<open>Outputs\<close> (\<open>Directory_Blob\<close>: \<open>directory_blob.rs\<close>, \<open>directory_stage.rs\<close>, \<open>file_blob.rs\<close>, \<open>restore_file.rs\<close>;
  \<open>Restore_Window\<close>: \<open>materialization/{paths,window}.rs\<close>; \<open>Cas_Gc\<close>: \<open>once-cas/src/gc.rs\<close>). The blob format round-trips; a
  restoration into a private tree stays under real directories below its root, whatever the bytes; a restoration in place writes
  a file listed below a link wherever the link points. Parallel restorations never touch overlapping paths. A collection evicts the oldest orphans and results down to the
  budget and no further, reports exactly the bytes left, and can be interrupted anywhere without leaving a result whose blobs are gone.

  \<^bold>\<open>Isolation and remote results\<close> (\<open>Network_Filter\<close>: \<open>network/program.rs\<close>, on 32-bit words; \<open>Remote_Limits\<close>, \<open>Zip_Preflight\<close>,
  \<open>Remote_Path\<close>: \<open>remote/limits.rs\<close>, \<open>execute/zip_preflight.rs\<close>, \<open>remote/path.rs\<close>, \<open>path/tree.rs\<close>, \<open>path/boundary.rs\<close>,
  \<open>archive/output/budget.rs\<close>). The filter decides every system call as documented; the windowed scan finds exactly the records a scan of
  the whole archive finds, and an accepted archive keeps the decoder within its budget; the links of an accepted output tree
  resolve inside the declared outputs. Link chains are followed with the code's own bound on hops.

  \<^bold>\<open>Events\<close> (\<open>Event_Loss\<close>, \<open>Event_Buffer\<close>, \<open>Event_Presentation\<close>, \<open>Event_Session\<close>, \<open>Event_Batch\<close>: \<open>once-events-client/src/{loss,buffer,
  presentation,source_files,session}.rs\<close>). Every sequence number handed out is delivered, still buffered or reported lost; batches
  leave no hole; log fragments reassemble to the text; fitting an event removes
  optional data only; a push panics exactly when the range of the events it evicts spans a number lost for another reason. \<open>Environment\<close>
  (\<open>environment.rs\<close>): which branch is read from the variables of a continuous integration service. \<open>Argv_Redaction\<close>
  (\<open>once-cli/src/argv_normalize.rs\<close>): what of a command line is sent as it is.

  \<^bold>\<open>Paths, queries and tests\<close> (\<open>Workspace_Path\<close>, \<open>Target_Ref\<close>: \<open>once-core/src/path.rs\<close>, \<open>once-frontend/src/target_ref.rs\<close>;
  \<open>Query_Scan\<close>, \<open>Query_Parser\<close>, \<open>Query_Model\<close>: \<open>commands/query/expression\<close>; \<open>Test_Plan\<close>, \<open>Test_Selection\<close>: \<open>commands/query/test_plan\<close>).
  Normalization gives canonical paths and references; on valid UTF-8 the parser never slices out of range or inside a
  character, and evaluation never meets an index of no node; a value in quotes may contain its own quote; the transitive search finds exactly the reachable nodes; a plan is valid exactly when its batches
  cover its selection, and affected selection takes exactly the tests that depend on the owner of a changed path (every test when
  there is none), where a path belongs to the package its text starts in. A text is the list of its UTF-8 bytes:
  \<open>Text_Utils\<close> defines characters, their boundaries, the invariant \<open>is_str\<close> of \<open>str\<close>, slicing and Unicode white space.

  \<^bold>\<open>Bounds and fuel.\<close> Recursions that are not structural have termination proofs. Where a definition takes fuel it is the number
  of steps the loop can make: the number of targets in \<open>rank_loop\<close>, the length of the text in the scanner, the hop bound of the code in
  \<open>Remote_Path\<close>; in \<open>Directory_Blob\<close> the hops of the in-place restoration are the links the system follows
  in one path, a limit of the system; the theorem about it holds for every positive number. The loops
  of the schedulers are relations, with a measure that every step decreases.

  \<^bold>\<open>Not modelled.\<close> Directory walks, processes, network transport, serialization and rendering; the Starlark analysis, which runs
  in a library; manifest parsing and editing through TOML libraries; the command line and the MCP server, which connect the
  parts; remote cache and executor clients, whose behaviour is that of a service; test-only functions. Error messages are
  collapsed to their kind, and traces are left out. Paths are Unix paths.
\<close>

end
